(* ===== verification/Prelude.thy ===== *)
theory Prelude
  imports Main "HOL-Library.Word" "HOL-Library.Multiset"
begin

text \<open>
  Types and generic lemmas shared by every theory of the development: bytes and byte strings,
  the three outcomes of a Go call (a value, a returned error, a run-time panic), Go's slice
  expressions and its built-in \<^verbatim>\<open>copy\<close>, and list lemmas used by several components.
\<close>

unbundle bit_operations_syntax

named_theorems go_defs \<open>definitions of the Go primitives, unfolded on demand\<close>
named_theorems wf_intros \<open>preservation lemmas of the well-formedness invariants\<close>

type_synonym byte = "8 word"
type_synonym bytes = "byte list"
type_synonym uint16 = "16 word"
type_synonym uint32 = "32 word"
type_synonym uint64 = "64 word"

text \<open>Instants and durations are nanoseconds, as in Go's package time.\<close>

type_synonym time = int

abbreviation second :: time where "second \<equiv> 1000000000"

section \<open>Outcomes of Go calls\<close>

text \<open>
  \<^verbatim>\<open>Ok v\<close> is a return with a nil error, \<^verbatim>\<open>Err e\<close> a return with the error
  \<^verbatim>\<open>e\<close>, \<^verbatim>\<open>Panic\<close> a run-time panic, which ends the whole process.
\<close>

datatype ('e, 'a) res = Ok 'a | Err 'e | Panic

fun res_bind :: "('e, 'a) res \<Rightarrow> ('a \<Rightarrow> ('e, 'b) res) \<Rightarrow> ('e, 'b) res" where
  "res_bind (Ok v) f = f v"
| "res_bind (Err e) f = Err e"
| "res_bind Panic f = Panic"

lemma res_bind_eq_Ok [simp]: "res_bind r f = Ok v \<longleftrightarrow> (\<exists>u. r = Ok u \<and> f u = Ok v)"
  by (cases r) auto

lemma res_bind_eq_Panic: "res_bind r f = Panic \<longleftrightarrow> r = Panic \<or> (\<exists>u. r = Ok u \<and> f u = Panic)"
  by (cases r) auto

lemma res_bind_cong [fundef_cong]:
  "r = r' \<Longrightarrow> (\<And>v. r' = Ok v \<Longrightarrow> f v = g v) \<Longrightarrow> res_bind r f = res_bind r' g"
  by (cases r') auto

text \<open>
  A call that also changes a state returns the state with its outcome, on every path: what was
  done before an error stays done.
\<close>

type_synonym ('s, 'e, 'a) prog = "'s \<Rightarrow> 's \<times> ('e, 'a) res"

definition ret :: "'a \<Rightarrow> ('s, 'e, 'a) prog" where
  [go_defs]: "ret x s = (s, Ok x)"

definition fail :: "'e \<Rightarrow> ('s, 'e, 'a) prog" where
  [go_defs]: "fail e s = (s, Err e)"

definition panic :: "('s, 'e, 'a) prog" where
  [go_defs]: "panic s = (s, Panic)"

definition lift_res :: "('e, 'a) res \<Rightarrow> ('s, 'e, 'a) prog" where
  [go_defs]: "lift_res r s = (s, r)"

definition prog_bind :: "('s, 'e, 'a) prog \<Rightarrow> ('a \<Rightarrow> ('s, 'e, 'b) prog) \<Rightarrow> ('s, 'e, 'b) prog" where
  [go_defs]: "prog_bind m f s =
     (case m s of
        (s1, Ok x) \<Rightarrow> f x s1
      | (s1, Err e) \<Rightarrow> (s1, Err e)
      | (s1, Panic) \<Rightarrow> (s1, Panic))"

lemma prog_bind_Ok: "m s = (s1, Ok x) \<Longrightarrow> prog_bind m f s = f x s1"
  by (simp add: prog_bind_def)

lemma prog_bind_Err: "m s = (s1, Err e) \<Longrightarrow> prog_bind m f s = (s1, Err e)"
  by (simp add: prog_bind_def)

lemma prog_bind_Panic: "m s = (s1, Panic) \<Longrightarrow> prog_bind m f s = (s1, Panic)"
  by (simp add: prog_bind_def)

lemmas prog_binds = prog_bind_Ok prog_bind_Err prog_bind_Panic

section \<open>Slices\<close>

text \<open>
  \<^verbatim>\<open>go_copy dst src\<close> is the contents of \<^verbatim>\<open>dst\<close> after \<^verbatim>\<open>copy(dst, src)\<close>: as many
  elements as fit, the rest of \<^verbatim>\<open>dst\<close> unchanged. The built-in reads its source before it writes,
  so overlapping slices are safe.
\<close>

definition go_copy :: "'a list \<Rightarrow> 'a list \<Rightarrow> 'a list" where
  [go_defs]: "go_copy dst src = take (length dst) src @ drop (length src) dst"

lemma length_go_copy [simp]: "length (go_copy dst src) = length dst"
  by (simp add: go_copy_def)

lemma go_copy_exact: "length src = length dst \<Longrightarrow> go_copy dst src = src"
  by (simp add: go_copy_def)

text \<open>A zeroed array of \<^verbatim>\<open>n\<close> bytes after \<^verbatim>\<open>copy(a[:], bs)\<close>.\<close>

definition array_of :: "nat \<Rightarrow> bytes \<Rightarrow> bytes" where
  "array_of n bs = go_copy (replicate n 0) bs"

lemma length_array_of [simp]: "length (array_of n bs) = n"
  by (simp add: array_of_def)

lemma array_of_exact [simp]: "length bs = n \<Longrightarrow> array_of n bs = bs"
  by (simp add: array_of_def go_copy_def)

text \<open>
  A slice value is its visible elements together with what the backing array holds between its
  length and its capacity. \<^verbatim>\<open>s[i:j]\<close> may extend up to the capacity, \<^verbatim>\<open>s[i:]\<close> only up to
  the length; anything else panics.
\<close>

type_synonym 'a slice = "'a list \<times> 'a list"

definition slice_to :: "'a slice \<Rightarrow> nat \<Rightarrow> nat \<Rightarrow> ('e, 'a slice) res" where
  [go_defs]: "slice_to s i j =
     (let a = fst s @ snd s in
      if i \<le> j \<and> j \<le> length a then Ok (take (j - i) (drop i a), drop j a) else Panic)"

definition slice_from :: "'a slice \<Rightarrow> nat \<Rightarrow> ('e, 'a slice) res" where
  [go_defs]: "slice_from s i = slice_to s i (length (fst s))"

definition index_at :: "'a list \<Rightarrow> nat \<Rightarrow> ('e, 'a) res" where
  [go_defs]: "index_at xs i = (if i < length xs then Ok (xs ! i) else Panic)"

lemma slice_from_panics: "length (fst s) < i \<Longrightarrow> slice_from s i = Panic"
  by (simp add: slice_from_def slice_to_def)

lemma slice_to_inside:
  "i \<le> j \<Longrightarrow> j \<le> length (fst s) \<Longrightarrow>
   slice_to s i j = Ok (take (j - i) (drop i (fst s)), drop j (fst s) @ snd s)"
  by (simp add: slice_to_def)

section \<open>Strings as bytes\<close>

definition bytes_of :: "string \<Rightarrow> bytes" where
  "bytes_of s = map (\<lambda>c. of_nat (of_char c)) s"

definition str_of :: "bytes \<Rightarrow> string" where
  "str_of bs = map (\<lambda>b. char_of (unat b)) bs"

lemma length_bytes_of [simp]: "length (bytes_of s) = length s"
  by (simp add: bytes_of_def)

lemma bytes_of_append [simp]: "bytes_of (s @ t) = bytes_of s @ bytes_of t"
  by (simp add: bytes_of_def)

lemma unat_byte_of_char [simp]: "unat (of_nat (of_char c) :: byte) = of_char c"
  by (simp add: unat_of_nat)

lemma str_of_bytes_of [simp]: "str_of (bytes_of s) = s"
  by (simp add: str_of_def bytes_of_def comp_def)

lemma unat_byte_less [simp]: "unat (b :: byte) < 256"
  using unsigned_less [of b] by simp

lemma bytes_of_str_of [simp]: "bytes_of (str_of bs) = bs"
  by (induction bs) (simp_all add: str_of_def bytes_of_def)

lemma bytes_of_eq_iff [simp]: "bytes_of s = bytes_of t \<longleftrightarrow> s = t"
  by (auto dest: arg_cong [of _ _ str_of])

lemma str_of_eq_iff [simp]: "str_of a = str_of b \<longleftrightarrow> a = b"
  by (auto dest: arg_cong [of _ _ bytes_of])

section \<open>Lists\<close>

lemma take_append_exact: "length xs = n \<Longrightarrow> take n (xs @ ys) = xs"
  by simp

lemma drop_append_exact: "length xs = n \<Longrightarrow> drop n (xs @ ys) = ys"
  by simp

lemma mset_take_drop_nth:
  assumes "i < length xs"
  shows "mset xs = mset (take i xs) + {#xs ! i#} + mset (drop (Suc i) xs)"
proof -
  have "mset xs = mset (take i xs @ xs ! i # drop (Suc i) xs)"
    using assms by (simp flip: id_take_nth_drop)
  then show ?thesis by simp
qed

lemma list_all_list_update:
  "list_all P xs \<Longrightarrow> P x \<Longrightarrow> list_all P (xs[i := x])"
  using set_update_subset_insert [of xs i x] by (auto simp: list_all_iff)

text \<open>The index at which a loop \<^verbatim>\<open>for i := range xs\<close> finds its first hit.\<close>

primrec first_index :: "('a \<Rightarrow> bool) \<Rightarrow> 'a list \<Rightarrow> nat option" where
  "first_index P [] = None"
| "first_index P (x # xs) = (if P x then Some 0 else map_option Suc (first_index P xs))"

lemma first_index_None: "first_index P xs = None \<longleftrightarrow> (\<forall>x \<in> set xs. \<not> P x)"
  by (induction xs) auto

lemma first_index_Some:
  "first_index P xs = Some i \<Longrightarrow> i < length xs \<and> P (xs ! i) \<and> (\<forall>k < i. \<not> P (xs ! k))"
proof (induction xs arbitrary: i)
  case Nil
  then show ?case by simp
next
  case (Cons x xs)
  show ?case
  proof (cases "P x")
    case True
    with Cons.prems show ?thesis by simp
  next
    case False
    with Cons.prems obtain j where "i = Suc j" "first_index P xs = Some j" by auto
    with Cons.IH False show ?thesis by (auto simp: nth_Cons split: nat.splits)
  qed
qed

lemma take_drop_Suc_nth: "i < length xs \<Longrightarrow> xs = take i xs @ xs ! i # drop (Suc i) xs"
  by (rule id_take_nth_drop)

lemma distinct_map_remove_nth:
  assumes "k < length xs" "distinct (map f xs)"
  shows "distinct (map f (take k xs @ drop (Suc k) xs))"
    and "f (xs ! k) \<notin> f ` set (take k xs @ drop (Suc k) xs)"
proof -
  have "map f xs = map f (take k xs) @ f (xs ! k) # map f (drop (Suc k) xs)"
    using arg_cong [OF take_drop_Suc_nth [OF assms(1)], of "map f"] by (simp del: append_take_drop_id)
  with assms(2) show "distinct (map f (take k xs @ drop (Suc k) xs))"
    and "f (xs ! k) \<notin> f ` set (take k xs @ drop (Suc k) xs)" by auto
qed

lemma set_remove_nth_subset: "set (take k xs @ drop (Suc k) xs) \<subseteq> set xs"
  by (auto dest: in_set_takeD in_set_dropD)

section \<open>Operations that keep an invariant\<close>

text \<open>
  What every state machine of the development provides: a step for each event, and an invariant
  no step breaks as long as the events are possible ones. The client fact is that no sequence of
  possible events breaks it.
\<close>

locale guarded =
  fixes inv :: "'s \<Rightarrow> bool" and guard :: "'e \<Rightarrow> bool" and step :: "'e \<Rightarrow> 's \<Rightarrow> 's"
  assumes guarded_step: "inv s \<Longrightarrow> guard e \<Longrightarrow> inv (step e s)"
begin

lemma guarded_run: "inv s \<Longrightarrow> \<forall>e \<in> set es. guard e \<Longrightarrow> inv (fold step es s)"
  by (induction es arbitrary: s) (simp_all add: guarded_step)

end

text \<open>The case in which every event may happen.\<close>

locale preserving =
  fixes inv :: "'s \<Rightarrow> bool" and step :: "'e \<Rightarrow> 's \<Rightarrow> 's"
  assumes step_inv: "inv s \<Longrightarrow> inv (step e s)"

sublocale preserving \<subseteq> guarded inv "\<lambda>_. True" step
  by unfold_locales (rule step_inv)

context preserving
begin

lemma run_inv: "inv s \<Longrightarrow> inv (fold step es s)"
  by (rule guarded_run) simp_all

end

end
