(* ===== verification/Go_Heap.thy ===== *)
theory Go_Heap
  imports Prelude
begin

text \<open>
  Go's package container/heap on a slice, with the loops \<^verbatim>\<open>up\<close> and \<^verbatim>\<open>down\<close> as the library writes
  them. An element is ordered by a key. The interface \<^verbatim>\<open>priority_queue\<close> states what a client may rely
  on; the heap is shown to provide it.
\<close>

definition swap :: "nat \<Rightarrow> nat \<Rightarrow> 'a list \<Rightarrow> 'a list" where
  "swap i j h = h[i := h ! j, j := h ! i]"

definition parent :: "nat \<Rightarrow> nat" where
  "parent j = (j - 1) div 2"

lemma parent_eq: "0 < m \<Longrightarrow> parent m = i \<longleftrightarrow> m = 2 * i + 1 \<or> m = 2 * i + 2"
  by (auto simp: parent_def)

lemma parent_less: "0 < m \<Longrightarrow> parent m < m"
  by (auto simp: parent_def)

lemma parent_0 [simp]: "parent 0 = 0"
  by (simp add: parent_def)

function up :: "('a \<Rightarrow> 'k::linorder) \<Rightarrow> nat \<Rightarrow> 'a list \<Rightarrow> 'a list" where
  "up key j h =
     (let i = parent j in
      if i = j \<or> \<not> key (h ! j) < key (h ! i) then h else up key i (swap i j h))"
  by pat_completeness auto
termination
  by (relation "measure (\<lambda>(key, j, h). j)") (auto simp: parent_def)

function down :: "('a \<Rightarrow> 'k::linorder) \<Rightarrow> nat \<Rightarrow> nat \<Rightarrow> 'a list \<Rightarrow> 'a list" where
  "down key i n h =
     (let j1 = 2 * i + 1 in
      if n \<le> j1 then h
      else
        let j2 = j1 + 1;
            j = (if j2 < n \<and> key (h ! j2) < key (h ! j1) then j2 else j1)
        in if \<not> key (h ! j) < key (h ! i) then h else down key j n (swap i j h))"
  by pat_completeness auto
termination
  by (relation "measure (\<lambda>(key, i, n, h). n - i)") (auto split: if_splits)

declare up.simps [simp del] down.simps [simp del]

definition heap_Push :: "('a \<Rightarrow> 'k::linorder) \<Rightarrow> 'a \<Rightarrow> 'a list \<Rightarrow> 'a list" where
  "heap_Push key x h = (let h1 = h @ [x] in up key (length h1 - 1) h1)"

definition heap_Pop :: "('a \<Rightarrow> 'k::linorder) \<Rightarrow> 'a list \<Rightarrow> 'a \<times> 'a list" where
  "heap_Pop key h =
     (let n = length h - 1;
          h1 = down key 0 n (swap 0 n h)
      in (h1 ! n, take n h1))"

section \<open>The heap order\<close>

definition heap_upto :: "('a \<Rightarrow> 'k::linorder) \<Rightarrow> nat \<Rightarrow> 'a list \<Rightarrow> bool" where
  "heap_upto key n h \<longleftrightarrow> (\<forall>m. 0 < m \<and> m < n \<longrightarrow> key (h ! parent m) \<le> key (h ! m))"

definition heap_inv :: "('a \<Rightarrow> 'k::linorder) \<Rightarrow> 'a list \<Rightarrow> bool" where
  "heap_inv key h = heap_upto key (length h) h"

lemma length_swap [simp]: "length (swap i j h) = length h"
  by (simp add: swap_def)

lemma nth_swap:
  "i < length h \<Longrightarrow> j < length h \<Longrightarrow>
   swap i j h ! m = (if m = j then h ! i else if m = i then h ! j else h ! m)"
  by (auto simp: swap_def nth_list_update)

lemma mset_swap [simp]: "i < length h \<Longrightarrow> j < length h \<Longrightarrow> mset (swap i j h) = mset h"
  unfolding swap_def by (rule mset_swap)

subsection \<open>Sifting up\<close>

text \<open>The heap order holds everywhere but between \<^verbatim>\<open>j\<close> and its parent.\<close>

definition up_ready :: "('a \<Rightarrow> 'k::linorder) \<Rightarrow> nat \<Rightarrow> 'a list \<Rightarrow> bool" where
  "up_ready key j h \<longleftrightarrow>
     (\<forall>m. 0 < m \<and> m < length h \<and> m \<noteq> j \<longrightarrow> key (h ! parent m) \<le> key (h ! m)) \<and>
     (\<forall>m. 0 < m \<and> m < length h \<and> parent m = j \<and> 0 < j \<longrightarrow> key (h ! parent j) \<le> key (h ! m))"

lemma up_ready_swap:
  assumes "j < length h" "0 < j" "key (h ! j) < key (h ! parent j)" "up_ready key j h"
  shows "up_ready key (parent j) (swap (parent j) j h)"
proof -
  let ?i = "parent j"
  have i: "?i < j" by (rule parent_less [OF assms(2)])
  then have il: "?i < length h" using assms(1) by simp
  note at = nth_swap [OF il assms(1)]
  have order: "key (h ! parent m) \<le> key (h ! m)" if "0 < m" "m < length h" "m \<noteq> j" for m
    using assms(4) that by (simp add: up_ready_def)
  have below: "key (h ! ?i) \<le> key (h ! m)" if "0 < m" "m < length h" "parent m = j" for m
    using assms(2,4) that by (simp add: up_ready_def)
  have "key (swap ?i j h ! parent m) \<le> key (swap ?i j h ! m)"
    if m: "0 < m" "m < length h" "m \<noteq> ?i" for m
  proof (cases "m = j")
    case True
    then show ?thesis using assms(3) i by (simp add: at)
  next
    case False
    note o = order [OF m(1,2) False]
    consider "parent m = j" | "parent m = ?i" | "parent m \<noteq> j" "parent m \<noteq> ?i" by blast
    then show ?thesis
    proof cases
      case 1
      then show ?thesis using below [OF m(1,2)] False m(3) by (simp add: at)
    next
      case 2
      then have "key (h ! j) \<le> key (h ! m)" using o assms(3) by simp
      then show ?thesis using 2 i False m(3) by (simp add: at)
    next
      case 3
      then show ?thesis using o False m(3) by (simp add: at)
    qed
  qed
  moreover have "key (swap ?i j h ! parent ?i) \<le> key (swap ?i j h ! m)"
    if m: "0 < m" "m < length h" "parent m = ?i" "0 < ?i" for m
  proof -
    have pp: "parent ?i < ?i" by (rule parent_less [OF m(4)])
    have up: "key (h ! parent ?i) \<le> key (h ! ?i)" using order [OF m(4) il] i by simp
    show ?thesis
    proof (cases "m = j")
      case True
      then show ?thesis using up pp i by (simp add: at)
    next
      case False
      have "m \<noteq> ?i" using m(3) parent_less [OF m(4)] by auto
      then show ?thesis using order [OF m(1,2) False] up pp i False m(3) by (simp add: at)
    qed
  qed
  ultimately show ?thesis by (simp add: up_ready_def)
qed

lemma up_heap:
  assumes "j < length h" "up_ready key j h"
  shows "heap_inv key (up key j h) \<and> mset (up key j h) = mset h"
  using assms
proof (induction key j h rule: up.induct)
  case (1 key j h)
  show ?case
  proof (cases "parent j = j \<or> \<not> key (h ! j) < key (h ! parent j)")
    case True
    then have "up key j h = h" by (simp add: up.simps [of key j h] Let_def)
    moreover have "heap_inv key h"
      using True 1(3) unfolding heap_inv_def heap_upto_def up_ready_def
      by (metis leI less_irrefl parent_less)
    ultimately show ?thesis by simp
  next
    case False
    then have j: "0 < j" by (cases j) auto
    then have pj: "parent j < length h" using 1(2) parent_less [of j] by simp
    have "up key j h = up key (parent j) (swap (parent j) j h)"
      using False by (simp add: up.simps [of key j h] Let_def)
    moreover have "up_ready key (parent j) (swap (parent j) j h)"
      using up_ready_swap 1(2,3) j False by blast
    ultimately show ?thesis using 1(1) [OF refl False] pj 1(2) by simp
  qed
qed

lemma heap_Push:
  assumes "heap_inv key h"
  shows "heap_inv key (heap_Push key x h)" "mset (heap_Push key x h) = add_mset x (mset h)"
proof -
  have "up_ready key (length h) (h @ [x])"
    unfolding up_ready_def
  proof (intro conjI allI impI)
    fix m
    assume m: "0 < m \<and> m < length (h @ [x]) \<and> m \<noteq> length h"
    then show "key ((h @ [x]) ! parent m) \<le> key ((h @ [x]) ! m)"
      using assms parent_less [of m] by (simp add: heap_inv_def heap_upto_def nth_append)
  next
    fix m
    assume "0 < m \<and> m < length (h @ [x]) \<and> parent m = length h \<and> 0 < length h"
    then show "key ((h @ [x]) ! parent (length h)) \<le> key ((h @ [x]) ! m)"
      using parent_less [of m] by simp
  qed
  then have "heap_inv key (up key (length h) (h @ [x])) \<and> mset (up key (length h) (h @ [x])) = mset (h @ [x])"
    by (intro up_heap) simp_all
  then show "heap_inv key (heap_Push key x h)" "mset (heap_Push key x h) = add_mset x (mset h)"
    by (simp_all add: heap_Push_def)
qed

subsection \<open>Sifting down\<close>

text \<open>The heap order holds among the first \<^verbatim>\<open>n\<close> elements everywhere but between \<^verbatim>\<open>i\<close> and its children.\<close>

definition down_ready :: "('a \<Rightarrow> 'k::linorder) \<Rightarrow> nat \<Rightarrow> nat \<Rightarrow> 'a list \<Rightarrow> bool" where
  "down_ready key i n h \<longleftrightarrow>
     (\<forall>m. 0 < m \<and> m < n \<and> parent m \<noteq> i \<longrightarrow> key (h ! parent m) \<le> key (h ! m)) \<and>
     (\<forall>m. 0 < m \<and> m < n \<and> parent m = i \<and> 0 < i \<longrightarrow> key (h ! parent i) \<le> key (h ! m))"

text \<open>The child \<^verbatim>\<open>down\<close> compares with: the smaller one.\<close>

definition least_child :: "('a \<Rightarrow> 'k::linorder) \<Rightarrow> nat \<Rightarrow> nat \<Rightarrow> 'a list \<Rightarrow> nat" where
  "least_child key i n h =
     (if 2 * i + 2 < n \<and> key (h ! (2 * i + 2)) < key (h ! (2 * i + 1)) then 2 * i + 2 else 2 * i + 1)"

lemma least_child:
  assumes "2 * i + 1 < n"
  shows "least_child key i n h < n" "i < least_child key i n h" "parent (least_child key i n h) = i"
    and "0 < m \<Longrightarrow> m < n \<Longrightarrow> parent m = i \<Longrightarrow> key (h ! least_child key i n h) \<le> key (h ! m)"
  using assms parent_eq [of m i] by (auto simp: least_child_def parent_def)

lemma down_unfold:
  "down key i n h =
     (if n \<le> 2 * i + 1 then h
      else if \<not> key (h ! least_child key i n h) < key (h ! i) then h
      else down key (least_child key i n h) n (swap i (least_child key i n h) h))"
  by (subst down.simps) (simp add: Let_def least_child_def)

lemma down_ready_swap:
  fixes key :: "'a \<Rightarrow> 'k::linorder"
  assumes "n \<le> length h" "2 * i + 1 < n" "down_ready key i n h"
  defines "j \<equiv> least_child key i n h"
  assumes "key (h ! j) < key (h ! i)"
  shows "down_ready key j n (swap i j h)"
proof -
  note c = least_child [OF assms(2), where key = key and h = h, folded j_def]
  have il: "i < length h" and jl: "j < length h" using assms(1) c(1,2) by auto
  note at = nth_swap [OF il jl]
  have order: "key (h ! parent m) \<le> key (h ! m)" if "0 < m" "m < n" "parent m \<noteq> i" for m
    using assms(3) that by (simp add: down_ready_def)
  have above: "key (h ! parent i) \<le> key (h ! m)" if "0 < m" "m < n" "parent m = i" "0 < i" for m
    using assms(3) that by (simp add: down_ready_def)
  have "key (swap i j h ! parent m) \<le> key (swap i j h ! m)"
    if m: "0 < m" "m < n" "parent m \<noteq> j" for m
  proof (cases "parent m = i")
    case True
    then have "m \<noteq> i" using parent_less [OF m(1)] by auto
    then show ?thesis using True c(2) c(4) [OF m(1,2) True] assms(5) by (auto simp: at)
  next
    case False
    have "m \<noteq> j" using False c(3) by auto
    moreover have "key (h ! parent i) \<le> key (h ! j)" if "m = i"
      using above [of j] c(1,2,3) m(1) that by auto
    ultimately show ?thesis using order [OF m(1,2) False] False m(3) by (simp add: at)
  qed
  moreover have "key (swap i j h ! parent j) \<le> key (swap i j h ! m)"
    if m: "0 < m" "m < n" "parent m = j" for m
  proof -
    have "m \<noteq> j" "m \<noteq> i" using parent_less [OF m(1)] m(3) c(2) by auto
    moreover have "key (h ! j) \<le> key (h ! m)"
      using order [OF m(1,2)] m(3) c(2) by simp
    ultimately show ?thesis using c(2,3) by (simp add: at)
  qed
  ultimately show ?thesis by (simp add: down_ready_def)
qed

lemma down_heap:
  assumes "n \<le> length h" "i < n \<or> n = 0" "down_ready key i n h"
  shows "heap_upto key n (down key i n h) \<and> mset (down key i n h) = mset h \<and>
         (\<forall>m. n \<le> m \<longrightarrow> down key i n h ! m = h ! m)"
  using assms
proof (induction "n - i" arbitrary: i h rule: less_induct)
  case less
  let ?j = "least_child key i n h"
  show ?case
  proof (cases "n \<le> 2 * i + 1 \<or> \<not> key (h ! ?j) < key (h ! i)")
    case True
    then have "down key i n h = h" by (auto simp: down_unfold [of key i n h])
    moreover have "key (h ! parent m) \<le> key (h ! m)" if "0 < m" "m < n" for m
    proof (cases "parent m = i")
      case True
      then have two: "2 * i + 1 < n" using that parent_eq [of m i] by auto
      then have "key (h ! i) \<le> key (h ! ?j)"
        using \<open>n \<le> 2 * i + 1 \<or> \<not> key (h ! ?j) < key (h ! i)\<close> by auto
      with least_child(4) [OF two that True, where key = key and h = h] True show ?thesis by simp
    next
      case False
      then show ?thesis using less.prems(3) that by (simp add: down_ready_def)
    qed
    ultimately show ?thesis by (simp add: heap_upto_def)
  next
    case False
    then have two: "2 * i + 1 < n" by simp
    note c = least_child [OF two, where key = key and h = h]
    have *: "down key i n h = down key ?j n (swap i ?j h)"
      using False by (simp add: down_unfold [of key i n h])
    have "down_ready key ?j n (swap i ?j h)"
      using down_ready_swap [OF less.prems(1) two less.prems(3)] False by simp
    with less.hyps [of ?j "swap i ?j h"] c(1,2) less.prems(1)
    have "heap_upto key n (down key ?j n (swap i ?j h)) \<and>
        mset (down key ?j n (swap i ?j h)) = mset (swap i ?j h) \<and>
        (\<forall>m. n \<le> m \<longrightarrow> down key ?j n (swap i ?j h) ! m = swap i ?j h ! m)"
      by simp
    then show ?thesis using c(1,2) less.prems(1) by (simp add: * nth_swap)
  qed
qed

lemma length_down: "n \<le> length h \<Longrightarrow> i < n \<or> n = 0 \<Longrightarrow> down_ready key i n h \<Longrightarrow> length (down key i n h) = length h"
  using down_heap [of n h i key] by (metis size_mset)

lemma heap_root_least: "heap_inv key h \<Longrightarrow> m < length h \<Longrightarrow> key (h ! 0) \<le> key (h ! m)"
proof (induction m rule: less_induct)
  case (less m)
  show ?case
  proof (cases "m = 0")
    case False
    then have "parent m < m" by (simp add: parent_less)
    with less False have "key (h ! 0) \<le> key (h ! parent m)" by simp
    also have "\<dots> \<le> key (h ! m)" using less.prems False by (simp add: heap_inv_def heap_upto_def)
    finally show ?thesis .
  qed simp
qed

lemma heap_Pop:
  assumes "heap_inv key h" "h \<noteq> []"
  shows "fst (heap_Pop key h) = h ! 0" "heap_inv key (snd (heap_Pop key h))"
    and "mset h = add_mset (h ! 0) (mset (snd (heap_Pop key h)))"
proof -
  let ?n = "length h - 1"
  let ?h = "swap 0 ?n h"
  have n: "?n < length h" "0 < length h" using assms(2) by auto
  have "down_ready key 0 ?n ?h"
    unfolding down_ready_def
  proof (intro conjI allI impI)
    fix m
    assume m: "0 < m \<and> m < ?n \<and> parent m \<noteq> 0"
    then show "key (?h ! parent m) \<le> key (?h ! m)"
      using assms(1) n parent_less [of m] by (auto simp: heap_inv_def heap_upto_def nth_swap)
  qed simp
  moreover have "?n \<le> length ?h" "0 < ?n \<or> ?n = 0" by auto
  ultimately have d: "heap_upto key ?n (down key 0 ?n ?h)" "mset (down key 0 ?n ?h) = mset ?h"
    "down key 0 ?n ?h ! ?n = ?h ! ?n"
    using down_heap [of ?n ?h 0 key] by blast+
  let ?d = "down key 0 ?n ?h"
  have len: "length ?d = length h" using d(2) by (metis length_swap size_mset)
  have last: "?d ! ?n = h ! 0" using d(3) n by (simp add: nth_swap)
  then show "fst (heap_Pop key h) = h ! 0" by (simp add: heap_Pop_def Let_def)
  show "heap_inv key (snd (heap_Pop key h))"
    using d(1) len n order.strict_trans [OF parent_less]
    by (auto simp: heap_Pop_def Let_def heap_inv_def heap_upto_def)
  have "?d = take ?n ?d @ [?d ! ?n]"
    using take_Suc_conv_app_nth [of ?n ?d] len n by (metis Suc_diff_1 take_all order_refl)
  then have "mset ?d = add_mset (h ! 0) (mset (take ?n ?d))"
    using last by (metis add.commute add_mset_add_single mset.simps(1) mset.simps(2) mset_append)
  then show "mset h = add_mset (h ! 0) (mset (snd (heap_Pop key h)))"
    using d(2) n by (simp add: heap_Pop_def Let_def)
qed

section \<open>The priority queue a client sees\<close>

locale priority_queue =
  fixes inv :: "'q \<Rightarrow> bool" and elems :: "'q \<Rightarrow> 'a multiset" and key :: "'a \<Rightarrow> 'k::linorder"
    and push :: "'a \<Rightarrow> 'q \<Rightarrow> 'q" and least :: "'q \<Rightarrow> 'a" and pop :: "'q \<Rightarrow> 'q"
  assumes push_inv: "inv q \<Longrightarrow> inv (push x q)"
    and push_elems: "inv q \<Longrightarrow> elems (push x q) = add_mset x (elems q)"
    and least_le: "inv q \<Longrightarrow> x \<in># elems q \<Longrightarrow> key (least q) \<le> key x"
    and pop_inv: "inv q \<Longrightarrow> elems q \<noteq> {#} \<Longrightarrow> inv (pop q)"
    and pop_elems: "inv q \<Longrightarrow> elems q \<noteq> {#} \<Longrightarrow> elems q = add_mset (least q) (elems (pop q))"
begin

text \<open>Popping while the least key is below a limit removes exactly the elements below it.\<close>

lemma filter_keep_all:
  "inv q \<Longrightarrow> elems q = {#} \<or> \<not> key (least q) < t \<Longrightarrow> filter_mset (\<lambda>x. \<not> key x < t) (elems q) = elems q"
  using least_le by (force simp: filter_mset_eq_conv not_less)

lemma filter_pop:
  "inv q \<Longrightarrow> elems q \<noteq> {#} \<Longrightarrow> key (least q) < t \<Longrightarrow>
   filter_mset (\<lambda>x. \<not> key x < t) (elems (pop q)) = filter_mset (\<lambda>x. \<not> key x < t) (elems q)"
  using pop_elems [of q] by simp

end

interpretation go_heap: priority_queue "heap_inv key" mset key "heap_Push key" "\<lambda>h. h ! 0"
    "\<lambda>h. snd (heap_Pop key h)" for key :: "'a \<Rightarrow> 'k::linorder"
proof unfold_locales
  show "heap_inv key h \<Longrightarrow> x \<in># mset h \<Longrightarrow> key (h ! 0) \<le> key x" for h x
    using heap_root_least by (metis in_set_conv_nth set_mset_mset)
qed (use heap_Push heap_Pop in auto)

end
