(* ===== verification/Go_Binary.thy ===== *)
theory Go_Binary
  imports Prelude
begin

text \<open>
  The parts of Go's packages encoding/binary, math/big and encoding/hex that the program calls:
  little-endian 32-bit integers, the big-endian bytes of a natural number, and hexadecimal text.
\<close>

section \<open>Little-endian 32-bit integers\<close>

definition put_uint32_le :: "uint32 \<Rightarrow> bytes" where
  "put_uint32_le v = [ucast v, ucast (drop_bit 8 v), ucast (drop_bit 16 v), ucast (drop_bit 24 v)]"

fun uint32_le :: "bytes \<Rightarrow> ('e, uint32) res" where
  "uint32_le (b0 # b1 # b2 # b3 # _) =
     Ok (ucast b0 OR push_bit 8 (ucast b1) OR push_bit 16 (ucast b2) OR push_bit 24 (ucast b3))"
| "uint32_le _ = Panic"

lemma length_put_uint32_le [simp]: "length (put_uint32_le v) = 4"
  by (simp add: put_uint32_le_def)

lemma le_bytes_recombine:
  fixes v :: uint32
  shows "ucast (ucast v :: byte) OR push_bit 8 (ucast (ucast (drop_bit 8 v) :: byte)) OR
         push_bit 16 (ucast (ucast (drop_bit 16 v) :: byte)) OR
         push_bit 24 (ucast (ucast (drop_bit 24 v) :: byte)) = v" (is "?l = v")
proof (rule bit_eqI)
  fix n
  assume "possible_bit TYPE(uint32) n"
  then consider "n < 8" | "8 \<le> n" "n < 16" | "16 \<le> n" "n < 24" | "24 \<le> n" "n < 32" by fastforce
  then show "bit ?l n = bit v n"
    by cases (auto simp: bit_simps)
qed

lemma uint32_le_put [simp]: "uint32_le (put_uint32_le v @ rest) = Ok v"
  by (simp add: put_uint32_le_def le_bytes_recombine)

lemma uint32_le_put0 [simp]: "uint32_le (put_uint32_le v) = Ok v"
  using uint32_le_put [of v "[]"] by simp

lemma uint32_le_total: "4 \<le> length bs \<Longrightarrow> \<exists>v. uint32_le bs = Ok v"
  by (cases bs rule: uint32_le.cases) auto

section \<open>Big-endian natural numbers\<close>

text \<open>\<^verbatim>\<open>new(big.Int).SetBytes(bs)\<close> and \<^verbatim>\<open>x.Bytes()\<close>, the latter with no leading zero.\<close>

definition be_nat :: "bytes \<Rightarrow> nat" where
  "be_nat bs = foldl (\<lambda>a b. 256 * a + unat b) 0 bs"

fun nat_be :: "nat \<Rightarrow> bytes" where
  "nat_be n = (if n = 0 then [] else nat_be (n div 256) @ [of_nat (n mod 256)])"

declare nat_be.simps [simp del]

lemma be_nat_Nil [simp]: "be_nat [] = 0"
  by (simp add: be_nat_def)

lemma be_nat_snoc [simp]: "be_nat (bs @ [b]) = 256 * be_nat bs + unat b"
  by (simp add: be_nat_def)

lemma be_nat_append: "be_nat (xs @ ys) = be_nat xs * 256 ^ length ys + be_nat ys"
proof (induction ys rule: rev_induct)
  case Nil
  then show ?case by simp
next
  case (snoc y ys)
  then show ?case
    by (simp flip: append_assoc add: algebra_simps)
qed

lemma be_nat_Cons: "be_nat (b # bs) = unat b * 256 ^ length bs + be_nat bs"
  using be_nat_append [of "[b]" bs] be_nat_snoc [of "[]" b] by simp

lemma be_nat_less: "be_nat bs < 256 ^ length bs"
proof (induction bs rule: rev_induct)
  case Nil
  then show ?case by simp
next
  case (snoc b bs)
  have "256 * be_nat bs + unat b < 256 * be_nat bs + 256" by simp
  also have "\<dots> \<le> 256 * 256 ^ length bs" using snoc by simp
  finally show ?case by simp
qed

lemma nat_be_0 [simp]: "nat_be 0 = []"
  by (simp add: nat_be.simps)

lemma be_nat_nat_be [simp]: "be_nat (nat_be n) = n"
proof (induction n rule: nat_be.induct)
  case (1 n)
  then show ?case
    by (cases "n = 0") (simp_all add: nat_be.simps [of n] unat_of_nat)
qed

lemma be_nat_inj: "length xs = length ys \<Longrightarrow> be_nat xs = be_nat ys \<Longrightarrow> xs = ys"
proof (induction xs ys rule: rev_induct2)
  case (4 x xs y ys)
  then have eq: "256 * be_nat xs + unat x = 256 * be_nat ys + unat y" by simp
  then have "(256 * be_nat xs + unat x) div 256 = (256 * be_nat ys + unat y) div 256" by (rule arg_cong)
  then have "be_nat xs = be_nat ys" by simp
  moreover from this eq have "x = y" by (simp add: word_unat_eq_iff)
  ultimately show ?case using 4 by simp
qed auto

lemma be_nat_leading_zero [simp]: "be_nat (0 # bs) = be_nat bs"
  by (simp add: be_nat_Cons)

lemma be_nat_replicate_zero [simp]: "be_nat (replicate k 0 @ bs) = be_nat bs"
  by (induction k) simp_all

lemma nat_be_snoc: "0 < n \<Longrightarrow> nat_be n = nat_be (n div 256) @ [of_nat (n mod 256)]"
  by (simp add: nat_be.simps [of n])

lemma nat_be_be_nat_nonzero: "bs = [] \<or> hd bs \<noteq> 0 \<Longrightarrow> nat_be (be_nat bs) = bs"
proof (induction bs rule: rev_induct)
  case Nil
  then show ?case by simp
next
  case (snoc b bs)
  have pos: "0 < be_nat (bs @ [b])"
  proof (cases "bs = []")
    case True
    with snoc.prems show ?thesis by (simp add: be_nat_def unat_gt_0)
  next
    case False
    with snoc.prems obtain c cs where c: "bs = c # cs" "c \<noteq> 0" by (cases bs) auto
    then have "0 < unat c * 256 ^ length cs" by (simp add: unat_gt_0)
    with c show ?thesis by (simp add: be_nat_Cons del: be_nat_snoc)
  qed
  have "bs = [] \<or> hd bs \<noteq> 0" using snoc.prems by (cases bs) auto
  with snoc.IH have "nat_be (be_nat bs) = bs" by blast
  moreover have "be_nat (bs @ [b]) div 256 = be_nat bs" "of_nat (be_nat (bs @ [b]) mod 256) = b"
    by (simp_all add: word_unat_eq_iff unat_of_nat)
  ultimately show ?case using nat_be_snoc [OF pos] by simp
qed

lemma nat_be_be_nat: "nat_be (be_nat bs) = dropWhile (\<lambda>b. b = 0) bs"
proof (induction bs)
  case Nil
  then show ?case by simp
next
  case (Cons b bs)
  then show ?case
    using nat_be_be_nat_nonzero [of "b # bs"] by (cases "b = 0") simp_all
qed

lemma length_nat_be_le: "be_nat bs = n \<Longrightarrow> length (nat_be n) \<le> length bs"
  using nat_be_be_nat [of bs] length_dropWhile_le [of "\<lambda>b. b = 0" bs] by simp

section \<open>Hexadecimal text\<close>

datatype hex_error = InvalidByteError byte | ErrLength

definition hextable :: "nat \<Rightarrow> byte" where
  "hextable n = of_nat (if n < 10 then 48 + n else 87 + n)"

definition fromHexChar :: "byte \<Rightarrow> byte option" where
  "fromHexChar c =
     (if 48 \<le> c \<and> c \<le> 57 then Some (c - 48)
      else if 97 \<le> c \<and> c \<le> 102 then Some (c - 97 + 10)
      else if 65 \<le> c \<and> c \<le> 70 then Some (c - 65 + 10)
      else None)"

definition hex_encode :: "bytes \<Rightarrow> bytes" where
  "hex_encode bs = concat (map (\<lambda>b. [hextable (unat (drop_bit 4 b)), hextable (unat (b AND 15))]) bs)"

text \<open>\<^verbatim>\<open>hex.DecodeString\<close>: the bytes decoded before the first fault, and the fault.\<close>

fun hex_decode :: "bytes \<Rightarrow> bytes \<times> hex_error option" where
  "hex_decode [] = ([], None)"
| "hex_decode [c] =
     ([], Some (case fromHexChar c of None \<Rightarrow> InvalidByteError c | Some _ \<Rightarrow> ErrLength))"
| "hex_decode (c # d # s) =
     (case fromHexChar c of None \<Rightarrow> ([], Some (InvalidByteError c))
      | Some a \<Rightarrow>
        (case fromHexChar d of None \<Rightarrow> ([], Some (InvalidByteError d))
         | Some b \<Rightarrow> (let (bs, e) = hex_decode s in ((push_bit 4 a OR b) # bs, e))))"

lemma less_16_cases: "n < 16 \<Longrightarrow> n \<in> {0,1,2,3,4,5,6,7,8,9,10,11,12,13,14,15 :: nat}"
  by (simp, presburger)

lemma fromHexChar_hextable: "n < 16 \<Longrightarrow> fromHexChar (hextable n) = Some (of_nat n)"
  by (drule less_16_cases) (auto simp: fromHexChar_def hextable_def)

lemma nibbles_recombine:
  fixes b :: byte
  shows "push_bit 4 (drop_bit 4 b) OR (b AND 15) = b"
proof (rule bit_eqI)
  fix n
  assume "possible_bit TYPE(byte) n"
  then consider "n < 4" | "4 \<le> n" "n < 8" by fastforce
  moreover have "b AND 15 = take_bit 4 b" by (simp add: take_bit_eq_mask mask_numeral)
  ultimately show "bit (push_bit 4 (drop_bit 4 b) OR (b AND 15)) n = bit b n"
    by cases (simp_all add: bit_simps)
qed

lemma nibbles_less:
  fixes b :: byte
  shows "unat (drop_bit 4 b) < 16" "unat (b AND 15) < 16"
proof -
  have "unat b div 16 < 16" by (rule less_mult_imp_div_less) simp
  then show "unat (drop_bit 4 b) < 16"
    by (simp add: unsigned_drop_bit_eq drop_bit_nat_def take_bit_nat_eq_self)
  have "unat (b AND 15) = take_bit 4 (unat b)"
    by (simp add: take_bit_eq_mask mask_numeral unsigned_and_eq)
  then show "unat (b AND 15) < 16"
    by (simp add: take_bit_eq_mod)
qed

lemma hex_decode_encode [simp]: "hex_decode (hex_encode bs) = (bs, None)"
  by (induction bs)
    (simp_all add: hex_encode_def fromHexChar_hextable nibbles_less nibbles_recombine)

lemma length_hex_encode [simp]: "length (hex_encode bs) = 2 * length bs"
  by (induction bs) (simp_all add: hex_encode_def)

lemma hex_encode_inj: "hex_encode xs = hex_encode ys \<Longrightarrow> xs = ys"
  by (auto dest: arg_cong [of _ _ hex_decode])

end
