(* ===== verification/Base58.thy ===== *)
theory Base58
  imports Go_Binary
begin

text \<open>
  common/base58.go: the Base58 text form of byte strings. The big integers of the source are
  natural numbers, the lookup table and the alphabet are the source's. The main results are the
  two round trips between byte strings and Base58 text.
\<close>

definition alphabet :: bytes where
  "alphabet = bytes_of ''123456789ABCDEFGHJKLMNPQRSTUVWXYZabcdefghijkmnopqrstuvwxyz''"

definition alphabetIdx0 :: byte where
  "alphabetIdx0 = 49"

definition b58 :: "byte list" where
  "b58 =
    [255, 255, 255, 255, 255, 255, 255, 255,
     255, 255, 255, 255, 255, 255, 255, 255,
     255, 255, 255, 255, 255, 255, 255, 255,
     255, 255, 255, 255, 255, 255, 255, 255,
     255, 255, 255, 255, 255, 255, 255, 255,
     255, 255, 255, 255, 255, 255, 255, 255,
     255, 0, 1, 2, 3, 4, 5, 6,
     7, 8, 255, 255, 255, 255, 255, 255,
     255, 9, 10, 11, 12, 13, 14, 15,
     16, 255, 17, 18, 19, 20, 21, 255,
     22, 23, 24, 25, 26, 27, 28, 29,
     30, 31, 32, 255, 255, 255, 255, 255,
     255, 33, 34, 35, 36, 37, 38, 39,
     40, 41, 42, 43, 255, 44, 45, 46,
     47, 48, 49, 50, 51, 52, 53, 54,
     55, 56, 57, 255, 255, 255, 255, 255,
     255, 255, 255, 255, 255, 255, 255, 255,
     255, 255, 255, 255, 255, 255, 255, 255,
     255, 255, 255, 255, 255, 255, 255, 255,
     255, 255, 255, 255, 255, 255, 255, 255,
     255, 255, 255, 255, 255, 255, 255, 255,
     255, 255, 255, 255, 255, 255, 255, 255,
     255, 255, 255, 255, 255, 255, 255, 255,
     255, 255, 255, 255, 255, 255, 255, 255,
     255, 255, 255, 255, 255, 255, 255, 255,
     255, 255, 255, 255, 255, 255, 255, 255,
     255, 255, 255, 255, 255, 255, 255, 255,
     255, 255, 255, 255, 255, 255, 255, 255,
     255, 255, 255, 255, 255, 255, 255, 255,
     255, 255, 255, 255, 255, 255, 255, 255,
     255, 255, 255, 255, 255, 255, 255, 255,
     255, 255, 255, 255, 255, 255, 255, 255]"

text \<open>The loop of \<^verbatim>\<open>B58Decode\<close>: \<^verbatim>\<open>enc\<close> from its last byte to its first.\<close>

fun b58_decode_loop :: "bytes \<Rightarrow> nat \<Rightarrow> nat \<Rightarrow> nat option" where
  "b58_decode_loop [] j answer = Some answer"
| "b58_decode_loop (c # cs) j answer =
     (let tmp = b58 ! unat c in
      if tmp = 255 then None else b58_decode_loop cs (j * 58) (answer + j * unat tmp))"

definition B58Decode :: "bytes \<Rightarrow> bytes" where
  "B58Decode enc =
     (case b58_decode_loop (rev enc) 1 0 of
        None \<Rightarrow> []
      | Some answer \<Rightarrow>
          (let tmp = nat_be answer; numZeros = length (takeWhile (\<lambda>c. c = alphabetIdx0) enc) in
           replicate numZeros 0 @ go_copy (replicate (length tmp) 0) tmp))"

fun b58_digits :: "nat \<Rightarrow> bytes" where
  "b58_digits x = (if x > 0 then alphabet ! (x mod 58) # b58_digits (x div 58) else [])"

declare b58_digits.simps [simp del]

text \<open>The in-place reversal at the end of \<^verbatim>\<open>B58Encode\<close>, swap by swap.\<close>

fun swap_loop :: "nat \<Rightarrow> 'a list \<Rightarrow> 'a list" where
  "swap_loop 0 xs = xs"
| "swap_loop (Suc i) xs =
     (let ys = swap_loop i xs; k = length xs - 1 - i in ys[i := ys ! k, k := ys ! i])"

definition B58Encode :: "bytes \<Rightarrow> bytes" where
  "B58Encode data =
     (let answer = b58_digits (be_nat data) @
                   map (\<lambda>_. alphabetIdx0) (takeWhile (\<lambda>i. i = 0) data)
      in swap_loop (length answer div 2) answer)"

section \<open>The reversal\<close>

lemma length_swap_loop [simp]: "length (swap_loop i xs) = length xs"
  by (induction i) (simp_all add: Let_def)

lemma swap_loop_nth:
  "i \<le> length xs div 2 \<Longrightarrow> k < length xs \<Longrightarrow>
   swap_loop i xs ! k = (if k < i \<or> length xs - i \<le> k then xs ! (length xs - 1 - k) else xs ! k)"
proof (induction i arbitrary: k)
  case 0
  then show ?case by simp
next
  case (Suc i)
  then have "i < length xs - 1 - i" by linarith
  with Suc show ?case
    by (auto simp: Let_def nth_list_update)
qed

lemma swap_loop_rev: "swap_loop (length xs div 2) xs = rev xs"
proof (rule nth_equalityI)
  fix k assume "k < length (swap_loop (length xs div 2) xs)"
  then have k: "k < length xs" by simp
  show "swap_loop (length xs div 2) xs ! k = rev xs ! k"
  proof (cases "k < length xs div 2 \<or> length xs - length xs div 2 \<le> k")
    case True
    with k show ?thesis by (simp add: swap_loop_nth rev_nth)
  next
    case False
    with k have "length xs - 1 - k = k" by linarith
    with False k show ?thesis by (simp add: swap_loop_nth rev_nth)
  qed
qed simp

section \<open>The table inverts the alphabet\<close>

lemma b58_alphabet_all: "list_all (\<lambda>d. b58 ! unat (alphabet ! d) = of_nat d) [0..<58]"
  by code_simp

lemma alphabet_b58_all:
  "list_all (\<lambda>n. b58 ! n = 255 \<or> unat (b58 ! n) < 58 \<and> alphabet ! unat (b58 ! n) = of_nat n) [0..<256]"
  by code_simp

lemma b58_alphabet: "d < 58 \<Longrightarrow> b58 ! unat (alphabet ! d) = of_nat d"
  using b58_alphabet_all by (simp add: list_all_iff)

lemma alphabet_b58:
  assumes "b58 ! unat c \<noteq> 255"
  shows "unat (b58 ! unat c) < 58" "alphabet ! unat (b58 ! unat c) = c"
  using alphabet_b58_all assms by (auto simp: list_all_iff)

lemma b58_alphabet_valid: "d < 58 \<Longrightarrow> b58 ! unat (alphabet ! d) \<noteq> 255"
  by (simp add: b58_alphabet word_unat_eq_iff unat_of_nat)

lemma alphabet_0: "alphabet ! 0 = alphabetIdx0"
  by (simp add: alphabet_def alphabetIdx0_def bytes_of_def)

lemma b58_alphabetIdx0: "b58 ! unat alphabetIdx0 = 0"
  using b58_alphabet [of 0] by (simp add: alphabet_0)

lemma alphabet_eq_Idx0: "d < 58 \<Longrightarrow> alphabet ! d = alphabetIdx0 \<longleftrightarrow> d = 0"
  using b58_alphabet [of d] b58_alphabetIdx0 alphabet_0
  by (auto simp: word_unat_eq_iff unat_of_nat)

lemma b58_eq_0: "b58 ! unat c \<noteq> 255 \<Longrightarrow> b58 ! unat c = 0 \<longleftrightarrow> c = alphabetIdx0"
  using alphabet_b58 [of c] alphabet_0 b58_alphabetIdx0 by auto

section \<open>Values of digit strings\<close>

definition b58_valid :: "bytes \<Rightarrow> bool" where
  "b58_valid cs \<longleftrightarrow> list_all (\<lambda>c. b58 ! unat c \<noteq> 255) cs"

primrec b58_value :: "bytes \<Rightarrow> nat" where
  "b58_value [] = 0"
| "b58_value (c # cs) = unat (b58 ! unat c) + 58 * b58_value cs"

lemma b58_decode_loop_value:
  "b58_decode_loop cs j a = (if b58_valid cs then Some (a + j * b58_value cs) else None)"
  by (induction cs arbitrary: j a) (auto simp: b58_valid_def Let_def algebra_simps)

lemma b58_value_append: "b58_value (cs @ ds) = b58_value cs + 58 ^ length cs * b58_value ds"
  by (induction cs) (simp_all add: algebra_simps)

lemma b58_value_Idx0 [simp]: "b58_value (replicate n alphabetIdx0) = 0"
  by (induction n) (simp_all add: b58_alphabetIdx0)

lemma b58_valid_Idx0 [simp]: "b58_valid (replicate n alphabetIdx0)"
  by (simp add: b58_valid_def b58_alphabetIdx0 list_all_iff)

lemma b58_valid_append [simp]: "b58_valid (cs @ ds) \<longleftrightarrow> b58_valid cs \<and> b58_valid ds"
  by (simp add: b58_valid_def)

lemma b58_valid_rev [simp]: "b58_valid (rev cs) \<longleftrightarrow> b58_valid cs"
  by (simp add: b58_valid_def)

lemma b58_digits_valid: "b58_valid (b58_digits x)"
proof (induction x rule: b58_digits.induct)
  case (1 x)
  then show ?case
    by (subst b58_digits.simps) (auto simp: b58_valid_def b58_alphabet_valid)
qed

lemma b58_value_digits [simp]: "b58_value (b58_digits x) = x"
proof (induction x rule: b58_digits.induct)
  case (1 x)
  show ?case
  proof (cases "0 < x")
    case True
    with 1 have "b58_value (b58_digits (x div 58)) = x div 58" by simp
    moreover have "unat (b58 ! unat (alphabet ! (x mod 58))) = x mod 58"
      by (simp add: b58_alphabet unat_of_nat)
    ultimately show ?thesis
      using True by (subst b58_digits.simps) simp
  next
    case False
    then show ?thesis by (subst b58_digits.simps) simp
  qed
qed

lemma b58_digits_last: "b58_digits x \<noteq> [] \<Longrightarrow> last (b58_digits x) \<noteq> alphabetIdx0"
proof (induction x rule: b58_digits.induct)
  case (1 x)
  have x: "0 < x"
    using "1.prems" by (subst (asm) b58_digits.simps) (simp split: if_splits)
  show ?case
  proof (cases "b58_digits (x div 58) = []")
    case True
    then have "x div 58 = 0" using b58_value_digits [of "x div 58"] by simp
    then have "x < 58" by simp
    with x True show ?thesis by (subst b58_digits.simps) (simp add: alphabet_eq_Idx0)
  next
    case False
    with 1 x show ?thesis by (subst b58_digits.simps) simp
  qed
qed

text \<open>Digit strings with a nonzero top digit are the canonical ones.\<close>

lemma b58_value_pos: "b58_valid cs \<Longrightarrow> cs \<noteq> [] \<Longrightarrow> last cs \<noteq> alphabetIdx0 \<Longrightarrow> 0 < b58_value cs"
proof (induction cs)
  case (Cons c cs)
  show ?case
  proof (cases "cs = []")
    case True
    with Cons.prems have "b58 ! unat c \<noteq> 0" by (simp add: b58_valid_def b58_eq_0)
    then show ?thesis by (simp add: unat_gt_0)
  next
    case False
    with Cons show ?thesis by (simp add: b58_valid_def)
  qed
qed simp

lemma b58_digits_value:
  "b58_valid cs \<Longrightarrow> cs = [] \<or> last cs \<noteq> alphabetIdx0 \<Longrightarrow> b58_digits (b58_value cs) = cs"
proof (induction cs)
  case Nil
  then show ?case by (simp add: b58_digits.simps)
next
  case (Cons c cs)
  then have c: "unat (b58 ! unat c) < 58" "alphabet ! unat (b58 ! unat c) = c"
    by (simp_all add: b58_valid_def alphabet_b58)
  have "0 < b58_value (c # cs)" using Cons.prems by (intro b58_value_pos) auto
  moreover have "b58_digits (b58_value cs) = cs"
    using Cons by (auto simp: b58_valid_def split: if_splits)
  ultimately show ?case
    using c by (subst b58_digits.simps) simp
qed

section \<open>Round trips\<close>

lemma B58Encode_eq:
  "B58Encode data =
     replicate (length (takeWhile (\<lambda>i. i = 0) data)) alphabetIdx0 @ rev (b58_digits (be_nat data))"
  by (simp add: B58Encode_def Let_def swap_loop_rev map_replicate_const)

lemma B58Decode_eq:
  "b58_valid enc \<Longrightarrow>
   B58Decode enc =
     replicate (length (takeWhile (\<lambda>c. c = alphabetIdx0) enc)) 0 @ nat_be (b58_value (rev enc))"
  by (simp add: B58Decode_def b58_decode_loop_value go_copy_exact)

lemma B58Decode_invalid: "\<not> b58_valid enc \<Longrightarrow> B58Decode enc = []"
  by (simp add: B58Decode_def b58_decode_loop_value)

lemma takeWhile_replicate_append:
  "ys = [] \<or> hd ys \<noteq> x \<Longrightarrow> takeWhile (\<lambda>c. c = x) (replicate n x @ ys) = replicate n x"
  by (induction n) (cases ys, auto)+

lemma replicate_takeWhile_dropWhile:
  "replicate (length (takeWhile (\<lambda>c. c = x) xs)) x @ dropWhile (\<lambda>c. c = x) xs = xs"
  by (induction xs) auto

lemma B58Encode_valid: "b58_valid (B58Encode data)"
  by (simp add: B58Encode_eq b58_digits_valid)

lemma B58Decode_B58Encode: "B58Decode (B58Encode data) = data"
proof -
  let ?z = "length (takeWhile (\<lambda>i. i = 0) data)" and ?ds = "b58_digits (be_nat data)"
  have "rev ?ds = [] \<or> hd (rev ?ds) \<noteq> alphabetIdx0"
    using b58_digits_last [of "be_nat data"] by (auto simp: hd_rev)
  then have "takeWhile (\<lambda>c. c = alphabetIdx0) (B58Encode data) = replicate ?z alphabetIdx0"
    unfolding B58Encode_eq by (rule takeWhile_replicate_append)
  moreover have "b58_value (rev (B58Encode data)) = be_nat data"
    by (simp add: B58Encode_eq b58_value_append)
  ultimately have "B58Decode (B58Encode data) = replicate ?z 0 @ dropWhile (\<lambda>b. b = 0) data"
    by (simp add: B58Decode_eq B58Encode_valid nat_be_be_nat)
  then show ?thesis by (simp add: replicate_takeWhile_dropWhile)
qed

lemma B58Encode_B58Decode:
  assumes "b58_valid enc"
  shows "B58Encode (B58Decode enc) = enc"
proof -
  let ?n = "length (takeWhile (\<lambda>c. c = alphabetIdx0) enc)"
  let ?cs = "dropWhile (\<lambda>c. c = alphabetIdx0) enc"
  have enc: "enc = replicate ?n alphabetIdx0 @ ?cs"
    by (simp add: replicate_takeWhile_dropWhile)
  then have v: "b58_value (rev enc) = b58_value (rev ?cs)"
    by (metis b58_value_Idx0 b58_value_append mult_0_right add_0_right rev_append rev_replicate)
  have valid: "b58_valid (rev ?cs)" using assms enc b58_valid_append b58_valid_rev by metis
  have top: "rev ?cs = [] \<or> last (rev ?cs) \<noteq> alphabetIdx0"
    using hd_dropWhile [of "\<lambda>c. c = alphabetIdx0" enc] by (auto simp: last_rev)
  let ?t = "nat_be (b58_value (rev enc))"
  have hd_t: "?t = [] \<or> hd ?t \<noteq> 0"
    using nat_be_be_nat [of ?t] hd_dropWhile [of "\<lambda>b. b = 0" ?t] by auto
  have "takeWhile (\<lambda>i. i = 0) (B58Decode enc) = replicate ?n 0"
    using assms hd_t by (simp add: B58Decode_eq takeWhile_replicate_append)
  moreover have "be_nat (B58Decode enc) = b58_value (rev ?cs)"
    using assms v by (simp add: B58Decode_eq)
  ultimately have "B58Encode (B58Decode enc) = replicate ?n alphabetIdx0 @ rev (rev ?cs)"
    using b58_digits_value [OF valid top] by (simp add: B58Encode_eq)
  with enc show ?thesis by simp
qed

section \<open>Properties\<close>

text \<open>
  C17: Base58 text is a faithful form of byte strings. Decoding what was encoded gives the bytes back,
  leading zeros included; encoding what was decoded gives the text back when every character is in
  the alphabet; and any other text decodes to no bytes at all.
\<close>

theorem b58_roundtrip:
  "B58Decode (B58Encode data) = data \<and>
   B58Encode (B58Decode enc) = (if b58_valid enc then enc else [])"
proof -
  have "B58Encode [] = []" by (simp add: B58Encode_eq b58_digits.simps)
  then show ?thesis
    by (simp add: B58Decode_B58Encode B58Encode_B58Decode B58Decode_invalid)
qed

end
