(* ===== verification/Sha256.thy ===== *)
theory Sha256
  imports Go_Binary
begin

text \<open>
  SHA-256 as Go's crypto/sha256 computes it (FIPS 180-4): padding, message schedule and
  compression on 32-bit words. Every theorem of the development uses only that a digest has
  32 bytes.
\<close>

definition sha_K :: "uint32 list" where
  "sha_K =
    [1116352408, 1899447441, 3049323471, 3921009573, 961987163, 1508970993,
     2453635748, 2870763221, 3624381080, 310598401, 607225278, 1426881987,
     1925078388, 2162078206, 2614888103, 3248222580, 3835390401, 4022224774,
     264347078, 604807628, 770255983, 1249150122, 1555081692, 1996064986,
     2554220882, 2821834349, 2952996808, 3210313671, 3336571891, 3584528711,
     113926993, 338241895, 666307205, 773529912, 1294757372, 1396182291,
     1695183700, 1986661051, 2177026350, 2456956037, 2730485921, 2820302411,
     3259730800, 3345764771, 3516065817, 3600352804, 4094571909, 275423344,
     430227734, 506948616, 659060556, 883997877, 958139571, 1322822218,
     1537002063, 1747873779, 1955562222, 2024104815, 2227730452, 2361852424,
     2428436474, 2756734187, 3204031479, 3329325298]"

definition sha_H0 :: "uint32 list" where
  "sha_H0 =
    [1779033703, 3144134277, 1013904242, 2773480762,
     1359893119, 2600822924, 528734635, 1541459225]"

definition rotr32 :: "nat \<Rightarrow> uint32 \<Rightarrow> uint32" where
  "rotr32 n x = drop_bit n x OR push_bit (32 - n) x"

definition sha_sigma0 :: "uint32 \<Rightarrow> uint32" where
  "sha_sigma0 x = rotr32 7 x XOR rotr32 18 x XOR drop_bit 3 x"

definition sha_sigma1 :: "uint32 \<Rightarrow> uint32" where
  "sha_sigma1 x = rotr32 17 x XOR rotr32 19 x XOR drop_bit 10 x"

definition be32 :: "bytes \<Rightarrow> uint32" where
  "be32 bs = of_nat (be_nat bs)"

definition put_be32 :: "uint32 \<Rightarrow> bytes" where
  "put_be32 v = [ucast (drop_bit 24 v), ucast (drop_bit 16 v), ucast (drop_bit 8 v), ucast v]"

definition sha_pad :: "bytes \<Rightarrow> bytes" where
  "sha_pad m =
     (let n = length m; z = (119 - n mod 64) mod 64; bits = (of_nat (8 * n) :: uint64) in
      m @ 128 # replicate z 0 @ put_be32 (ucast (drop_bit 32 bits)) @ put_be32 (ucast bits))"

text \<open>The message schedule, newest word first.\<close>

fun sha_extend :: "nat \<Rightarrow> uint32 list \<Rightarrow> uint32 list" where
  "sha_extend 0 ws = ws"
| "sha_extend (Suc k) ws =
     sha_extend k ((sha_sigma1 (ws ! 1) + ws ! 6 + sha_sigma0 (ws ! 14) + ws ! 15) # ws)"

definition sha_schedule :: "bytes \<Rightarrow> uint32 list" where
  "sha_schedule block =
     rev (sha_extend 48 (rev (map (\<lambda>i. be32 (take 4 (drop (4 * i) block))) [0..<16])))"

fun sha_round :: "uint32 \<times> uint32 \<Rightarrow> uint32 list \<Rightarrow> uint32 list" where
  "sha_round (k, w) [a, b, c, d, e, f, g, h] =
     (let t1 = h + (rotr32 6 e XOR rotr32 11 e XOR rotr32 25 e) + ((e AND f) XOR (NOT e AND g)) + k + w;
          t2 = (rotr32 2 a XOR rotr32 13 a XOR rotr32 22 a) + ((a AND b) XOR (a AND c) XOR (b AND c))
      in [t1 + t2, a, b, c, d + t1, e, f, g])"
| "sha_round _ st = st"

definition sha_block :: "bytes \<Rightarrow> uint32 list \<Rightarrow> uint32 list" where
  "sha_block block st = map2 (+) st (fold sha_round (zip sha_K (sha_schedule block)) st)"

fun sha_blocks :: "nat \<Rightarrow> bytes \<Rightarrow> uint32 list \<Rightarrow> uint32 list" where
  "sha_blocks 0 bs st = st"
| "sha_blocks (Suc k) bs st = sha_blocks k (drop 64 bs) (sha_block (take 64 bs) st)"

definition sha256_sum :: "bytes \<Rightarrow> bytes" where
  "sha256_sum m =
     (let p = sha_pad m in concat (map put_be32 (sha_blocks (length p div 64) p sha_H0)))"

lemma length_sha_round: "length (sha_round kw st) = length st"
  by (cases "(kw, st)" rule: sha_round.cases) (simp_all add: Let_def)

lemma length_fold_sha_round: "length (fold sha_round kws st) = length st"
  by (induction kws arbitrary: st) (simp_all add: length_sha_round)

lemma length_sha_blocks: "length (sha_blocks k bs st) = length st"
  by (induction k bs st rule: sha_blocks.induct) (simp_all add: sha_block_def length_fold_sha_round)

lemma length_concat_put_be32: "length (concat (map put_be32 ws)) = 4 * length ws"
  by (induction ws) (simp_all add: put_be32_def)

lemma length_sha256_sum [simp]: "length (sha256_sum m) = 32"
  by (simp add: sha256_sum_def Let_def length_concat_put_be32 length_sha_blocks sha_H0_def)

end
