(* ===== verification/Common_Types.thy ===== *)
theory Common_Types
  imports Base58 Sha256
begin

text \<open>
  common/types.go and common/byte.go: the fixed-size arrays \<^verbatim>\<open>Hash\<close> and \<^verbatim>\<open>Address\<close> as types
  whose values have exactly 32 and 25 bytes, their conversions and JSON forms, and the
  length-prefixed fields of signatures.
\<close>

section \<open>Fixed-size arrays\<close>

typedef hash = "{bs :: bytes. length bs = 32}" morphisms hash_bytes Abs_hash
  by (rule exI [of _ "replicate 32 0"]) simp

setup_lifting type_definition_hash

lift_definition hash_of :: "bytes \<Rightarrow> hash" is "array_of 32" by simp

typedef address = "{bs :: bytes. length bs = 25}" morphisms addr_bytes Abs_address
  by (rule exI [of _ "replicate 25 0"]) simp

setup_lifting type_definition_address

lift_definition addr_of :: "bytes \<Rightarrow> address" is "array_of 25" by simp

instantiation hash :: equal
begin

definition equal_hash :: "hash \<Rightarrow> hash \<Rightarrow> bool" where
  "equal_hash a b \<longleftrightarrow> hash_bytes a = hash_bytes b"

instance
  by standard (simp add: equal_hash_def hash_bytes_inject)

end

instantiation address :: equal
begin

definition equal_address :: "address \<Rightarrow> address \<Rightarrow> bool" where
  "equal_address a b \<longleftrightarrow> addr_bytes a = addr_bytes b"

instance
  by standard (simp add: equal_address_def addr_bytes_inject)

end

lemma length_hash_bytes [simp]: "length (hash_bytes h) = 32"
  using hash_bytes by simp

lemma length_addr_bytes [simp]: "length (addr_bytes a) = 25"
  using addr_bytes by simp

lemma hash_bytes_hash_of [simp]: "hash_bytes (hash_of bs) = array_of 32 bs"
  by transfer simp

lemma addr_bytes_addr_of [simp]: "addr_bytes (addr_of bs) = array_of 25 bs"
  by transfer simp

lemma hash_of_hash_bytes [simp]: "hash_of (hash_bytes h) = h"
  by transfer simp

lemma addr_of_addr_bytes [simp]: "addr_of (addr_bytes a) = a"
  by transfer simp

lemma hash_eq_iff: "a = b \<longleftrightarrow> hash_bytes a = hash_bytes b"
  by (simp add: hash_bytes_inject)

section \<open>Hash\<close>

text \<open>\<^verbatim>\<open>SetBytes\<close> writes \<^verbatim>\<open>h[i]\<close> for each byte: more than 32 bytes index out of range.\<close>

definition Hash_SetBytes :: "hash \<Rightarrow> bytes \<Rightarrow> ('e, hash) res" where
  "Hash_SetBytes h other =
     (if length other \<le> 32 then Ok (hash_of (go_copy (hash_bytes h) other)) else Panic)"

definition Bytes2Hash :: "bytes \<Rightarrow> ('e, hash) res" where
  "Bytes2Hash b = Hash_SetBytes (hash_of []) b"

definition Hex2bytes :: "bytes \<Rightarrow> bytes" where
  "Hex2bytes s0 =
     (if length s0 > 1 then
        (let s = (if take 2 s0 = bytes_of ''0x'' then drop 2 s0 else s0);
             s' = (if length s mod 2 = 1 then 48 # s else s)
         in fst (hex_decode s'))
      else [])"

definition Hex2Hash :: "bytes \<Rightarrow> ('e, hash) res" where
  "Hex2Hash s = Bytes2Hash (Hex2bytes s)"

definition Hash_Hex :: "hash \<Rightarrow> bytes" where
  "Hash_Hex h = bytes_of ''0x'' @ hex_encode (hash_bytes h)"

definition Hash_Bytes :: "hash \<Rightarrow> bytes" where
  [simp]: "Hash_Bytes h = hash_bytes h"

definition IsZeroHash :: "hash \<Rightarrow> bool" where
  "IsZeroHash h \<longleftrightarrow> Hash_Bytes h = replicate 32 0"

definition Hash_MarshalJSON :: "hash \<Rightarrow> bytes" where
  "Hash_MarshalJSON h = [34] @ Hash_Hex h @ [34]"

definition Hash_UnmarshalJSON :: "hash \<Rightarrow> bytes \<Rightarrow> ('e, hash) res" where
  "Hash_UnmarshalJSON h data =
     (if length data < 32 then Hash_SetBytes h [0]
      else res_bind (Hex2Hash (take (length data - 2) (drop 1 data)))
             (\<lambda>hash. Hash_SetBytes h (Hash_Bytes hash)))"

lemma Bytes2Hash_exact: "length b = 32 \<Longrightarrow> Bytes2Hash b = Ok (hash_of b)"
  by (simp add: Bytes2Hash_def Hash_SetBytes_def go_copy_exact)

lemma Hash_SetBytes_exact: "length b = 32 \<Longrightarrow> Hash_SetBytes h b = Ok (hash_of b)"
  by (simp add: Hash_SetBytes_def go_copy_exact)

lemma Hex2bytes_Hash_Hex: "Hex2bytes (Hash_Hex h) = hash_bytes h"
  by (simp add: Hex2bytes_def Hash_Hex_def Let_def bytes_of_def)

lemma Hex2Hash_Hex: "Hex2Hash (Hash_Hex h) = Ok h"
  by (simp add: Hex2Hash_def Hex2bytes_Hash_Hex Bytes2Hash_exact)

lemma length_Hash_Hex [simp]: "length (Hash_Hex h) = 66"
  by (simp add: Hash_Hex_def)

lemma Hash_JSON_roundtrip: "Hash_UnmarshalJSON h0 (Hash_MarshalJSON h) = Ok h"
  by (simp add: Hash_UnmarshalJSON_def Hash_MarshalJSON_def Hex2Hash_Hex Hash_SetBytes_exact)

section \<open>Address\<close>

definition Address_SetBytes :: "address \<Rightarrow> bytes \<Rightarrow> address" where
  "Address_SetBytes a b0 =
     (let b = (if length b0 > 25 then drop (length b0 - 25) b0 else b0);
          k = 25 - length b
      in addr_of (take k (addr_bytes a) @ go_copy (drop k (addr_bytes a)) b))"

definition Bytes2Address :: "bytes \<Rightarrow> address" where
  "Bytes2Address b = Address_SetBytes (addr_of []) b"

definition B58ToAddress :: "bytes \<Rightarrow> address" where
  "B58ToAddress enc = Bytes2Address (B58Decode enc)"

definition Hex2Address :: "bytes \<Rightarrow> address" where
  "Hex2Address s = Bytes2Address (Hex2bytes s)"

definition Address_Hex :: "address \<Rightarrow> bytes" where
  "Address_Hex a = bytes_of ''0x'' @ hex_encode (addr_bytes a)"

definition Address_Bytes :: "address \<Rightarrow> bytes" where
  [simp]: "Address_Bytes a = addr_bytes a"

definition Address_B58 :: "address \<Rightarrow> bytes" where
  "Address_B58 a = B58Encode (Address_Bytes a)"

definition StrB58ToAddress :: "bytes \<Rightarrow> address" where
  "StrB58ToAddress enc = B58ToAddress enc"

definition Address_B58String :: "address \<Rightarrow> bytes" where
  "Address_B58String a = Address_B58 a"

definition Address_String :: "address \<Rightarrow> bytes" where
  "Address_String a = Address_B58String a"

definition Address_Equals :: "address \<Rightarrow> address \<Rightarrow> bool" where
  "Address_Equals a b \<longleftrightarrow> Address_Bytes a = Address_Bytes b"

definition Address_Version :: "address \<Rightarrow> byte" where
  "Address_Version a = addr_bytes a ! 0"

definition Address_PubKeyHash :: "address \<Rightarrow> bytes" where
  "Address_PubKeyHash a = take 20 (drop 1 (addr_bytes a))"

definition Address_Payload :: "address \<Rightarrow> bytes" where
  "Address_Payload a = take 21 (addr_bytes a)"

definition Address_Checksum :: "address \<Rightarrow> bytes" where
  "Address_Checksum a = drop 21 (addr_bytes a)"

definition Address_MarshalJSON :: "address \<Rightarrow> bytes" where
  "Address_MarshalJSON a = [34] @ Address_B58 a @ [34]"

definition Address_UnmarshalJSON :: "address \<Rightarrow> bytes \<Rightarrow> address" where
  "Address_UnmarshalJSON a data =
     (if length data < 28 then Address_SetBytes a [0]
      else Address_SetBytes a (Address_Bytes (B58ToAddress (take (length data - 2) (drop 1 data)))))"

lemma Address_SetBytes_exact: "length b = 25 \<Longrightarrow> Address_SetBytes a b = addr_of b"
  by (simp add: Address_SetBytes_def go_copy_exact)

lemma Bytes2Address_addr_bytes [simp]: "Bytes2Address (addr_bytes a) = a"
  by (simp add: Bytes2Address_def Address_SetBytes_exact)

lemma B58ToAddress_B58: "B58ToAddress (Address_B58 a) = a"
  by (simp add: B58ToAddress_def Address_B58_def B58Decode_B58Encode)

lemma Address_String_roundtrip: "StrB58ToAddress (Address_String a) = a"
  by (simp add: StrB58ToAddress_def Address_String_def Address_B58String_def B58ToAddress_B58)

lemma Address_Equals_iff: "Address_Equals a b \<longleftrightarrow> a = b"
  by (simp add: Address_Equals_def addr_bytes_inject)

lemma Address_JSON_roundtrip:
  "26 \<le> length (Address_B58 a) \<Longrightarrow> Address_UnmarshalJSON a0 (Address_MarshalJSON a) = a"
  by (simp add: Address_UnmarshalJSON_def Address_MarshalJSON_def B58ToAddress_B58 Address_SetBytes_exact)

text \<open>A short text is taken for an empty one: only the last byte of the receiver is written.\<close>

lemma Address_UnmarshalJSON_short:
  "length (Address_B58 a) < 26 \<Longrightarrow>
   Address_UnmarshalJSON a0 (Address_MarshalJSON a) = addr_of (take 24 (addr_bytes a0) @ [0])"
  by (simp add: Address_UnmarshalJSON_def Address_MarshalJSON_def Address_SetBytes_def go_copy_def)

lemma Address_parts:
  "addr_bytes a = Address_Payload a @ Address_Checksum a"
  "Address_Payload a = Address_Version a # Address_PubKeyHash a"
proof -
  show "addr_bytes a = Address_Payload a @ Address_Checksum a"
    by (simp add: Address_Payload_def Address_Checksum_def)
  show "Address_Payload a = Address_Version a # Address_PubKeyHash a"
    by (cases "addr_bytes a") (use length_addr_bytes [of a] in
        \<open>simp_all add: Address_Payload_def Address_Version_def Address_PubKeyHash_def\<close>)
qed

section \<open>Hexadecimal\<close>

text \<open>The error of \<^verbatim>\<open>hex.DecodeString\<close> is dropped: what was decoded before it is returned.\<close>

definition Decode16Byte :: "bytes \<Rightarrow> bytes" where
  "Decode16Byte s = fst (hex_decode s)"

definition Encode16Byte :: "bytes \<Rightarrow> bytes" where
  "Encode16Byte b = hex_encode b"

lemma Decode16Byte_Encode16Byte: "Decode16Byte (Encode16Byte b) = b"
  by (simp add: Decode16Byte_def Encode16Byte_def)

section \<open>Length-prefixed fields\<close>

datatype common_error = DataTooLong | EOF

definition BytesMixed :: "bytes \<Rightarrow> int \<Rightarrow> bytes \<Rightarrow> (common_error, bytes) res" where
  "BytesMixed src lenBits buffer =
     (let srcLen = length src in
      if (of_nat srcLen :: uint32) > 0xffffffff then Err DataTooLong
      else
        (let lenBuf = [of_nat (srcLen AND 0xff),
                       of_nat (drop_bit 8 (srcLen AND 0xff00)),
                       of_nat (drop_bit 16 (srcLen AND 0xff0000)),
                       of_nat (drop_bit 32 (srcLen AND 0xff000000))]
         in if 0 \<le> lenBits \<and> lenBits \<le> 4
            then Ok (buffer @ take (nat lenBits) lenBuf @ src)
            else Panic))"

text \<open>\<^verbatim>\<open>bytes.Buffer.Read\<close> into a buffer of \<^verbatim>\<open>n\<close> zero bytes: the filled buffer and the rest.\<close>

definition buffer_Read :: "nat \<Rightarrow> bytes \<Rightarrow> (common_error, bytes \<times> bytes) res" where
  "buffer_Read n buf =
     (if buf = [] then (if n = 0 then Ok ([], []) else Err EOF)
      else Ok (go_copy (replicate n 0) buf, drop n buf))"

definition ReadMixedBytes :: "bytes \<Rightarrow> (common_error, bytes \<times> bytes) res" where
  "ReadMixedBytes buf =
     (case buf of [] \<Rightarrow> Err EOF | dataLenB # rest \<Rightarrow> buffer_Read (unat dataLenB) rest)"

lemma low_byte: "of_nat (n AND 0xff) = (of_nat n :: byte)"
proof -
  have "n AND 0xff = take_bit 8 n" by (simp add: take_bit_eq_mask mask_numeral)
  then show ?thesis by (simp add: take_bit_eq_mod word_unat_eq_iff unat_of_nat)
qed

lemma BytesMixed_1: "BytesMixed src 1 buffer = Ok (buffer @ of_nat (length src) # src)"
proof -
  have "\<not> (of_nat (length src) :: uint32) > 0xffffffff"
  proof -
    have "unat (of_nat (length src) :: uint32) < 2 ^ 32"
      by (rule order.strict_trans2 [OF unsigned_less]) simp
    then show ?thesis by (simp add: word_less_nat_alt)
  qed
  then show ?thesis by (simp add: BytesMixed_def Let_def low_byte)
qed

lemma ReadMixedBytes_field:
  "length src < 256 \<Longrightarrow> ReadMixedBytes (of_nat (length src) # src @ rest) = Ok (src, rest)"
  by (auto simp: ReadMixedBytes_def buffer_Read_def go_copy_def unat_of_nat)

text \<open>The fourth length byte is always zero: the source shifts by 32 instead of 24.\<close>

lemma BytesMixed_4_high_byte:
  "BytesMixed src 4 buffer = Ok out \<Longrightarrow> out ! (length buffer + 3) = 0"
proof -
  assume "BytesMixed src 4 buffer = Ok out"
  moreover have "drop_bit 32 (length src AND 0xff000000) = 0"
    by (rule bit_eqI) (auto simp: bit_simps)
  ultimately show ?thesis
    by (auto simp: BytesMixed_def Let_def nth_append split: if_splits)
qed

end
