(* ===== verification/Crypto.thy ===== *)
theory Crypto
  imports Common_Types
begin

text \<open>
  crypto/crypto.go, crypto/sign.go and common/ahash: addresses with a checksum and the framing of
  signatures. SHA-256 is the function of theory Sha256. RIPEMD-160 comes from a third-party
  package, and signing draws on a random source: both are parameters.
\<close>

section \<open>Hashes\<close>

definition SHA256 :: "bytes \<Rightarrow> bytes" where
  "SHA256 data = go_copy (replicate (length (sha256_sum data)) 0) (sha256_sum data)"

lemma SHA256_eq: "SHA256 data = sha256_sum data"
  by (simp add: SHA256_def go_copy_exact)

lemma length_SHA256 [simp]: "length (SHA256 data) = 32"
  by (simp add: SHA256_eq)

definition ByteHash256 :: "bytes \<Rightarrow> hash" where
  "ByteHash256 raw = hash_of (SHA256 raw)"

text \<open>The conversion \<^verbatim>\<open>common.Bytes2Hash(h)\<close> of the source never panics on a digest.\<close>

lemma Bytes2Hash_SHA256: "Bytes2Hash (SHA256 raw) = Ok (ByteHash256 raw)"
  by (simp add: ByteHash256_def Bytes2Hash_exact)

section \<open>Keys and addresses\<close>

text \<open>A public key is its point; a nil curve or coordinate is \<^verbatim>\<open>None\<close>.\<close>

type_synonym public_key = "(nat \<times> nat) option"

definition PubKeyEncode :: "public_key \<Rightarrow> bytes" where
  "PubKeyEncode p =
     (case p of None \<Rightarrow> []
      | Some (x, y) \<Rightarrow>
          (let xbs = nat_be x; ybs = nat_be y
           in go_copy (replicate (length xbs + length ybs) 0) (xbs @ ybs)))"

definition Checksum :: "bytes \<Rightarrow> bytes" where
  "Checksum payload = take 4 (SHA256 (SHA256 payload))"

definition VerifyAddress :: "address \<Rightarrow> bool" where
  "VerifyAddress addr \<longleftrightarrow> Checksum (Address_Payload addr) = Address_Checksum addr"

definition PubKeySha256HashBs :: "public_key \<Rightarrow> bytes" where
  "PubKeySha256HashBs p = SHA256 (PubKeyEncode p)"

definition PubKeySha256Hash :: "public_key \<Rightarrow> ('e, hash) res" where
  "PubKeySha256Hash p = Bytes2Hash (PubKeySha256HashBs p)"

definition PubKey2Addr :: "(bytes \<Rightarrow> bytes) \<Rightarrow> byte \<Rightarrow> public_key \<Rightarrow> address" where
  "PubKey2Addr ripemd160 version p =
     (let pubEnc = PubKeyEncode p;
          pubHash256 = SHA256 pubEnc;
          pubHash = ripemd160 pubHash256;
          payload = [version] @ pubHash;
          cs = Checksum payload;
          full = payload @ cs
      in Bytes2Address full)"

definition DefaultPubKey2Addr :: "(bytes \<Rightarrow> bytes) \<Rightarrow> public_key \<Rightarrow> address" where
  "DefaultPubKey2Addr ripemd160 p = PubKey2Addr ripemd160 0 p"

lemma length_Checksum [simp]: "length (Checksum payload) = 4"
  by (simp add: Checksum_def)

lemma PubKey2Addr_parts:
  assumes "\<And>d. length (ripemd160 d) = 20"
  shows "addr_bytes (PubKey2Addr ripemd160 v p) =
         (let payload = v # ripemd160 (SHA256 (PubKeyEncode p)) in payload @ Checksum payload)"
  using assms by (simp add: PubKey2Addr_def Bytes2Address_def Let_def Address_SetBytes_exact)

lemma VerifyAddress_PubKey2Addr:
  assumes "\<And>d. length (ripemd160 d) = 20"
  shows "VerifyAddress (PubKey2Addr ripemd160 v p) \<and>
         Address_Version (PubKey2Addr ripemd160 v p) = v \<and>
         Address_PubKeyHash (PubKey2Addr ripemd160 v p) = ripemd160 (SHA256 (PubKeyEncode p))"
  using assms
  by (simp add: VerifyAddress_def Address_Payload_def Address_Checksum_def Address_Version_def
      Address_PubKeyHash_def PubKey2Addr_parts Let_def)

section \<open>Signatures\<close>

datatype sign_error = DataNotHash | SignError | Common common_error

text \<open>\<^verbatim>\<open>lift_common\<close> carries an error of package common to the caller.\<close>

fun lift_common :: "(common_error, 'a) res \<Rightarrow> (sign_error, 'a) res" where
  "lift_common (Ok v) = Ok v"
| "lift_common (Err e) = Err (Common e)"
| "lift_common Panic = Panic"

text \<open>
  \<^verbatim>\<open>sign\<close> stands for \<^verbatim>\<open>ecdsa.Sign(rand.Reader, prv, hash)\<close> with the private key and the random
  bytes it draws fixed; \<^verbatim>\<open>pub\<close> is the point of the key.
\<close>

definition ECDSASign ::
  "(bytes \<Rightarrow> (nat \<times> nat) option) \<Rightarrow> nat \<times> nat \<Rightarrow> bytes \<Rightarrow> (sign_error, bytes) res" where
  "ECDSASign sign pub hash =
     (if length hash \<noteq> 32 then Err DataNotHash
      else case sign hash of None \<Rightarrow> Err SignError
      | Some (r, s) \<Rightarrow> lift_common
          (res_bind (BytesMixed (nat_be r) 1 []) (\<lambda>b1.
           res_bind (BytesMixed (nat_be s) 1 b1) (\<lambda>b2.
           res_bind (BytesMixed (nat_be (fst pub)) 1 b2) (\<lambda>b3.
           res_bind (BytesMixed (nat_be (snd pub)) 1 b3) (\<lambda>inBs.
           BytesMixed inBs 1 []))))))"

definition ECDSASign2Hex ::
  "(bytes \<Rightarrow> (nat \<times> nat) option) \<Rightarrow> nat \<times> nat \<Rightarrow> bytes \<Rightarrow> (sign_error, bytes) res" where
  "ECDSASign2Hex sign pub hash = res_bind (ECDSASign sign pub hash) (\<lambda>sig. Ok (hex_encode sig))"

text \<open>
  The frame \<^verbatim>\<open>sig[1 : totalLen+1]\<close>: \<^verbatim>\<open>totalLen\<close> is a byte, so the bound wraps at 255. A
  signature is a slice, whose capacity may exceed its length.
\<close>

definition sig_frame :: "byte slice \<Rightarrow> ('e, bytes) res" where
  "sig_frame sig =
     res_bind (index_at (fst sig) 0) (\<lambda>totalLen.
     res_bind (slice_to sig 1 (unat (totalLen + 1))) (\<lambda>s. Ok (fst s)))"

definition VerifySignature ::
  "(nat \<times> nat \<Rightarrow> bytes \<Rightarrow> nat \<Rightarrow> nat \<Rightarrow> bool) \<Rightarrow> bytes \<Rightarrow> byte slice \<Rightarrow> (common_error, bool) res" where
  "VerifySignature verify data sig =
     (case sig_frame sig of Panic \<Rightarrow> Panic | Err e \<Rightarrow> Err e
      | Ok b0 \<Rightarrow> (case ReadMixedBytes b0 of Panic \<Rightarrow> Panic | Err _ \<Rightarrow> Ok False
      | Ok (rBytes, b1) \<Rightarrow> (case ReadMixedBytes b1 of Panic \<Rightarrow> Panic | Err _ \<Rightarrow> Ok False
      | Ok (sBytes, b2) \<Rightarrow> (case ReadMixedBytes b2 of Panic \<Rightarrow> Panic | Err _ \<Rightarrow> Ok False
      | Ok (xBytes, b3) \<Rightarrow> (case ReadMixedBytes b3 of Panic \<Rightarrow> Panic | Err _ \<Rightarrow> Ok False
      | Ok (yBytes, _) \<Rightarrow>
          Ok (verify (be_nat xBytes, be_nat yBytes) data (be_nat rBytes) (be_nat sBytes)))))))"

text \<open>
  \<^verbatim>\<open>hex.DecodeString\<close> decodes in place: behind the result the buffer still holds the rest of the
  text, and \<^verbatim>\<open>extra\<close> is what the allocator's rounding adds.
\<close>

definition VerifySignatureFromHex ::
  "(nat \<times> nat \<Rightarrow> bytes \<Rightarrow> nat \<Rightarrow> nat \<Rightarrow> bool) \<Rightarrow> bytes \<Rightarrow> bytes \<Rightarrow> bytes \<Rightarrow>
   (common_error, bool) res" where
  "VerifySignatureFromHex verify extra data sigHex =
     (case hex_decode sigHex of
        (_, Some e) \<Rightarrow> Ok False
      | (sigBytes, None) \<Rightarrow> VerifySignature verify data (sigBytes, drop (length sigBytes) sigHex @ extra))"

definition VerifySignatureByPublic ::
  "(nat \<times> nat \<Rightarrow> bytes \<Rightarrow> nat \<Rightarrow> nat \<Rightarrow> bool) \<Rightarrow> bytes \<Rightarrow> byte slice \<Rightarrow> nat \<times> nat \<Rightarrow>
   (common_error, bool) res" where
  "VerifySignatureByPublic verify data sig pub =
     (case sig_frame sig of Panic \<Rightarrow> Panic | Err e \<Rightarrow> Err e
      | Ok b0 \<Rightarrow> (case ReadMixedBytes b0 of Panic \<Rightarrow> Panic | Err _ \<Rightarrow> Ok False
      | Ok (rBytes, b1) \<Rightarrow> (case ReadMixedBytes b1 of Panic \<Rightarrow> Panic | Err _ \<Rightarrow> Ok False
      | Ok (sBytes, _) \<Rightarrow> Ok (verify pub data (be_nat rBytes) (be_nat sBytes)))))"

definition ParsePubKeyFromSignature :: "byte slice \<Rightarrow> (common_error, nat \<times> nat) res" where
  "ParsePubKeyFromSignature sig =
     res_bind (sig_frame sig) (\<lambda>b0.
     res_bind (ReadMixedBytes b0) (\<lambda>(rBytes, b1).
     res_bind (ReadMixedBytes b1) (\<lambda>(sBytes, b2).
     res_bind (ReadMixedBytes b2) (\<lambda>(xBytes, b3).
     res_bind (ReadMixedBytes b3) (\<lambda>(yBytes, _).
     Ok (be_nat xBytes, be_nat yBytes))))))"

section \<open>Framing\<close>

definition field :: "nat \<Rightarrow> bytes" where
  "field n = of_nat (length (nat_be n)) # nat_be n"

lemma length_nat_be_256: "n < 2 ^ 256 \<Longrightarrow> length (nat_be n) \<le> 32"
proof -
  have len: "n < 256 ^ k \<Longrightarrow> length (nat_be n) \<le> k" for n k
  proof (induction k arbitrary: n)
    case 0
    then show ?case by simp
  next
    case (Suc k)
    show ?case
    proof (cases "n = 0")
      case True
      then show ?thesis by simp
    next
      case False
      have "n div 256 < 256 ^ k" using Suc.prems by (simp add: less_mult_imp_div_less mult.commute)
      with Suc.IH False show ?thesis by (simp add: nat_be_snoc)
    qed
  qed
  have e: "(2::nat) ^ 256 = 256 ^ 32" by simp
  show "n < 2 ^ 256 \<Longrightarrow> length (nat_be n) \<le> 32" using len [of n 32] unfolding e .
qed

lemma ReadMixedBytes_field_nat:
  "n < 2 ^ 256 \<Longrightarrow> ReadMixedBytes (field n @ rest) = Ok (nat_be n, rest)"
  using ReadMixedBytes_field [of "nat_be n" rest] length_nat_be_256 [of n] by (simp add: field_def)

lemma length_field: "n < 2 ^ 256 \<Longrightarrow> length (field n) \<le> 33"
  using length_nat_be_256 [of n] by (simp add: field_def)

lemma ECDSASign_eq:
  "length hash = 32 \<Longrightarrow> sign hash = Some (r, s) \<Longrightarrow>
   ECDSASign sign pub hash =
     (let body = field r @ field s @ field (fst pub) @ field (snd pub)
      in Ok (of_nat (length body) # body))"
  by (simp add: ECDSASign_def BytesMixed_1 field_def Let_def)

lemma sig_frame_body:
  "length body < 255 \<Longrightarrow> sig_frame (of_nat (length body) # body, spare) = Ok body"
proof -
  assume len: "length body < 255"
  then have "unat (of_nat (length body) + 1 :: byte) = Suc (length body)"
    by (simp add: unat_word_ariths unat_of_nat)
  with len show ?thesis
    by (simp add: sig_frame_def index_at_def slice_to_inside)
qed

text \<open>
  \<^verbatim>\<open>field\<close> is one length-prefixed big integer of a signature. Coordinates and signature values of
  P-256 are below \<^verbatim>\<open>2 ^ 256\<close>.
\<close>

lemma signature_frame:
  assumes "length hash = 32" "sign hash = Some (r, s)" "r < 2 ^ 256" "s < 2 ^ 256"
    and "x < 2 ^ 256" "y < 2 ^ 256" "ECDSASign sign (x, y) hash = Ok sig"
  shows "sig_frame (sig, spare) = Ok (field r @ field s @ field x @ field y)"
proof -
  let ?body = "field r @ field s @ field x @ field y"
  have "length ?body < 255"
    using length_field [OF assms(3)] length_field [OF assms(4)] length_field [OF assms(5)]
      length_field [OF assms(6)] by simp
  moreover have "sig = of_nat (length ?body) # ?body"
    using assms(7) ECDSASign_eq [of hash sign r s "(x, y)"] assms(1,2) by (simp add: Let_def)
  ultimately show ?thesis by (simp only: sig_frame_body)
qed

lemma ParsePubKey_ECDSASign:
  assumes "length hash = 32" "sign hash = Some (r, s)" "r < 2 ^ 256" "s < 2 ^ 256"
    and "x < 2 ^ 256" "y < 2 ^ 256" "ECDSASign sign (x, y) hash = Ok sig"
  shows "ParsePubKeyFromSignature (sig, spare) = Ok (x, y)"
  using ReadMixedBytes_field_nat [OF assms(3)] ReadMixedBytes_field_nat [OF assms(4)]
    ReadMixedBytes_field_nat [OF assms(5)] ReadMixedBytes_field_nat [OF assms(6), of "[]"]
  by (simp add: ParsePubKeyFromSignature_def signature_frame [OF assms])

lemma VerifySignature_ECDSASign:
  assumes "length hash = 32" "sign hash = Some (r, s)" "r < 2 ^ 256" "s < 2 ^ 256"
    and "x < 2 ^ 256" "y < 2 ^ 256" "ECDSASign sign (x, y) hash = Ok sig"
  shows "VerifySignature verify data (sig, spare) = Ok (verify (x, y) data r s)"
    and "VerifySignatureByPublic verify data (sig, spare) pub = Ok (verify pub data r s)"
  using ReadMixedBytes_field_nat [OF assms(3)] ReadMixedBytes_field_nat [OF assms(4)]
    ReadMixedBytes_field_nat [OF assms(5)] ReadMixedBytes_field_nat [OF assms(6), of "[]"]
  by (simp_all add: VerifySignature_def VerifySignatureByPublic_def signature_frame [OF assms])

section \<open>Properties\<close>

text \<open>
  C23: an address made from a public key verifies, carries the version it was made with and the hash
  of the key, and survives its Base58 text form. The hypothesis is the digest size of RIPEMD-160.
\<close>

theorem address_from_key_verifies:
  assumes "\<forall>d. length (ripemd160 d) = 20"
  shows "VerifyAddress (PubKey2Addr ripemd160 v p) \<and>
         Address_Version (PubKey2Addr ripemd160 v p) = v \<and>
         Address_PubKeyHash (PubKey2Addr ripemd160 v p) = ripemd160 (SHA256 (PubKeyEncode p)) \<and>
         B58ToAddress (Address_B58 (PubKey2Addr ripemd160 v p)) = PubKey2Addr ripemd160 v p"
  using assms VerifyAddress_PubKey2Addr [of ripemd160] by (simp add: B58ToAddress_B58)

theorem address_from_key_verifies_witness:
  "VerifyAddress (PubKey2Addr (\<lambda>d. take 20 d @ replicate (20 - length d) 0) 0 (Some (5, 7)))"
  using address_from_key_verifies [of "\<lambda>d. take 20 d @ replicate (20 - length d) 0" 0 "Some (5, 7)"]
  by (simp add: min_def)

text \<open>
  C18: a signature carries its own key and values. For every hash, signature values and point below
  \<^verbatim>\<open>2 ^ 256\<close>, the bytes \<^verbatim>\<open>ECDSASign\<close> returns parse back to the point, and both verifications check
  exactly the signed values, whatever capacity is behind the slice.
\<close>

theorem signature_roundtrip:
  assumes "length h = 32" "sign h = Some (r, s)" "r < 2 ^ 256" "s < 2 ^ 256" "x < 2 ^ 256" "y < 2 ^ 256"
  shows "\<exists>sig. ECDSASign sign (x, y) h = Ok sig \<and>
           ParsePubKeyFromSignature (sig, spare) = Ok (x, y) \<and>
           VerifySignature verify data (sig, spare) = Ok (verify (x, y) data r s) \<and>
           VerifySignatureByPublic verify data (sig, spare) pub = Ok (verify pub data r s)"
proof -
  obtain sig where sig: "ECDSASign sign (x, y) h = Ok sig"
    using ECDSASign_eq [of h sign r s "(x, y)"] assms by (simp add: Let_def)
  show ?thesis
    using ParsePubKey_ECDSASign [OF assms sig] VerifySignature_ECDSASign [OF assms sig] sig by blast
qed

theorem signature_roundtrip_witness:
  "\<exists>sig. ECDSASign (\<lambda>_. Some (3, 4)) (5, 6) (replicate 32 1) = Ok sig \<and>
     ParsePubKeyFromSignature (sig, []) = Ok (5, 6) \<and>
     VerifySignature (\<lambda>_ _ r s. r < s) [1] (sig, []) = Ok True \<and>
     VerifySignatureByPublic (\<lambda>_ _ r s. r < s) [1] (sig, []) (0, 0) = Ok True"
  using signature_roundtrip [of "replicate 32 1" "\<lambda>_. Some (3, 4)" 3 4 5 6 "[]" "\<lambda>_ _ r s. r < s" "[1]" "(0, 0)"]
  by simp

end
