(* ===== verification/Node.thy ===== *)
theory Node
  imports Crypto
begin

text \<open>
  discover/node.go: node identifiers, nodes, and the Kademlia distance between the hashes of two
  identifiers. \<^verbatim>\<open>logdist\<close> chooses a node's bucket, \<^verbatim>\<open>distcmp\<close> orders nodes by closeness to a target;
  both are shown to compute with the exclusive-or distance read as a big-endian number.
\<close>

section \<open>Node identifiers\<close>

typedef nodeid = "{bs :: bytes. length bs = 64}" morphisms id_bytes Abs_nodeid
  by (rule exI [of _ "replicate 64 0"]) simp

setup_lifting type_definition_nodeid

lift_definition id_of :: "bytes \<Rightarrow> nodeid" is "array_of 64" by simp

instantiation nodeid :: equal
begin

definition equal_nodeid :: "nodeid \<Rightarrow> nodeid \<Rightarrow> bool" where
  "equal_nodeid a b \<longleftrightarrow> id_bytes a = id_bytes b"

instance
  by standard (simp add: equal_nodeid_def id_bytes_inject)

end

lemma length_id_bytes [simp]: "length (id_bytes i) = 64"
  using id_bytes by simp

lemma id_bytes_id_of [simp]: "id_bytes (id_of bs) = array_of 64 bs"
  by transfer simp

lemma id_of_id_bytes [simp]: "id_of (id_bytes i) = i"
  by transfer simp

lemma nodeid_eq_iff: "a = b \<longleftrightarrow> id_bytes a = id_bytes b"
  by (simp add: id_bytes_inject)

datatype node_error = HexError hex_error | WrongLength

definition NodeId_String :: "nodeid \<Rightarrow> bytes" where
  "NodeId_String i = hex_encode (id_bytes i)"

definition Hex2NodeId :: "bytes \<Rightarrow> (node_error, nodeid) res" where
  "Hex2NodeId s0 =
     (let s = (if take 2 s0 = bytes_of ''0x'' then drop 2 s0 else s0) in
      case hex_decode s of
        (_, Some e) \<Rightarrow> Err (HexError e)
      | (b, None) \<Rightarrow> if length b \<noteq> 64 then Err WrongLength else Ok (id_of b))"

definition MustHex2NodeId :: "bytes \<Rightarrow> (node_error, nodeid) res" where
  "MustHex2NodeId s = (case Hex2NodeId s of Err _ \<Rightarrow> Panic | r \<Rightarrow> r)"

definition PubKey2NodeId :: "public_key \<Rightarrow> nodeid" where
  "PubKey2NodeId pub = id_of (PubKeyEncode pub)"

definition recoverNodeID :: "bytes \<Rightarrow> nodeid" where
  "recoverNodeID buf = id_of buf"

section \<open>Nodes\<close>

type_synonym ip = bytes

record node =
  node_IP :: ip
  node_TCP :: uint16
  node_UDP :: uint16
  node_ID :: nodeid
  node_Hash :: hash

record udpaddr =
  ua_IP :: ip
  ua_Port :: int

definition newNode :: "ip \<Rightarrow> uint16 \<Rightarrow> uint16 \<Rightarrow> nodeid \<Rightarrow> node" where
  "newNode ip tcpPort udpPort nid =
     \<lparr>node_IP = ip, node_TCP = tcpPort, node_UDP = udpPort, node_ID = nid,
      node_Hash = ByteHash256 (id_bytes nid)\<rparr>"

definition node_addr :: "node \<Rightarrow> udpaddr" where
  "node_addr n = \<lparr>ua_IP = node_IP n, ua_Port = uint (node_UDP n)\<rparr>"

definition node_TcpAddr :: "node \<Rightarrow> udpaddr" where
  "node_TcpAddr n = \<lparr>ua_IP = node_IP n, ua_Port = uint (node_TCP n)\<rparr>"

lemma newNode_simps [simp]:
  "node_IP (newNode ip t u i) = ip" "node_TCP (newNode ip t u i) = t"
  "node_UDP (newNode ip t u i) = u" "node_ID (newNode ip t u i) = i"
  "node_Hash (newNode ip t u i) = ByteHash256 (id_bytes i)"
  by (simp_all add: newNode_def)

section \<open>Distances\<close>

definition lzcount :: "nat list" where
  "lzcount =
    [8, 7, 6, 6, 5, 5, 5, 5,
     4, 4, 4, 4, 4, 4, 4, 4,
     3, 3, 3, 3, 3, 3, 3, 3,
     3, 3, 3, 3, 3, 3, 3, 3,
     2, 2, 2, 2, 2, 2, 2, 2,
     2, 2, 2, 2, 2, 2, 2, 2,
     2, 2, 2, 2, 2, 2, 2, 2,
     2, 2, 2, 2, 2, 2, 2, 2,
     1, 1, 1, 1, 1, 1, 1, 1,
     1, 1, 1, 1, 1, 1, 1, 1,
     1, 1, 1, 1, 1, 1, 1, 1,
     1, 1, 1, 1, 1, 1, 1, 1,
     1, 1, 1, 1, 1, 1, 1, 1,
     1, 1, 1, 1, 1, 1, 1, 1,
     1, 1, 1, 1, 1, 1, 1, 1,
     1, 1, 1, 1, 1, 1, 1, 1,
     0, 0, 0, 0, 0, 0, 0, 0,
     0, 0, 0, 0, 0, 0, 0, 0,
     0, 0, 0, 0, 0, 0, 0, 0,
     0, 0, 0, 0, 0, 0, 0, 0,
     0, 0, 0, 0, 0, 0, 0, 0,
     0, 0, 0, 0, 0, 0, 0, 0,
     0, 0, 0, 0, 0, 0, 0, 0,
     0, 0, 0, 0, 0, 0, 0, 0,
     0, 0, 0, 0, 0, 0, 0, 0,
     0, 0, 0, 0, 0, 0, 0, 0,
     0, 0, 0, 0, 0, 0, 0, 0,
     0, 0, 0, 0, 0, 0, 0, 0,
     0, 0, 0, 0, 0, 0, 0, 0,
     0, 0, 0, 0, 0, 0, 0, 0,
     0, 0, 0, 0, 0, 0, 0, 0,
     0, 0, 0, 0, 0, 0, 0, 0]"

text \<open>Both arguments of \<^verbatim>\<open>logdist\<close> and all of \<^verbatim>\<open>distcmp\<close> are the bytes of hashes, of equal length.\<close>

fun logdist_lz :: "(byte \<times> byte) list \<Rightarrow> nat" where
  "logdist_lz [] = 0"
| "logdist_lz ((a, b) # rest) =
     (let x = a XOR b in if x = 0 then 8 + logdist_lz rest else lzcount ! unat x)"

definition logdist :: "bytes \<Rightarrow> bytes \<Rightarrow> nat" where
  "logdist a b = length a * 8 - logdist_lz (zip a b)"

fun distcmp :: "bytes \<Rightarrow> bytes \<Rightarrow> bytes \<Rightarrow> int" where
  "distcmp (t # target) (a # as) (b # bs) =
     (let da = a XOR t; db = b XOR t in
      if da > db then 1 else if da < db then -1 else distcmp target as bs)"
| "distcmp _ _ _ = 0"

text \<open>The specification: the exclusive or of two hashes as a number.\<close>

definition xor_bytes :: "bytes \<Rightarrow> bytes \<Rightarrow> bytes" where
  "xor_bytes a b = map2 (XOR) a b"

definition xor_dist :: "hash \<Rightarrow> hash \<Rightarrow> nat" where
  "xor_dist a b = be_nat (xor_bytes (hash_bytes a) (hash_bytes b))"

lemma lzcount_all:
  "list_all (\<lambda>x. lzcount ! x \<le> 7 \<and> 2 ^ (7 - lzcount ! x) \<le> x \<and> x < 2 ^ (8 - lzcount ! x)) [1..<256]"
  by code_simp

lemma lzcount_bounds:
  assumes "x \<noteq> (0 :: byte)"
  shows "lzcount ! unat x \<le> 7" "2 ^ (7 - lzcount ! unat x) \<le> unat x" "unat x < 2 ^ (8 - lzcount ! unat x)"
proof -
  have "unat x \<in> set [1..<256]" using assms by (simp add: unat_gt_0 Suc_le_eq)
  then show "lzcount ! unat x \<le> 7" "2 ^ (7 - lzcount ! unat x) \<le> unat x"
    "unat x < 2 ^ (8 - lzcount ! unat x)"
    using lzcount_all by (auto simp only: list_all_iff)
qed

lemma logdist_lz_le: "logdist_lz ps \<le> 8 * length ps"
proof (induction ps rule: logdist_lz.induct)
  case (2 a b rest)
  then show ?case
    using lzcount_bounds(1) [of "a XOR b"] by (auto simp: Let_def)
qed simp

abbreviation xor_pairs :: "(byte \<times> byte) list \<Rightarrow> bytes" where
  "xor_pairs ps \<equiv> map (\<lambda>(a, b). a XOR b) ps"

lemma pow_256: "(256 :: nat) ^ n = 2 ^ (8 * n)"
  by (simp add: power_mult)

lemma logdist_lz_upper: "be_nat (xor_pairs ps) < 2 ^ (8 * length ps - logdist_lz ps)"
proof (induction ps rule: logdist_lz.induct)
  case 1
  then show ?case by simp
next
  case (2 a b rest)
  let ?n = "length rest" and ?x = "a XOR b"
  show ?case
  proof (cases "?x = 0")
    case True
    with 2 show ?thesis by (simp add: be_nat_Cons)
  next
    case False
    note lz = lzcount_bounds [OF this]
    have "be_nat (xor_pairs ((a, b) # rest)) < (unat ?x + 1) * 256 ^ ?n"
      using be_nat_less [of "xor_pairs rest"] by (simp add: be_nat_Cons)
    also have "\<dots> \<le> 2 ^ (8 - lzcount ! unat ?x) * 2 ^ (8 * ?n)"
      using lz(3) by (simp only: pow_256 mult_le_mono1 Suc_le_eq flip: Suc_eq_plus1)
    also have "\<dots> = 2 ^ (8 * length ((a, b) # rest) - logdist_lz ((a, b) # rest))"
      using False lz(1) by (simp flip: power_add)
    finally show ?thesis .
  qed
qed

lemma logdist_lz_lower:
  "be_nat (xor_pairs ps) \<noteq> 0 \<Longrightarrow> 2 ^ (8 * length ps - logdist_lz ps - 1) \<le> be_nat (xor_pairs ps)"
proof (induction ps rule: logdist_lz.induct)
  case 1
  then show ?case by simp
next
  case (2 a b rest)
  let ?n = "length rest" and ?x = "a XOR b"
  show ?case
  proof (cases "?x = 0")
    case True
    with 2 show ?thesis by (simp add: be_nat_Cons)
  next
    case False
    note lz = lzcount_bounds [OF this]
    have "2 ^ (8 * length ((a, b) # rest) - logdist_lz ((a, b) # rest) - 1) =
          (2 :: nat) ^ (7 - lzcount ! unat ?x) * 2 ^ (8 * ?n)"
      using False lz(1) by (simp flip: power_add)
    also have "\<dots> \<le> unat ?x * 256 ^ ?n"
      using lz(2) by (simp only: pow_256 mult_le_mono1)
    also have "\<dots> \<le> be_nat (xor_pairs ((a, b) # rest))" by (simp add: be_nat_Cons)
    finally show ?thesis .
  qed
qed

lemma xor_dist_pairs: "xor_dist a b = be_nat (xor_pairs (zip (hash_bytes a) (hash_bytes b)))"
  by (simp add: xor_dist_def xor_bytes_def)

lemma logdist_upper: "xor_dist a b < 2 ^ logdist (hash_bytes a) (hash_bytes b)"
  using logdist_lz_upper [of "zip (hash_bytes a) (hash_bytes b)"]
  by (simp add: xor_dist_pairs logdist_def mult.commute)

lemma logdist_lower:
  "xor_dist a b \<noteq> 0 \<Longrightarrow> 2 ^ (logdist (hash_bytes a) (hash_bytes b) - 1) \<le> xor_dist a b"
  using logdist_lz_lower [of "zip (hash_bytes a) (hash_bytes b)"]
  by (simp add: xor_dist_pairs logdist_def mult.commute)

lemma logdist_le: "logdist (hash_bytes a) (hash_bytes b) \<le> 256"
  by (simp add: logdist_def)

lemma xor_bytes_self: "xor_bytes a a = replicate (length a) 0"
  by (induction a) (simp_all add: xor_bytes_def)

lemma logdist_lz_self: "logdist_lz (zip a a) = 8 * length a"
  by (induction a) (simp_all add: Let_def)

lemma logdist_self [simp]: "logdist (hash_bytes a) (hash_bytes a) = 0"
  by (simp add: logdist_def logdist_lz_self)

lemma logdist_sym: "logdist (hash_bytes a) (hash_bytes b) = logdist (hash_bytes b) (hash_bytes a)"
proof -
  have "logdist_lz (zip xs ys) = logdist_lz (zip ys xs)" for xs ys
    by (induction xs ys rule: list_induct2') (simp_all add: Let_def xor.commute)
  then show ?thesis by (simp add: logdist_def)
qed

lemma xor_bytes_inj:
  "length a = length t \<Longrightarrow> length b = length t \<Longrightarrow> xor_bytes t a = xor_bytes t b \<Longrightarrow> a = b"
proof (induction t arbitrary: a b)
  case (Cons x t)
  then obtain y a' z b' where "a = y # a'" "b = z # b'"
    by (metis length_Suc_conv)
  moreover from this Cons.prems have "x XOR (x XOR y) = x XOR (x XOR z)"
    by (simp add: xor_bytes_def)
  ultimately show ?case
    using Cons by (simp add: xor_bytes_def flip: xor.assoc)
qed simp

lemma xor_dist_inj: "xor_dist t a = xor_dist t b \<longleftrightarrow> a = b"
proof
  assume "xor_dist t a = xor_dist t b"
  then have "xor_bytes (hash_bytes t) (hash_bytes a) = xor_bytes (hash_bytes t) (hash_bytes b)"
    by (intro be_nat_inj) (simp_all add: xor_dist_def, simp add: xor_bytes_def)
  then have "hash_bytes a = hash_bytes b"
    by (rule xor_bytes_inj [rotated 2]) simp_all
  then show "a = b" by (simp add: hash_eq_iff)
qed simp

lemma xor_dist_self [simp]: "xor_dist a a = 0"
  using be_nat_replicate_zero [of 32 "[]"] by (simp add: xor_dist_def xor_bytes_self)

lemma xor_dist_0: "xor_dist a b = 0 \<longleftrightarrow> a = b"
  using xor_dist_inj [of a b a] by auto

section \<open>Order by distance\<close>

lemma distcmp_be_nat:
  "length a = length t \<Longrightarrow> length b = length t \<Longrightarrow>
   distcmp t a b = (let x = be_nat (xor_bytes t a); y = be_nat (xor_bytes t b) in
                    if x > y then 1 else if x < y then -1 else 0)"
proof (induction t a b rule: distcmp.induct)
  case (1 t ts a as b bs)
  let ?X = "be_nat (xor_bytes ts as)" and ?Y = "be_nat (xor_bytes ts bs)" and ?n = "length ts"
  have len: "?X < 256 ^ ?n" "?Y < 256 ^ ?n"
    using be_nat_less [of "xor_bytes ts as"] be_nat_less [of "xor_bytes ts bs"] 1
    by (simp_all add: xor_bytes_def)
  have step: "be_nat (xor_bytes (t # ts) (c # cs)) = unat (c XOR t) * 256 ^ ?n + be_nat (xor_bytes ts cs)"
    if "length cs = ?n" for c cs
    using that by (simp add: xor_bytes_def be_nat_Cons xor.commute)
  have lt: "u * 256 ^ ?n + r < v * 256 ^ ?n + q" if "u < v" "r < 256 ^ ?n" for u v r q :: nat
  proof -
    have "u * 256 ^ ?n + r < (u + 1) * 256 ^ ?n" using that by simp
    also have "\<dots> \<le> v * 256 ^ ?n" using that by (intro mult_le_mono1) simp
    finally show ?thesis by simp
  qed
  show ?case
    using 1 lt [of "unat (a XOR t)" "unat (b XOR t)" ?X ?Y] lt [of "unat (b XOR t)" "unat (a XOR t)" ?Y ?X] len
    by (auto simp: step Let_def word_less_nat_alt)
qed (auto simp: xor_bytes_def)

lemma distcmp_xor_dist:
  "distcmp (hash_bytes t) (hash_bytes a) (hash_bytes b) =
     (if xor_dist t a > xor_dist t b then 1 else if xor_dist t a < xor_dist t b then -1 else 0)"
  by (simp add: distcmp_be_nat xor_dist_def Let_def)

lemma distcmp_pos: "distcmp (hash_bytes t) (hash_bytes a) (hash_bytes b) > 0 \<longleftrightarrow> xor_dist t b < xor_dist t a"
  by (simp add: distcmp_xor_dist)

section \<open>Text form of identifiers\<close>

lemma Hex2NodeId_String: "Hex2NodeId (NodeId_String i) = Ok i"
proof -
  have "take 2 (hex_encode (id_bytes i)) \<noteq> bytes_of ''0x''"
  proof
    assume eq: "take 2 (hex_encode (id_bytes i)) = bytes_of ''0x''"
    obtain b bs where "id_bytes i = b # bs" by (metis length_id_bytes length_greater_0_conv zero_less_numeral neq_Nil_conv)
    with eq have "hextable (unat (b AND 15)) = 120" by (simp add: hex_encode_def bytes_of_def numeral_2_eq_2)
    with fromHexChar_hextable [OF nibbles_less(2) [of b]] show False by (simp add: fromHexChar_def)
  qed
  then show ?thesis by (simp add: Hex2NodeId_def NodeId_String_def Let_def)
qed

lemma Hex2NodeId_0x_String: "Hex2NodeId (bytes_of ''0x'' @ NodeId_String i) = Ok i"
  by (simp add: Hex2NodeId_def NodeId_String_def Let_def bytes_of_def)

section \<open>Properties\<close>

text \<open>
  C22: \<^verbatim>\<open>logdist\<close> is the bit length of the exclusive-or distance: 0 exactly for equal hashes,
  otherwise the distance lies between \<^verbatim>\<open>2 ^ (logdist - 1)\<close> and \<^verbatim>\<open>2 ^ logdist\<close>. It is symmetric and
  at most 256, so it always indexes one of the 257 buckets.
\<close>

theorem logdist_is_bit_length:
  "(logdist (hash_bytes a) (hash_bytes b) = 0 \<longleftrightarrow> a = b) \<and>
   xor_dist a b < 2 ^ logdist (hash_bytes a) (hash_bytes b) \<and>
   (a = b \<or> 2 ^ (logdist (hash_bytes a) (hash_bytes b) - 1) \<le> xor_dist a b) \<and>
   logdist (hash_bytes a) (hash_bytes b) = logdist (hash_bytes b) (hash_bytes a) \<and>
   logdist (hash_bytes a) (hash_bytes b) \<le> 256"
proof -
  have "logdist (hash_bytes a) (hash_bytes b) = 0 \<longleftrightarrow> a = b"
    using logdist_upper [of a b] xor_dist_0 [of a b] by auto
  then show ?thesis
    using logdist_upper [of a b] logdist_lower [of a b] logdist_sym [of a b] logdist_le [of a b]
    by (auto simp: xor_dist_0)
qed

text \<open>
  \<^verbatim>\<open>distcmp\<close> compares two hashes by their exclusive-or distance to the target, and its result is
  0 only for equal hashes: closeness to a target is a strict total order on hashes.
\<close>

theorem distcmp_is_distance_order:
  "distcmp (hash_bytes t) (hash_bytes a) (hash_bytes b) =
     sgn (int (xor_dist t a) - int (xor_dist t b)) \<and>
   (distcmp (hash_bytes t) (hash_bytes a) (hash_bytes b) = 0 \<longleftrightarrow> a = b)"
  using xor_dist_inj [of t a b] by (auto simp: distcmp_xor_dist)

end
