(* ===== verification/Message.thy ===== *)
theory Message
  imports Node
begin

text \<open>
  message.go, common.go and the framing of peerconn.go: a message is version, type, a little-endian
  32-bit length and the data. A connection is read as the bytes that will still arrive on it; when
  they run out, the read fails. The two hello messages carry the identifiers of both ends.
\<close>

definition version1 :: byte where "version1 = 1"
definition typeHelloRequest :: byte where "typeHelloRequest = 0"
definition typeReHelloRequest :: byte where "typeReHelloRequest = 1"
definition typePingMsg :: byte where "typePingMsg = 2"
definition typePongMsg :: byte where "typePongMsg = 3"
definition headerLen :: uint32 where "headerLen = 6"

lemmas message_types = typeHelloRequest_def typeReHelloRequest_def typePingMsg_def typePongMsg_def

datatype io_error = ReadFailed | WriteFailed

section \<open>Framing\<close>

record message =
  msg_raw :: bytes
  msg_type :: byte
  msg_data :: bytes

text \<open>\<^verbatim>\<open>fill k buf s\<close>: the loop that reads \<^verbatim>\<open>k\<close> more bytes, one at a time, into \<^verbatim>\<open>mBuffer\<close>.\<close>

fun fill :: "nat \<Rightarrow> bytes \<Rightarrow> bytes \<Rightarrow> (io_error, bytes \<times> bytes) res" where
  "fill 0 buf s = Ok (buf, s)"
| "fill (Suc k) buf (b # s) = fill k (buf @ [b]) s"
| "fill (Suc k) buf [] = Err ReadFailed"

definition ReadMessage :: "bytes \<Rightarrow> (io_error, message \<times> bytes) res" where
  "ReadMessage s =
     res_bind (fill 6 [] s) (\<lambda>(header, s1).
     res_bind (uint32_le (drop 2 header)) (\<lambda>n.
     res_bind (fill (6 + unat n - length header) header s1) (\<lambda>(data, s2).
       res_bind (index_at data 1) (\<lambda>mType.
         Ok (\<lparr>msg_raw = data, msg_type = mType, msg_data = drop 6 data\<rparr>, s2)))))"

text \<open>
  Reading the data of a message. \<^verbatim>\<open>Read\<close> fills a buffer of \<^verbatim>\<open>n\<close> bytes as far as there are bytes left; \<^verbatim>\<open>None\<close> is \<^verbatim>\<open>io.EOF\<close>.
\<close>

definition message_Read :: "nat \<Rightarrow> message \<Rightarrow> message \<times> bytes option" where
  "message_Read n m =
     (if msg_data m = [] then (m, None) else (m\<lparr>msg_data := drop n (msg_data m)\<rparr>, Some (take n (msg_data m))))"

definition message_ReadAll :: "message \<Rightarrow> message \<times> bytes" where
  "message_ReadAll m = (m\<lparr>msg_data := []\<rparr>, msg_data m)"

fun read_pieces :: "nat list \<Rightarrow> message \<Rightarrow> message \<times> bytes" where
  "read_pieces [] m = (m, [])"
| "read_pieces (n # ns) m =
     (case message_Read n m of (m1, None) \<Rightarrow> (m1, [])
      | (m1, Some b) \<Rightarrow> (case read_pieces ns m1 of (m2, bs) \<Rightarrow> (m2, b @ bs)))"

lemma read_pieces_all: "length (msg_data m) \<le> sum_list ns \<Longrightarrow> read_pieces ns m = message_ReadAll m"
proof (induction ns arbitrary: m)
  case (Cons n ns)
  then show ?case by (cases "msg_data m = []") (simp_all add: message_Read_def message_ReadAll_def)
qed (simp add: message_ReadAll_def)

text \<open>The bytes \<^verbatim>\<open>peerConn.writeMessage\<close> puts on the connection.\<close>

definition frame :: "byte \<Rightarrow> byte \<Rightarrow> bytes \<Rightarrow> bytes" where
  "frame version mType data =
     (let cLen = length data;
          val = put_uint32_le (of_nat cLen) @ go_copy (replicate cLen 0) data
      in [version, mType] @ val)"

lemma frame_eq: "frame v t d = [v, t] @ put_uint32_le (of_nat (length d)) @ d"
  by (simp add: frame_def Let_def go_copy_exact)

lemma length_frame [simp]: "length (frame v t d) = 6 + length d"
  by (simp add: frame_eq)

lemma fill_eq:
  "fill k buf s = (if k \<le> length s then Ok (buf @ take k s, drop k s) else Err ReadFailed)"
  by (induction k buf s rule: fill.induct) auto

lemma ReadMessage_frame:
  assumes "length d < 2 ^ 32"
  shows "ReadMessage (frame v t d @ rest) =
         Ok (\<lparr>msg_raw = frame v t d, msg_type = t, msg_data = d\<rparr>, rest)"
proof -
  have "take 6 (frame v t d) = [v, t] @ put_uint32_le (of_nat (length d))"
    "drop 6 (frame v t d) = d"
    by (simp_all add: frame_eq put_uint32_le_def)
  with assms show ?thesis
    by (simp add: ReadMessage_def fill_eq unat_of_nat index_at_def)
      (simp add: frame_eq put_uint32_le_def)
qed

lemma ReadMessage_short:
  assumes "length d < 2 ^ 32" "k < length (frame v t d)"
  shows "ReadMessage (take k (frame v t d)) = Err ReadFailed"
proof (cases "k < 6")
  case True
  then show ?thesis using assms(2) by (simp add: ReadMessage_def fill_eq)
next
  case False
  then obtain j where k: "k = 6 + j" using le_Suc_ex by (metis not_less)
  with assms(2) have j: "j < length d" by simp
  have "take k (frame v t d) = [v, t] @ put_uint32_le (of_nat (length d)) @ take j d"
    using take_append [of k "[v, t] @ put_uint32_le (of_nat (length d))" d] by (simp add: frame_eq k)
  with assms(1) j show ?thesis
    by (simp add: ReadMessage_def fill_eq unat_of_nat put_uint32_le_def le_bytes_recombine)
qed

text \<open>Reading a message always ends: with a message, or with an error.\<close>

lemma ReadMessage_no_panic: "ReadMessage s \<noteq> Panic"
proof (cases "6 \<le> length s")
  case True
  then obtain n where "uint32_le (drop 2 (take 6 s)) = (Ok n :: (io_error, uint32) res)"
    using uint32_le_total [of "drop 2 (take 6 s)"] by auto
  then show ?thesis by (simp add: ReadMessage_def fill_eq index_at_def True)
next
  case False
  then show ?thesis by (simp add: ReadMessage_def fill_eq)
qed

lemma append_take_drop_twice: "take i s @ take j (drop i s) @ drop (j + i) s = s"
  by (metis append_take_drop_id drop_drop)

lemma ReadMessage_consumes:
  "ReadMessage s = Ok (m, rest) \<Longrightarrow> length (msg_raw m) = 6 + length (msg_data m) \<and> s = msg_raw m @ rest"
  by (auto simp: ReadMessage_def fill_eq index_at_def append_take_drop_twice split: if_splits)

section \<open>Hello messages\<close>

record hello =
  h_raw :: "bytes option"
  h_version :: byte
  h_id :: nodeid
  h_receiveId :: nodeid

definition hello_marshal :: "byte \<Rightarrow> hello \<Rightarrow> bytes" where
  "hello_marshal typ m =
     (case h_raw m of Some raw \<Rightarrow> raw
      | None \<Rightarrow>
          (let cLen = length (id_bytes (h_id m)) + length (id_bytes (h_receiveId m));
               val = put_uint32_le (of_nat cLen) @
                     go_copy (replicate cLen 0) (id_bytes (h_id m) @ id_bytes (h_receiveId m))
           in [h_version m, typ] @ val))"

text \<open>
  \<^verbatim>\<open>unmarshal\<close> on a fresh message: the message filled in and the returned flag. The bound
  \<^verbatim>\<open>headerLen + cLen\<close> is a 32-bit sum.
\<close>

definition hello_unmarshal :: "byte \<Rightarrow> byte slice \<Rightarrow> (io_error, hello \<times> bool) res" where
  "hello_unmarshal typ data =
     res_bind (index_at (fst data) 0) (\<lambda>version.
     let m = \<lparr>h_raw = Some (fst data), h_version = version, h_id = id_of [], h_receiveId = id_of []\<rparr> in
     res_bind (index_at (fst data) 1) (\<lambda>t.
     if t \<noteq> typ then Ok (m, False)
     else
       res_bind (slice_to data 2 6) (\<lambda>lenBytes.
       res_bind (uint32_le (fst lenBytes)) (\<lambda>cLen.
       res_bind (slice_to data 6 (unat (headerLen + cLen))) (\<lambda>body.
       res_bind (slice_to body 0 64) (\<lambda>idBytes.
       res_bind (slice_from body 64) (\<lambda>recvBytes.
         Ok (m\<lparr>h_id := id_of (fst idBytes), h_receiveId := id_of (fst recvBytes)\<rparr>, True))))))))"

definition helloRequest_marshal :: "hello \<Rightarrow> bytes" where
  "helloRequest_marshal = hello_marshal typeHelloRequest"

definition helloReRequest_marshal :: "hello \<Rightarrow> bytes" where
  "helloReRequest_marshal = hello_marshal typeReHelloRequest"

definition helloRequest_unmarshal :: "byte slice \<Rightarrow> (io_error, hello \<times> bool) res" where
  "helloRequest_unmarshal = hello_unmarshal typeHelloRequest"

definition helloReRequest_unmarshal :: "byte slice \<Rightarrow> (io_error, hello \<times> bool) res" where
  "helloReRequest_unmarshal = hello_unmarshal typeReHelloRequest"

definition new_hello :: "byte \<Rightarrow> nodeid \<Rightarrow> nodeid \<Rightarrow> hello" where
  "new_hello v i r = \<lparr>h_raw = None, h_version = v, h_id = i, h_receiveId = r\<rparr>"

text \<open>A marshalled hello is a message frame around the two identifiers.\<close>

lemma hello_marshal_frame:
  "hello_marshal typ (new_hello v i r) = frame v typ (id_bytes i @ id_bytes r)"
  by (simp add: hello_marshal_def new_hello_def frame_def Let_def)

lemma hello_unmarshal_frame:
  "length d < 2 ^ 32 - 6 \<Longrightarrow>
   hello_unmarshal typ (frame v typ d, spare) =
     (if 64 \<le> length d
      then Ok (\<lparr>h_raw = Some (frame v typ d), h_version = v, h_id = id_of (take 64 d),
                h_receiveId = id_of (drop 64 d)\<rparr>, True)
      else Panic)"
proof -
  assume len: "length d < 2 ^ 32 - 6"
  then have bound: "unat (headerLen + of_nat (length d)) = 6 + length d"
    by (simp add: headerLen_def unat_word_ariths unat_of_nat)
  have parts: "index_at (frame v typ d) 0 = (Ok v :: (io_error, byte) res)"
    "index_at (frame v typ d) (Suc 0) = (Ok typ :: (io_error, byte) res)"
    by (simp_all add: index_at_def frame_eq)
  have "slice_to (frame v typ d, spare) 2 6 =
        (Ok (put_uint32_le (of_nat (length d)), d @ spare) :: (io_error, byte slice) res)"
    by (subst slice_to_inside) (simp_all add: frame_eq put_uint32_le_def)
  moreover have "slice_to (frame v typ d, spare) 6 (6 + length d) =
        (Ok (d, spare) :: (io_error, byte slice) res)"
    by (subst slice_to_inside) (simp_all add: frame_eq put_uint32_le_def)
  ultimately have *: "hello_unmarshal typ (frame v typ d, spare) =
      res_bind (slice_to (d, spare) 0 64) (\<lambda>idBytes. res_bind (slice_from (d, spare) 64) (\<lambda>recvBytes.
        Ok (\<lparr>h_raw = Some (frame v typ d), h_version = v, h_id = id_of (fst idBytes),
             h_receiveId = id_of (fst recvBytes)\<rparr>, True)))"
    by (simp add: hello_unmarshal_def parts bound)
  show ?thesis
  proof (cases "64 \<le> length d")
    case True
    then show ?thesis by (simp add: * slice_to_inside slice_from_def)
  next
    case False
    then have "slice_from (d, spare) 64 = (Panic :: (io_error, byte slice) res)"
      by (simp add: slice_from_panics)
    then show ?thesis
      using False by (simp add: * slice_to_def Let_def)
  qed
qed

lemma hello_unmarshal_other_type:
  "t \<noteq> typ \<Longrightarrow> \<exists>m. hello_unmarshal typ (frame v t d, spare) = Ok (m, False)"
  by (simp add: hello_unmarshal_def index_at_def frame_eq)

lemma hello_roundtrip:
  "hello_unmarshal typ (hello_marshal typ (new_hello v i r), spare) =
     Ok (\<lparr>h_raw = Some (hello_marshal typ (new_hello v i r)), h_version = v, h_id = i, h_receiveId = r\<rparr>, True)"
  by (simp add: hello_marshal_frame hello_unmarshal_frame)

end
