(* ===== verification/Handshake.thy ===== *)
theory Handshake
  imports Message
begin

text \<open>
  peerconn.go: the connection session of one peer and the hello exchange that opens it. A
  connection holds the bytes still to arrive, the bytes written so far, whether the next write
  succeeds and whether it was closed. Both handshakes thread the connection, so that the two sides
  can be composed: what one wrote is what the other reads.
\<close>

definition flagInbound :: int where "flagInbound = 1"
definition flagOutbound :: int where "flagOutbound = 2"
definition flagStatic :: int where "flagStatic = 4"
definition flagDynamic :: int where "flagDynamic = 8"

record conn =
  c_in :: bytes
  c_out :: bytes
  c_writable :: bool
  c_closed :: bool

record peerConn =
  pc_id :: nodeid
  pc_self :: nodeid
  pc_version :: byte
  pc_handshakeStatus :: int
  pc_flag :: int

datatype hs_error =
    ConnErr io_error
  | ParseHelloErr
  | BadHelloVersion byte byte
  | BadHelloName nodeid nodeid

definition conn_write :: "bytes \<Rightarrow> (conn, hs_error, unit) prog" where
  "conn_write bs k =
     (if c_writable k \<and> \<not> c_closed k then (k\<lparr>c_out := c_out k @ bs\<rparr>, Ok ())
      else (k, Err (ConnErr WriteFailed)))"

text \<open>A read that fails has consumed whatever had arrived.\<close>

definition readMessage :: "(conn, hs_error, message) prog" where
  "readMessage k =
     (if c_closed k then (k, Err (ConnErr ReadFailed))
      else case ReadMessage (c_in k) of
        Ok (m, rest) \<Rightarrow> (k\<lparr>c_in := rest\<rparr>, Ok m)
      | Err e \<Rightarrow> (k\<lparr>c_in := []\<rparr>, Err (ConnErr e))
      | Panic \<Rightarrow> (k, Panic))"

definition writeMessage :: "peerConn \<Rightarrow> byte \<Rightarrow> bytes \<Rightarrow> (conn, hs_error, unit) prog" where
  "writeMessage c mType data = conn_write (frame (pc_version c) mType data)"

definition handshakeCompiled :: "peerConn \<Rightarrow> bool" where
  "handshakeCompiled c \<longleftrightarrow> pc_handshakeStatus c = 1"

text \<open>
  Reading a hello of either kind: the message, or the nil pointer (\<^verbatim>\<open>None\<close>) with a nil error when the
  message has another type. \<^verbatim>\<open>spare\<close> is what \<^verbatim>\<open>ioutil.ReadAll\<close> leaves behind the bytes it returns.
\<close>

definition read_hello :: "byte \<Rightarrow> bytes \<Rightarrow> (conn, hs_error, hello option) prog" where
  "read_hello typ spare =
     prog_bind readMessage (\<lambda>msg.
     if msg_type msg \<noteq> typ then ret None
     else case hello_unmarshal typ (msg_raw msg, spare) of
       Ok (m, True) \<Rightarrow> ret (Some m)
     | Ok (_, False) \<Rightarrow> fail ParseHelloErr
     | Err e \<Rightarrow> fail (ConnErr e)
     | Panic \<Rightarrow> panic)"

definition readHelloRequestMsg :: "bytes \<Rightarrow> (conn, hs_error, hello option) prog" where
  "readHelloRequestMsg = read_hello typeHelloRequest"

definition readHelloReRequestMsg :: "bytes \<Rightarrow> (conn, hs_error, hello option) prog" where
  "readHelloReRequestMsg = read_hello typeReHelloRequest"

text \<open>The two checks both sides make on the hello they received.\<close>

definition check_hello :: "peerConn \<Rightarrow> hello \<Rightarrow> (hs_error, unit) res" where
  "check_hello c m =
     (if h_version m \<noteq> pc_version c then Err (BadHelloVersion (h_version m) (pc_version c))
      else if h_receiveId m \<noteq> pc_self c then Err (BadHelloName (h_receiveId m) (pc_self c))
      else Ok ())"

definition clientHandshake :: "bytes \<Rightarrow> peerConn \<Rightarrow> (conn, hs_error, peerConn) prog" where
  "clientHandshake spare c =
     (if handshakeCompiled c then ret c
      else
        let request = new_hello (pc_version c) (pc_self c) (pc_id c) in
        prog_bind (conn_write (helloRequest_marshal request)) (\<lambda>_.
        prog_bind (readHelloReRequestMsg spare) (\<lambda>hello.
          case hello of None \<Rightarrow> panic
          | Some m \<Rightarrow> prog_bind (lift_res (check_hello c m)) (\<lambda>_. ret (c\<lparr>pc_handshakeStatus := 1\<rparr>)))))"

definition serverHandshake :: "bytes \<Rightarrow> peerConn \<Rightarrow> (conn, hs_error, peerConn) prog" where
  "serverHandshake spare c =
     (if handshakeCompiled c then ret c
      else
        prog_bind (readHelloRequestMsg spare) (\<lambda>hello.
          case hello of None \<Rightarrow> panic
          | Some m \<Rightarrow> prog_bind (lift_res (check_hello c m)) (\<lambda>_.
              let c1 = c\<lparr>pc_id := h_id m\<rparr>;
                  reply = new_hello (pc_version c) (pc_self c) (h_id m)
              in prog_bind (conn_write (helloReRequest_marshal reply)) (\<lambda>_. ret c1))))"

text \<open>
  \<^verbatim>\<open>serve\<close>: the session it hands to the server's \<^verbatim>\<open>addpeer\<close> channel, if any; a failed handshake closes
  the connection, and a panic ends the process.
\<close>

definition close :: "conn \<Rightarrow> conn" where
  "close k = k\<lparr>c_closed := True\<rparr>"

definition serve :: "bytes \<Rightarrow> peerConn \<Rightarrow> (conn, hs_error, peerConn option) prog" where
  "serve spare c k =
     (let inbound = (pc_flag c AND flagInbound \<noteq> 0);
          r = (if inbound then serverHandshake spare c k else clientHandshake spare c k)
      in case r of (k1, Ok c1) \<Rightarrow> (k1, Ok (Some c1))
         | (k1, Err _) \<Rightarrow> (close k1, Ok None)
         | (k1, Panic) \<Rightarrow> (k1, Panic))"

section \<open>What a handshake accepts\<close>

text \<open>A connection on which the next bytes are one message of type \<^verbatim>\<open>t\<close> with data \<^verbatim>\<open>d\<close>.\<close>

abbreviation incoming :: "byte \<Rightarrow> byte \<Rightarrow> bytes \<Rightarrow> bytes \<Rightarrow> conn \<Rightarrow> conn" where
  "incoming v t d rest k \<equiv> k\<lparr>c_in := frame v t d @ rest\<rparr>"

lemma read_hello_incoming:
  assumes "length d < 2 ^ 32 - 6" "\<not> c_closed k"
  shows "read_hello typ spare (incoming v t d rest k) =
    (k\<lparr>c_in := rest\<rparr>,
     if t \<noteq> typ then Ok None
     else if length d < 64 then Panic
     else Ok (Some \<lparr>h_raw = Some (frame v t d), h_version = v, h_id = id_of (take 64 d),
                    h_receiveId = id_of (drop 64 d)\<rparr>))"
  using assms
  by (simp add: read_hello_def readMessage_def ReadMessage_frame hello_unmarshal_frame go_defs)

lemma read_hello_truncated:
  assumes "length d < 2 ^ 32" "n < length (frame v t d)"
  shows "read_hello typ spare (k\<lparr>c_in := take n (frame v t d), c_closed := False\<rparr>) =
    (k\<lparr>c_in := [], c_closed := False\<rparr>, Err (ConnErr ReadFailed))"
  using ReadMessage_short [OF assms] by (simp add: read_hello_def readMessage_def go_defs)

lemma serverHandshake_incoming:
  assumes "length d < 2 ^ 32 - 6" "\<not> c_closed k" "c_writable k" "\<not> handshakeCompiled c"
  shows "serverHandshake spare c (incoming v t d rest k) =
    (if t \<noteq> typeHelloRequest \<or> length d < 64 then (k\<lparr>c_in := rest\<rparr>, Panic)
     else if v \<noteq> pc_version c then (k\<lparr>c_in := rest\<rparr>, Err (BadHelloVersion v (pc_version c)))
     else if id_of (drop 64 d) \<noteq> pc_self c
       then (k\<lparr>c_in := rest\<rparr>, Err (BadHelloName (id_of (drop 64 d)) (pc_self c)))
     else (k\<lparr>c_in := rest, c_out := c_out k @ frame v typeReHelloRequest
                  (id_bytes (pc_self c) @ id_bytes (id_of (take 64 d)))\<rparr>,
           Ok (c\<lparr>pc_id := id_of (take 64 d)\<rparr>)))"
  using assms
  by (simp add: serverHandshake_def readHelloRequestMsg_def read_hello_incoming check_hello_def
      conn_write_def helloReRequest_marshal_def hello_marshal_frame Let_def go_defs)

lemma clientHandshake_incoming:
  fixes rest :: bytes
  assumes "length d < 2 ^ 32 - 6" "\<not> c_closed k" "c_writable k" "\<not> handshakeCompiled c"
  defines "k1 \<equiv> k\<lparr>c_in := rest, c_out := c_out k @ frame (pc_version c) typeHelloRequest
                  (id_bytes (pc_self c) @ id_bytes (pc_id c))\<rparr>"
  shows "clientHandshake spare c (incoming v t d rest k) =
    (k1,
     if t \<noteq> typeReHelloRequest \<or> length d < 64 then Panic
     else if v \<noteq> pc_version c then Err (BadHelloVersion v (pc_version c))
     else if id_of (drop 64 d) \<noteq> pc_self c then Err (BadHelloName (id_of (drop 64 d)) (pc_self c))
     else Ok (c\<lparr>pc_handshakeStatus := 1\<rparr>))"
proof -
  let ?k = "k\<lparr>c_out := c_out k @ frame (pc_version c) typeHelloRequest
                  (id_bytes (pc_self c) @ id_bytes (pc_id c))\<rparr>"
  have "conn_write (helloRequest_marshal (new_hello (pc_version c) (pc_self c) (pc_id c)))
      (incoming v t d rest k) = (incoming v t d rest ?k, Ok ())"
    using assms by (simp add: conn_write_def helloRequest_marshal_def hello_marshal_frame)
  then have step: "prog_bind (conn_write (helloRequest_marshal
        (new_hello (pc_version c) (pc_self c) (pc_id c)))) f (incoming v t d rest k) =
      f () (incoming v t d rest ?k)" for f :: "unit \<Rightarrow> (conn, hs_error, peerConn) prog"
    by (rule prog_bind_Ok)
  have "\<not> c_closed ?k" using assms by simp
  note read = read_hello_incoming [OF assms(1) this, of typeReHelloRequest spare v t rest]
  have "clientHandshake spare c (incoming v t d rest k) =
      prog_bind (readHelloReRequestMsg spare) (\<lambda>hello. case hello of None \<Rightarrow> panic
          | Some m \<Rightarrow> prog_bind (lift_res (check_hello c m)) (\<lambda>_. ret (c\<lparr>pc_handshakeStatus := 1\<rparr>)))
        (incoming v t d rest ?k)"
    using assms(4) by (simp only: clientHandshake_def Let_def step if_False)
  then show ?thesis
    by (simp add: readHelloReRequestMsg_def k1_def prog_bind_def
        read check_hello_def lift_res_def ret_def panic_def)
qed

text \<open>
  The identifiers a received hello of full length claims: the first 64 bytes name the sender, the
  next 64 the receiver it believes it talks to.
\<close>

definition hello_body :: "nodeid \<Rightarrow> nodeid \<Rightarrow> bytes" where
  "hello_body i r = id_bytes i @ id_bytes r"

lemma hello_body [simp]:
  "length (hello_body i r) = 128" "id_of (take 64 (hello_body i r)) = i"
  "id_of (drop 64 (hello_body i r)) = r"
  by (simp_all add: hello_body_def)

section \<open>The properties\<close>

text \<open>
  C8: Two peers that speak the same version and of which the client dials the server's real
  identifier complete the handshake: there is a request the client writes such that the server,
  reading exactly those bytes, accepts and records the client's identifier, and the client, reading
  exactly the server's reply, accepts too and marks its session as handshaken. Each side consumes
  the other's message completely.
\<close>

theorem two_party_handshake:
  assumes "\<not> handshakeCompiled cl" "\<not> handshakeCompiled sv"
    and "pc_version cl = pc_version sv" "pc_id cl = pc_self sv"
  shows "\<exists>request kc ks.
    serverHandshake spare sv \<lparr>c_in = request, c_out = [], c_writable = True, c_closed = False\<rparr> =
      (ks, Ok (sv\<lparr>pc_id := pc_self cl\<rparr>)) \<and>
    clientHandshake spare' cl \<lparr>c_in = c_out ks, c_out = [], c_writable = True, c_closed = False\<rparr> =
      (kc, Ok (cl\<lparr>pc_handshakeStatus := 1\<rparr>)) \<and>
    c_out kc = request \<and> c_in ks = [] \<and> c_in kc = []"
proof -
  let ?k = "\<lparr>c_in = [], c_out = [], c_writable = True, c_closed = False\<rparr>"
  let ?req = "frame (pc_version cl) typeHelloRequest (hello_body (pc_self cl) (pc_id cl))"
  let ?rep = "frame (pc_version sv) typeReHelloRequest (hello_body (pc_self sv) (pc_self cl))"
  have "serverHandshake spare sv (?k\<lparr>c_in := ?req @ []\<rparr>) =
      (?k\<lparr>c_out := ?rep\<rparr>, Ok (sv\<lparr>pc_id := pc_self cl\<rparr>))"
    using assms by (subst serverHandshake_incoming) (simp_all add: hello_body_def)
  moreover have "clientHandshake spare' cl (?k\<lparr>c_in := ?rep @ []\<rparr>) =
      (?k\<lparr>c_out := ?req\<rparr>, Ok (cl\<lparr>pc_handshakeStatus := 1\<rparr>))"
    using assms by (subst clientHandshake_incoming) (simp_all add: hello_body_def)
  ultimately show ?thesis by (intro exI [of _ ?req]) auto
qed

definition demo_client :: peerConn where
  "demo_client = \<lparr>pc_id = id_of [2], pc_self = id_of [1], pc_version = version1,
     pc_handshakeStatus = 0, pc_flag = flagOutbound\<rparr>"

definition demo_server :: peerConn where
  "demo_server = \<lparr>pc_id = id_of [], pc_self = id_of [2], pc_version = version1,
     pc_handshakeStatus = 0, pc_flag = flagInbound\<rparr>"

theorem two_party_handshake_witness:
  "\<exists>request kc ks.
    serverHandshake [] demo_server \<lparr>c_in = request, c_out = [], c_writable = True, c_closed = False\<rparr> =
      (ks, Ok (demo_server\<lparr>pc_id := id_of [1]\<rparr>)) \<and>
    clientHandshake [] demo_client \<lparr>c_in = c_out ks, c_out = [], c_writable = True, c_closed = False\<rparr> =
      (kc, Ok (demo_client\<lparr>pc_handshakeStatus := 1\<rparr>)) \<and>
    c_out kc = request \<and> c_in ks = [] \<and> c_in kc = []"
  using two_party_handshake [of demo_client demo_server "[]" "[]"]
  by (simp add: demo_client_def demo_server_def handshakeCompiled_def)

text \<open>
  C30: What an inbound session does with the first message, on every branch. A message that is not a
  hello request, or whose data is shorter than an identifier, panics; a hello of another version or
  addressed to another node is refused and nothing is written; any other hello is accepted, the
  sender's identifier is recorded and the reply naming both ends is written.
\<close>

theorem server_handshake_outcome:
  assumes "length d < 2 ^ 32 - 6" "\<not> c_closed k" "c_writable k" "\<not> handshakeCompiled c"
  shows "serverHandshake spare c (k\<lparr>c_in := frame v t d @ rest\<rparr>) =
    (if t \<noteq> typeHelloRequest \<or> length d < 64 then (k\<lparr>c_in := rest\<rparr>, Panic)
     else if v \<noteq> pc_version c then (k\<lparr>c_in := rest\<rparr>, Err (BadHelloVersion v (pc_version c)))
     else if id_of (drop 64 d) \<noteq> pc_self c
       then (k\<lparr>c_in := rest\<rparr>, Err (BadHelloName (id_of (drop 64 d)) (pc_self c)))
     else (k\<lparr>c_in := rest, c_out := c_out k @ frame v typeReHelloRequest
                  (id_bytes (pc_self c) @ id_bytes (id_of (take 64 d)))\<rparr>,
           Ok (c\<lparr>pc_id := id_of (take 64 d)\<rparr>)))"
  by (rule serverHandshake_incoming [OF assms])

theorem server_handshake_outcome_witness:
  "serverHandshake [] demo_server
     \<lparr>c_in = frame 1 typePingMsg [7] @ [8], c_out = [], c_writable = True, c_closed = False\<rparr> =
   (\<lparr>c_in = [8], c_out = [], c_writable = True, c_closed = False\<rparr>, Panic)"
  using server_handshake_outcome [of "[7]" "\<lparr>c_in = [], c_out = [], c_writable = True, c_closed = False\<rparr>"
      demo_server "[]" 1 typePingMsg "[8]"]
  by (simp add: demo_server_def handshakeCompiled_def message_types)

text \<open>
  An outbound session does not check who answered: it accepts a reply of its own version that
  names it as the receiver, whatever identifier the responder claims, and it keeps the identifier it
  dialled.
\<close>

theorem client_accepts_any_responder:
  assumes "\<not> c_closed k" "c_writable k" "\<not> handshakeCompiled c"
  shows "snd (clientHandshake spare c
      (k\<lparr>c_in := frame (pc_version c) typeReHelloRequest (hello_body responder (pc_self c))\<rparr>)) =
    Ok (c\<lparr>pc_handshakeStatus := 1\<rparr>)"
proof -
  have "length (hello_body responder (pc_self c)) < 2 ^ 32 - 6" by simp
  from clientHandshake_incoming [OF this assms, of spare "pc_version c" typeReHelloRequest "[]"]
  show ?thesis by simp
qed

theorem client_accepts_any_responder_witness:
  "snd (clientHandshake [] demo_client
      \<lparr>c_in = frame 1 typeReHelloRequest (hello_body (id_of [3]) (id_of [1])), c_out = [],
       c_writable = True, c_closed = False\<rparr>) = Ok (demo_client\<lparr>pc_handshakeStatus := 1\<rparr>)"
  using client_accepts_any_responder [of "\<lparr>c_in = [], c_out = [], c_writable = True, c_closed = False\<rparr>"
      demo_client "[]" "id_of [3]"]
  by (simp add: demo_client_def handshakeCompiled_def version1_def)

text \<open>
  A session whose handshake did not receive a complete message hands nothing to the server: for
  every proper prefix of a message, inbound and outbound sessions close the connection and add no
  peer.
\<close>

theorem truncated_hello_adds_no_peer:
  assumes "length d < 2 ^ 32" "n < length (frame v t d)" "\<not> handshakeCompiled c" "c_writable k"
  defines "k0 \<equiv> k\<lparr>c_in := take n (frame v t d), c_closed := False\<rparr>"
  shows "snd (serve spare c k0) = Ok None \<and> c_closed (fst (serve spare c k0))"
proof -
  note trunc = read_hello_truncated [OF assms(1,2)]
  obtain k1 e where "serverHandshake spare c k0 = (k1, Err e)"
    using assms(3) trunc [of typeHelloRequest spare k]
    by (simp add: serverHandshake_def readHelloRequestMsg_def k0_def prog_bind_Err)
  moreover obtain k2 e' where "clientHandshake spare c k0 = (k2, Err e')"
  proof -
    define w where "w = helloRequest_marshal (new_hello (pc_version c) (pc_self c) (pc_id c))"
    have "conn_write w k0 = (k0\<lparr>c_out := c_out k @ w\<rparr>, Ok ())"
      using assms(4) by (simp add: conn_write_def k0_def)
    moreover have "k0\<lparr>c_out := c_out k @ w\<rparr> =
        (k\<lparr>c_out := c_out k @ w\<rparr>)\<lparr>c_in := take n (frame v t d), c_closed := False\<rparr>"
      by (simp add: k0_def)
    ultimately have "clientHandshake spare c k0 =
        prog_bind (readHelloReRequestMsg spare) (\<lambda>hello. case hello of None \<Rightarrow> panic
          | Some m \<Rightarrow> prog_bind (lift_res (check_hello c m)) (\<lambda>_. ret (c\<lparr>pc_handshakeStatus := 1\<rparr>)))
        ((k\<lparr>c_out := c_out k @ w\<rparr>)\<lparr>c_in := take n (frame v t d), c_closed := False\<rparr>)"
      using assms(3) by (simp add: clientHandshake_def Let_def w_def prog_bind_Ok)
    also have "\<dots> = ((k\<lparr>c_out := c_out k @ w\<rparr>)\<lparr>c_in := [], c_closed := False\<rparr>, Err (ConnErr ReadFailed))"
      unfolding readHelloReRequestMsg_def by (rule prog_bind_Err, rule trunc)
    finally show thesis by (rule that)
  qed
  ultimately show ?thesis by (simp add: serve_def Let_def close_def)
qed

theorem truncated_hello_adds_no_peer_witness:
  "snd (serve [] demo_server \<lparr>c_in = [1, 0, 128, 0, 0, 0, 5], c_out = [], c_writable = True, c_closed = False\<rparr>) =
   Ok None"
proof -
  have "take 7 (frame 1 0 (replicate 128 5)) = [1, 0, 128, 0, 0, 0, 5]"
    by (simp add: frame_eq put_uint32_le_def take_Cons')
  then show ?thesis
    using truncated_hello_adds_no_peer [of "replicate 128 5" 7 1 0 demo_server
        "\<lparr>c_in = [], c_out = [], c_writable = True, c_closed = False\<rparr>" "[]"]
    by (simp add: demo_server_def handshakeCompiled_def)
qed

end
