(* ===== verification/Peer.thy ===== *)
theory Peer
  imports Handshake
begin

text \<open>
  peer.go: an established session. Its goroutines are modelled by the steps they take: the reader
  handles one message after another, the pinger writes a heartbeat at each tick, the watchdog
  (\<^verbatim>\<open>suicide\<close>) compares the time of the last pong with the clock, and a protocol that fails closes the
  session. Closing an already closed Go channel panics. Sends on the unbuffered \<^verbatim>\<open>psCh\<close> are logged in
  \<^verbatim>\<open>p_delivered\<close>; a step that sends is one whose message some protocol takes.
\<close>

definition pingloopinterval :: int where "pingloopinterval = 1"
definition aliveloopinterval :: int where "aliveloopinterval = 10"
definition alivemaxinterval :: int where "alivemaxinterval = 30"

record peer =
  p_pc :: peerConn
  p_conn :: conn
  p_closed :: bool
  p_lastTime :: int
  p_readBuf :: bytes
  p_delivered :: "message list"

definition newPeer :: "int \<Rightarrow> peerConn \<Rightarrow> conn \<Rightarrow> peer" where
  "newPeer now c k = \<lparr>p_pc = c, p_conn = k, p_closed = False, p_lastTime = now, p_readBuf = [],
     p_delivered = []\<rparr>"

definition peer_ID :: "peer \<Rightarrow> nodeid" where
  "peer_ID p = pc_id (p_pc p)"

definition peer_Is :: "peer \<Rightarrow> int \<Rightarrow> bool" where
  "peer_Is p flag \<longleftrightarrow> pc_flag (p_pc p) AND flag \<noteq> 0"

definition Close :: "(peer, unit, unit) prog" where
  "Close p = (if p_closed p then (p, Panic) else (p\<lparr>p_closed := True\<rparr>, Ok ()))"

text \<open>A write through the session's connection, and whether it failed.\<close>

definition WriteMessage :: "byte \<Rightarrow> bytes \<Rightarrow> peer \<Rightarrow> peer \<times> bool" where
  "WriteMessage mType data p =
     (case writeMessage (p_pc p) mType data (p_conn p) of
        (k, Ok _) \<Rightarrow> (p\<lparr>p_conn := k\<rparr>, False)
      | (k, _) \<Rightarrow> (p\<lparr>p_conn := k\<rparr>, True))"

text \<open>\<^verbatim>\<open>Encode\<close> is the encoder the application gave the server; nothing is written when it fails.\<close>

definition WriteMessageObj :: "('o \<Rightarrow> bytes option) \<Rightarrow> byte \<Rightarrow> 'o \<Rightarrow> peer \<Rightarrow> peer \<times> bool" where
  "WriteMessageObj Encode mType obj p =
     (case Encode obj of None \<Rightarrow> (p, True) | Some bs \<Rightarrow> WriteMessage mType bs p)"

definition write_or_close :: "byte \<Rightarrow> (peer, unit, unit) prog" where
  "write_or_close mType p =
     (case WriteMessage mType (bytes_of ''hello'') p of
        (p1, failed) \<Rightarrow> if failed then Close p1 else (p1, Ok ()))"

text \<open>
  \<^verbatim>\<open>handle\<close>: \<^verbatim>\<open>taken\<close> is how many bytes of the raw message the receiving protocol consumed before the
  reader copies the remainder into \<^verbatim>\<open>readBuf\<close>.
\<close>

definition handle :: "int \<Rightarrow> nat \<Rightarrow> message \<Rightarrow> (peer, unit, unit) prog" where
  "handle now taken msg p =
     (if msg_type msg = typePingMsg then write_or_close typePongMsg p
      else if msg_type msg = typePongMsg then (p\<lparr>p_lastTime := now\<rparr>, Ok ())
      else (p\<lparr>p_delivered := p_delivered p @ [msg],
              p_readBuf := p_readBuf p @ drop taken (msg_raw msg)\<rparr>, Ok ()))"

abbreviation sound_conn :: "peer \<Rightarrow> bool" where
  "sound_conn p \<equiv> c_writable (p_conn p) \<and> \<not> c_closed (p_conn p)"

lemma write_or_close_sound:
  "sound_conn p \<Longrightarrow> write_or_close t p =
     (p\<lparr>p_conn := (p_conn p)\<lparr>c_out := c_out (p_conn p) @ frame (pc_version (p_pc p)) t (bytes_of ''hello'')\<rparr>\<rparr>, Ok ())"
  by (simp add: write_or_close_def WriteMessage_def writeMessage_def conn_write_def)

lemma write_or_close_broken:
  "\<not> sound_conn p \<Longrightarrow> write_or_close t p = Close p"
  by (auto simp: write_or_close_def WriteMessage_def writeMessage_def conn_write_def)

lemma handle_in [simp]: "c_in (p_conn (fst (handle now taken msg p))) = c_in (p_conn p)"
  by (cases "sound_conn p")
    (simp_all add: handle_def write_or_close_sound write_or_close_broken Close_def)

lemma ReadMessage_shorter: "ReadMessage s = Ok (m, rest) \<Longrightarrow> length rest < length s"
  using ReadMessage_consumes [of s m rest] by auto

text \<open>
  \<^verbatim>\<open>readLoop\<close>: the \<^verbatim>\<open>i\<close>-th message is handled at time \<^verbatim>\<open>now i\<close>. It returns when the session is closed
  or a read fails, and panics when \<^verbatim>\<open>handle\<close> does.
\<close>

function readLoop :: "(nat \<Rightarrow> int) \<Rightarrow> (nat \<Rightarrow> nat) \<Rightarrow> nat \<Rightarrow> (peer, unit, unit) prog" where
  "readLoop now taken i p =
     (if p_closed p then (p, Ok ())
      else case ReadMessage (c_in (p_conn p)) of
        Ok (msg, rest) \<Rightarrow>
          (let r = handle (now i) (taken i) msg (p\<lparr>p_conn := (p_conn p)\<lparr>c_in := rest\<rparr>\<rparr>)
           in case snd r of Ok _ \<Rightarrow> readLoop now taken (Suc i) (fst r)
              | _ \<Rightarrow> r)
      | Err e \<Rightarrow> (p\<lparr>p_conn := (p_conn p)\<lparr>c_in := []\<rparr>\<rparr>, Ok ())
      | Panic \<Rightarrow> (p, Panic))"
  by pat_completeness auto
termination
  by (relation "measure (\<lambda>(now, taken, i, p). length (c_in (p_conn p)))")
    (auto simp: ReadMessage_shorter)

declare readLoop.simps [simp del]

section \<open>Events of a session\<close>

datatype peer_event =
    Received int nat message
  | PingTick
  | AliveCheck int
  | ProtocolFailed

text \<open>One turn of the watchdog: it closes the session when the last pong is too old.\<close>

definition alive_check :: "int \<Rightarrow> (peer, unit, unit) prog" where
  "alive_check nowTime p =
     (if p_closed p then (p, Ok ())
      else if nowTime - p_lastTime p > alivemaxinterval then Close p
      else (p, Ok ()))"

fun peer_step :: "peer_event \<Rightarrow> (peer, unit, unit) prog" where
  "peer_step (Received now taken msg) p = handle now taken msg p"
| "peer_step PingTick p = write_or_close typePingMsg p"
| "peer_step (AliveCheck now) p = alive_check now p"
| "peer_step ProtocolFailed p = Close p"

fun peer_run :: "peer_event list \<Rightarrow> (peer, unit, unit) prog" where
  "peer_run [] = ret ()"
| "peer_run (e # es) = prog_bind (peer_step e) (\<lambda>_. peer_run es)"

text \<open>
  Whether a run contains a watchdog turn at which the last pong, or the start, is more than
  \<^verbatim>\<open>alivemaxinterval\<close> seconds ago.
\<close>

fun stale :: "int \<Rightarrow> peer_event list \<Rightarrow> bool" where
  "stale lst [] \<longleftrightarrow> False"
| "stale lst (Received now _ msg # es) \<longleftrightarrow> stale (if msg_type msg = typePongMsg then now else lst) es"
| "stale lst (AliveCheck t # es) \<longleftrightarrow> t - lst > alivemaxinterval \<or> stale lst es"
| "stale lst (_ # es) \<longleftrightarrow> stale lst es"

lemma peer_run_Ok: "peer_step e p = (p1, Ok ()) \<Longrightarrow> peer_run (e # es) p = peer_run es p1"
  by (simp add: prog_bind_def)

lemma peer_run_stale:
  assumes "sound_conn p" "ProtocolFailed \<notin> set es"
  shows "snd (peer_run es p) = Ok () \<and>
         (p_closed (fst (peer_run es p)) \<longleftrightarrow> p_closed p \<or> stale (p_lastTime p) es)"
  using assms
proof (induction es arbitrary: p)
  case Nil
  then show ?case by (simp add: ret_def)
next
  case (Cons e es)
  let ?p1 = "fst (peer_step e p)"
  have "snd (peer_step e p) = Ok ()" "sound_conn ?p1"
    and "p_closed ?p1 \<or> stale (p_lastTime ?p1) es \<longleftrightarrow> p_closed p \<or> stale (p_lastTime p) (e # es)"
    using Cons.prems
    by (cases e; simp add: handle_def write_or_close_sound alive_check_def Close_def message_types)+
  moreover from this have "peer_run (e # es) p = peer_run es ?p1"
    by (intro peer_run_Ok) (simp add: prod_eq_iff)
  ultimately show ?case using Cons.IH [of ?p1] Cons.prems by simp
qed

section \<open>The properties\<close>

abbreviation wire :: "byte \<Rightarrow> (byte \<times> bytes) list \<Rightarrow> bytes" where
  "wire v ms \<equiv> concat (map (\<lambda>(t, d). frame v t d) ms)"

lemma ReadMessage_Nil [simp]: "ReadMessage [] = Err ReadFailed"
  by (simp add: ReadMessage_def fill_eq)

lemma readLoop_wire:
  assumes "\<forall>(t, d) \<in> set ms. length d < 2 ^ 32" "c_in (p_conn p) = wire v ms"
    and "\<not> p_closed p" "sound_conn p"
  shows "\<exists>p1. readLoop now taken i p = (p1, Ok ()) \<and> \<not> p_closed p1 \<and>
    map (\<lambda>m. (msg_type m, msg_data m)) (p_delivered p1) =
      map (\<lambda>m. (msg_type m, msg_data m)) (p_delivered p) @
      filter (\<lambda>(t, d). t \<noteq> typePingMsg \<and> t \<noteq> typePongMsg) ms \<and>
    c_out (p_conn p1) = c_out (p_conn p) @
      wire (pc_version (p_pc p)) (map (\<lambda>_. (typePongMsg, bytes_of ''hello'')) (filter (\<lambda>(t, d). t = typePingMsg) ms))"
  using assms
proof (induction ms arbitrary: p i)
  case Nil
  then show ?case by (simp add: readLoop.simps)
next
  case (Cons m ms)
  obtain t d where m: "m = (t, d)" by (cases m)
  let ?msg = "\<lparr>msg_raw = frame v t d, msg_type = t, msg_data = d\<rparr>"
  let ?p = "p\<lparr>p_conn := (p_conn p)\<lparr>c_in := wire v ms\<rparr>\<rparr>"
  have "ReadMessage (c_in (p_conn p)) = Ok (?msg, wire v ms)"
    using Cons.prems(1,2) by (simp add: m ReadMessage_frame)
  moreover define p1 where "p1 = fst (handle (now i) (taken i) ?msg ?p)"
  then have h: "handle (now i) (taken i) ?msg ?p = (p1, Ok ())"
    and p1: "c_in (p_conn p1) = wire v ms" "\<not> p_closed p1" "sound_conn p1" "p_pc p1 = p_pc p"
      "p_delivered p1 = p_delivered p @ (if t \<noteq> typePingMsg \<and> t \<noteq> typePongMsg then [?msg] else [])"
      "c_out (p_conn p1) = c_out (p_conn p) @
         (if t = typePingMsg then frame (pc_version (p_pc p)) typePongMsg (bytes_of ''hello'') else [])"
    using Cons.prems(3,4) by (simp_all add: handle_def write_or_close_sound message_types prod_eq_iff)
  ultimately have "readLoop now taken i p = readLoop now taken (Suc i) p1"
    using Cons.prems(3) by (simp add: readLoop.simps [of _ _ i])
  with Cons.IH [OF _ p1(1,2,3), of "Suc i"] Cons.prems(1) p1(4-) show ?case
    by (auto simp: m message_types)
qed

text \<open>
  C27: The reader of a session loses, duplicates and reorders nothing: whatever messages the other
  side wrote one after another, the loop ends when the stream does, the protocols received exactly
  the messages that are neither ping nor pong, in order and with their data, and exactly one pong
  was written for every ping.
\<close>

theorem read_loop_delivers:
  assumes "\<forall>(t, d) \<in> set ms. length d < 2 ^ 32"
    and "c_in k = concat (map (\<lambda>(t, d). frame v t d) ms)" "c_writable k" "\<not> c_closed k" "c_out k = []"
  shows "\<exists>p1. readLoop now taken 0 (newPeer start c k) = (p1, Ok ()) \<and> \<not> p_closed p1 \<and>
    map (\<lambda>m. (msg_type m, msg_data m)) (p_delivered p1) =
      filter (\<lambda>(t, d). t \<noteq> typePingMsg \<and> t \<noteq> typePongMsg) ms \<and>
    c_out (p_conn p1) = concat (replicate (length (filter (\<lambda>(t, d). t = typePingMsg) ms))
      (frame (pc_version c) typePongMsg (bytes_of ''hello'')))"
  using readLoop_wire [of ms "newPeer start c k" v now taken 0] assms
  by (simp add: newPeer_def comp_def map_replicate_const)

theorem read_loop_delivers_witness:
  "\<exists>p1. readLoop (\<lambda>_. 5) (\<lambda>_. 0) 0 (newPeer 1 demo_server
      \<lparr>c_in = frame 1 2 [] @ frame 1 9 [4, 5] @ frame 1 3 [], c_out = [], c_writable = True, c_closed = False\<rparr>) =
      (p1, Ok ()) \<and> map (\<lambda>m. (msg_type m, msg_data m)) (p_delivered p1) = [(9, [4, 5])]"
  using read_loop_delivers [of "[(2, []), (9, [4, 5]), (3, [])]"
      "\<lparr>c_in = frame 1 2 [] @ frame 1 9 [4, 5] @ frame 1 3 [], c_out = [], c_writable = True, c_closed = False\<rparr>"
      1 "\<lambda>_. 5" "\<lambda>_. 0" 1 demo_server]
  by (auto simp: message_types)

text \<open>
  C28: The watchdog closes exactly the silent peers: as long as writes succeed and no protocol fails,
  no sequence of received messages, heartbeats and watchdog turns panics, and the session ends up
  closed if and only if at some watchdog turn the last pong (or the start) was more than 30 seconds
  ago.
\<close>

theorem watchdog_closes_iff_stale:
  assumes "c_writable k" "\<not> c_closed k" "ProtocolFailed \<notin> set es"
  shows "snd (peer_run es (newPeer now c k)) = Ok () \<and>
    (p_closed (fst (peer_run es (newPeer now c k))) \<longleftrightarrow> stale now es)"
  using peer_run_stale [of "newPeer now c k" es] assms by (simp add: newPeer_def)

theorem watchdog_closes_iff_stale_witness:
  "p_closed (fst (peer_run [AliveCheck 130, PingTick, AliveCheck 131] (newPeer 100 demo_server
     \<lparr>c_in = [], c_out = [], c_writable = True, c_closed = False\<rparr>)))"
  using watchdog_closes_iff_stale [of "\<lparr>c_in = [], c_out = [], c_writable = True, c_closed = False\<rparr>"
      "[AliveCheck 130, PingTick, AliveCheck 131]" 100 demo_server]
  by (simp add: alivemaxinterval_def)

text \<open>
  A step of a session panics exactly when it closes a session that is closed already: a protocol
  that returns an error, or a heartbeat or pong that cannot be written, after the first close. No
  operation guards against it.
\<close>

theorem second_close_panics:
  "snd (peer_step e p) = Panic \<longleftrightarrow>
     p_closed p \<and>
     (case e of
        ProtocolFailed \<Rightarrow> True
      | PingTick \<Rightarrow> \<not> (c_writable (p_conn p) \<and> \<not> c_closed (p_conn p))
      | Received now taken msg \<Rightarrow>
          msg_type msg = typePingMsg \<and> \<not> (c_writable (p_conn p) \<and> \<not> c_closed (p_conn p))
      | AliveCheck t \<Rightarrow> False)"
  by (cases "sound_conn p"; cases e)
    (auto simp: handle_def write_or_close_sound write_or_close_broken alive_check_def Close_def)

end
