(* ===== verification/Go_Search.thy ===== *)
theory Go_Search
  imports Prelude
begin

text \<open>
  Go's \<^verbatim>\<open>sort.Search\<close>: the binary search the discovery table uses to find where a node goes in
  a list ordered by distance. For a predicate that stays true once it is true, the search returns
  the first index where it is true.
\<close>

function search_loop :: "(nat \<Rightarrow> bool) \<Rightarrow> nat \<Rightarrow> nat \<Rightarrow> nat" where
  "search_loop f i j =
     (if i < j then
        (let h = (i + j) div 2 in
         if \<not> f h then search_loop f (Suc h) j else search_loop f i h)
      else i)"
  by pat_completeness auto
termination
  by (relation "measure (\<lambda>(f, i, j). j - i)") auto

declare search_loop.simps [simp del]

definition sort_search :: "nat \<Rightarrow> (nat \<Rightarrow> bool) \<Rightarrow> nat" where
  "sort_search n f = search_loop f 0 n"

text \<open>\<^verbatim>\<open>splits_at f n r\<close>: below \<^verbatim>\<open>r\<close> the predicate is false, from \<^verbatim>\<open>r\<close> up to \<^verbatim>\<open>n\<close> it is true.\<close>

definition splits_at :: "(nat \<Rightarrow> bool) \<Rightarrow> nat \<Rightarrow> nat \<Rightarrow> bool" where
  "splits_at f n r \<longleftrightarrow> r \<le> n \<and> (\<forall>k. k < r \<longrightarrow> \<not> f k) \<and> (\<forall>k. r \<le> k \<and> k < n \<longrightarrow> f k)"

lemma splits_at_unique: "splits_at f n r \<Longrightarrow> splits_at f n s \<Longrightarrow> r = s"
  unfolding splits_at_def by (meson linorder_neqE_nat nat_less_le le_trans not_le order_refl)

lemma search_loop_splits:
  assumes mono: "\<And>i j. i \<le> j \<Longrightarrow> j < n \<Longrightarrow> f i \<Longrightarrow> f j"
  shows "i \<le> j \<Longrightarrow> j \<le> n \<Longrightarrow> (\<And>k. k < i \<Longrightarrow> \<not> f k) \<Longrightarrow> (\<And>k. j \<le> k \<Longrightarrow> k < n \<Longrightarrow> f k) \<Longrightarrow>
         splits_at f n (search_loop f i j)"
proof (induction "j - i" arbitrary: i j rule: less_induct)
  case less
  define h where "h = (i + j) div 2"
  show ?case
  proof (cases "i < j")
    case False
    then have "search_loop f i j = i" by (subst search_loop.simps) simp
    with False less.prems show ?thesis by (auto simp: splits_at_def)
  next
    case True
    then have h: "i \<le> h" "h < j" by (auto simp: h_def)
    have step: "search_loop f i j = (if \<not> f h then search_loop f (Suc h) j else search_loop f i h)"
      using True by (subst search_loop.simps) (simp add: Let_def h_def)
    show ?thesis
    proof (cases "f h")
      case True
      have "splits_at f n (search_loop f i h)"
        by (rule less.hyps) (use less.prems h True mono in auto)
      with True step show ?thesis by simp
    next
      case False
      have "splits_at f n (search_loop f (Suc h) j)"
      proof (rule less.hyps)
        fix k assume "k < Suc h"
        then show "\<not> f k" using mono [of k h] h less.prems(2) False by auto
      qed (use less.prems h in auto)
      with False step show ?thesis by simp
    qed
  qed
qed

lemma sort_search_splits:
  "(\<And>i j. i \<le> j \<Longrightarrow> j < n \<Longrightarrow> f i \<Longrightarrow> f j) \<Longrightarrow> splits_at f n (sort_search n f)"
  unfolding sort_search_def by (rule search_loop_splits) auto

end
