(* ===== verification/Nodes_By_Distance.thy ===== *)
theory Nodes_By_Distance
  imports Node Go_Search
begin

text \<open>
  The \<^verbatim>\<open>nodesByDistance\<close> list of discover/table.go: a bounded list of nodes ordered by distance to
  a target, filled by \<^verbatim>\<open>push\<close> with a binary search and a slide inside one slice. The locale is what
  \<^verbatim>\<open>push\<close> relies on, a comparison that agrees with a numeric key; inside it, pushing a sequence of
  nodes is shown to keep exactly the first elements of the stably sorted sequence.
\<close>

section \<open>push\<close>

text \<open>
  The body of \<^verbatim>\<open>push\<close> over any comparison \<^verbatim>\<open>farther\<close>: search, grow if there is room, then slide
  the tail down by one and store the node, unless it is farther than every entry of a full list.
\<close>

definition slide_store :: "'n list \<Rightarrow> nat \<Rightarrow> 'n \<Rightarrow> 'n list" where
  "slide_store es ix n = (take (ix + 1) es @ go_copy (drop (ix + 1) es) (drop ix es))[ix := n]"

definition push_entries :: "('n \<Rightarrow> 'n \<Rightarrow> bool) \<Rightarrow> 'n list \<Rightarrow> 'n \<Rightarrow> nat \<Rightarrow> 'n list" where
  "push_entries farther es n maxElems =
     (let ix = sort_search (length es) (\<lambda>i. farther (es ! i) n);
          es' = (if length es < maxElems then es @ [n] else es)
      in if ix = length es' then es' else slide_store es' ix n)"

record nodesByDistance =
  nbd_entries :: "node list"
  nbd_target :: hash

definition farther_from :: "hash \<Rightarrow> node \<Rightarrow> node \<Rightarrow> bool" where
  "farther_from target e n \<longleftrightarrow>
     distcmp (hash_bytes target) (hash_bytes (node_Hash e)) (hash_bytes (node_Hash n)) > 0"

definition push :: "nodesByDistance \<Rightarrow> node \<Rightarrow> nat \<Rightarrow> nodesByDistance" where
  "push h n maxElems =
     h\<lparr>nbd_entries := push_entries (farther_from (nbd_target h)) (nbd_entries h) n maxElems\<rparr>"

section \<open>Insertion into an ordered list\<close>

text \<open>The reference: insert after the elements whose key is not larger.\<close>

definition insert_after :: "('n \<Rightarrow> nat) \<Rightarrow> 'n \<Rightarrow> 'n list \<Rightarrow> 'n list" where
  "insert_after key n es =
     takeWhile (\<lambda>e. key e \<le> key n) es @ n # dropWhile (\<lambda>e. key e \<le> key n) es"

lemma mset_insert_after [simp]: "mset (insert_after key n es) = add_mset n (mset es)"
proof -
  have "mset es = mset (takeWhile (\<lambda>e. key e \<le> key n) es @ dropWhile (\<lambda>e. key e \<le> key n) es)"
    by simp
  then show ?thesis by (simp add: insert_after_def del: takeWhile_dropWhile_id)
qed

lemma set_insert_after [simp]: "set (insert_after key n es) = insert n (set es)"
  using mset_insert_after [of key n es] by (metis set_mset_add_mset_insert set_mset_mset)

lemma length_insert_after [simp]: "length (insert_after key n es) = Suc (length es)"
  using mset_insert_after [of key n es] by (metis size_add_mset size_mset)

lemma insert_after_Cons:
  "insert_after key n (e # es) = (if key e \<le> key n then e # insert_after key n es else n # e # es)"
  by (simp add: insert_after_def)

lemma sorted_insert_after: "sorted (map key es) \<Longrightarrow> sorted (map key (insert_after key n es))"
proof (induction es)
  case Nil
  then show ?case by (simp add: insert_after_def)
next
  case (Cons e es)
  then show ?case by (auto simp: insert_after_Cons)
qed

lemma filter_insert_after:
  "sorted (map key es) \<Longrightarrow>
   filter (\<lambda>e. k = key e) (insert_after key n es) =
     filter (\<lambda>e. k = key e) es @ (if k = key n then [n] else [])"
proof (induction es)
  case Nil
  then show ?case by (simp add: insert_after_def)
next
  case (Cons e es)
  show ?case
  proof (cases "key e \<le> key n")
    case True
    with Cons show ?thesis by (auto simp: insert_after_Cons)
  next
    case False
    with Cons.prems have "\<forall>x \<in> set (e # es). key n < key x" by auto
    then have "filter (\<lambda>x. key n = key x) (e # es) = []"
      by (intro filter_False) auto
    with False show ?thesis by (auto simp: insert_after_Cons)
  qed
qed

lemma take_insert_after_take:
  "sorted (map key es) \<Longrightarrow> take m (insert_after key n (take m es)) = take m (insert_after key n es)"
proof (induction es arbitrary: m)
  case Nil
  then show ?case by simp
next
  case (Cons e es)
  show ?case
  proof (cases m)
    case 0
    then show ?thesis by simp
  next
    case (Suc m')
    with Cons show ?thesis by (simp add: insert_after_Cons take_Cons')
  qed
qed

definition insert_all :: "('n \<Rightarrow> nat) \<Rightarrow> 'n list \<Rightarrow> 'n list" where
  "insert_all key ns = foldl (\<lambda>acc n. insert_after key n acc) [] ns"

lemma insert_all_snoc: "insert_all key (ns @ [n]) = insert_after key n (insert_all key ns)"
  by (simp add: insert_all_def)

lemma sorted_insert_all: "sorted (map key (insert_all key ns))"
  by (induction ns rule: rev_induct) (simp_all add: insert_all_snoc sorted_insert_after, simp add: insert_all_def)

lemma insert_all_sort_key: "insert_all key ns = sort_key key ns"
proof (rule sym, rule properties_for_sort_key)
  show "mset (insert_all key ns) = mset ns"
    by (induction ns rule: rev_induct) (simp_all add: insert_all_snoc, simp add: insert_all_def)
  show "sorted (map key (insert_all key ns))" by (rule sorted_insert_all)
  show "filter (\<lambda>x. key k = key x) (insert_all key ns) = filter (\<lambda>x. key k = key x) ns" for k
  proof (induction ns rule: rev_induct)
    case Nil
    then show ?case by (simp add: insert_all_def)
  next
    case (snoc n ns)
    then show ?case by (simp add: insert_all_snoc filter_insert_after sorted_insert_all)
  qed
qed

section \<open>The slide\<close>

lemma slide_in:
  "d \<noteq> [] \<Longrightarrow> slide_store (w @ d) (length w) n = w @ n # butlast d"
  by (cases d) (simp_all add: slide_store_def go_copy_def butlast_conv_take list_update_append)

section \<open>The contract of the comparison\<close>

locale distance_order =
  fixes farther :: "'n \<Rightarrow> 'n \<Rightarrow> bool" and key :: "'n \<Rightarrow> nat"
  assumes farther_key: "farther e n \<longleftrightarrow> key n < key e"
begin

lemma search_index:
  assumes "sorted (map key es)"
  shows "sort_search (length es) (\<lambda>i. farther (es ! i) n) = length (takeWhile (\<lambda>e. key e \<le> key n) es)"
proof (rule splits_at_unique)
  show "splits_at (\<lambda>i. farther (es ! i) n) (length es)
          (sort_search (length es) (\<lambda>i. farther (es ! i) n))"
  proof (rule sort_search_splits)
    fix i j assume "i \<le> j" "j < length es" "farther (es ! i) n"
    moreover from this assms have "key (es ! i) \<le> key (es ! j)"
      using sorted_nth_mono [of "map key es" i j] by simp
    ultimately show "farther (es ! j) n" by (simp add: farther_key)
  qed
  let ?w = "takeWhile (\<lambda>e. key e \<le> key n) es"
  show "splits_at (\<lambda>i. farther (es ! i) n) (length es) (length ?w)"
    unfolding splits_at_def
  proof (intro conjI allI impI)
    show "length ?w \<le> length es" by (rule length_takeWhile_le)
    fix k
    show "\<not> farther (es ! k) n" if "k < length ?w"
      using that nth_mem [of k ?w] set_takeWhileD [of "es ! k"] by (auto simp: farther_key takeWhile_nth not_less)
    show "farther (es ! k) n" if k: "length ?w \<le> k \<and> k < length es"
    proof -
      have "\<not> key (es ! length ?w) \<le> key n" using k by (intro nth_length_takeWhile) simp
      moreover have "key (es ! length ?w) \<le> key (es ! k)"
        using k assms sorted_nth_mono [of "map key es" "length ?w" k] by simp
      ultimately show ?thesis by (simp add: farther_key)
    qed
  qed
qed

lemma push_entries_insert:
  assumes "sorted (map key es)" "length es \<le> m"
  shows "push_entries farther es n m = take m (insert_after key n es)"
proof -
  let ?p = "\<lambda>e. key e \<le> key n"
  define w d where "w = takeWhile ?p es" and "d = dropWhile ?p es"
  have es: "es = w @ d" by (simp add: w_def d_def)
  have ix: "sort_search (length es) (\<lambda>i. farther (es ! i) n) = length w"
    using search_index [OF assms(1), of n] by (simp add: w_def)
  have ins: "insert_after key n es = w @ n # d"
    by (simp add: insert_after_def w_def d_def)
  have push: "push_entries farther es n m =
      (let es' = (if length es < m then es @ [n] else es)
       in if length w = length es' then es' else slide_store es' (length w) n)"
    by (simp only: push_entries_def ix Let_def)
  show ?thesis
  proof (cases "length es < m")
    case True
    then have "push_entries farther es n m = w @ n # butlast (d @ [n])"
      using slide_in [of "d @ [n]" w n] unfolding push by (simp add: es)
    moreover have "length w + length d < m" using True by (simp add: es)
    ultimately show ?thesis by (simp add: ins)
  next
    case False
    with assms(2) have m: "m = length w + length d" by (simp add: es)
    show ?thesis
    proof (cases "d = []")
      case True
      with m show ?thesis unfolding push ins by (simp add: es)
    next
      case False
      then have "push_entries farther es n m = w @ n # butlast d"
        using slide_in [of d w n] m unfolding push by (simp add: es)
      with False m show ?thesis by (simp add: ins butlast_conv_take take_Cons')
    qed
  qed
qed

lemma push_all:
  "foldl (\<lambda>es n. push_entries farther es n m) [] ns = take m (sort_key key ns)"
proof (induction ns rule: rev_induct)
  case Nil
  then show ?case by simp
next
  case (snoc n ns)
  have sorted: "sorted (map key (take m (sort_key key ns)))"
    by (simp add: sorted_wrt_take flip: take_map)
  have "foldl (\<lambda>es n. push_entries farther es n m) [] (ns @ [n]) =
        push_entries farther (take m (sort_key key ns)) n m"
    by (simp add: snoc)
  also have "\<dots> = take m (insert_after key n (take m (sort_key key ns)))"
    by (rule push_entries_insert [OF sorted]) simp
  also have "\<dots> = take m (insert_after key n (sort_key key ns))"
    by (rule take_insert_after_take) simp
  also have "\<dots> = take m (sort_key key (ns @ [n]))"
    by (simp add: insert_all_snoc flip: insert_all_sort_key)
  finally show ?case .
qed

lemma push_keeps:
  assumes "sorted (map key es)" "length es \<le> m"
  shows "sorted (map key (push_entries farther es n m)) \<and> length (push_entries farther es n m) \<le> m \<and>
         set (push_entries farther es n m) \<subseteq> insert n (set es)"
  using sorted_insert_after [OF assms(1), of n] set_take_subset [of m "insert_after key n es"]
  by (auto simp: push_entries_insert [OF assms] sorted_wrt_take simp flip: take_map)

end

interpretation nbd: distance_order "farther_from t" "\<lambda>n. xor_dist t (node_Hash n)" for t
  by unfold_locales (simp add: farther_from_def distcmp_pos)

end
