(* ===== verification/Buckets.thy ===== *)
theory Buckets
  imports Nodes_By_Distance
begin

text \<open>
  The routing table of discover/table.go without its network: 257 buckets of at most 16 nodes,
  indexed by the logarithmic distance to the local node. Insertion at the front (\<^verbatim>\<open>bump\<close>,
  \<^verbatim>\<open>pingreplace\<close>), \<^verbatim>\<open>add\<close>, \<^verbatim>\<open>del\<close>, the search for the closest nodes and the choice of
  random nodes, with the well-formedness every operation keeps.
\<close>

definition alpha :: nat where "alpha = 3"
definition bucketSize :: nat where "bucketSize = 16"
definition hashBits :: nat where "hashBits = 256"
definition nBuckets :: nat where "nBuckets = hashBits + 1"

lemmas table_consts = bucketSize_def nBuckets_def hashBits_def

record bucket =
  lastLookup :: time
  entries :: "node list"

record table =
  buckets :: "bucket list"
  nursery :: "node list"
  self :: node

text \<open>\<^verbatim>\<open>new(bucket)\<close> has the zero time and a nil slice.\<close>

definition new_bucket :: bucket where
  "new_bucket = \<lparr>lastLookup = 0, entries = []\<rparr>"

definition newTable :: "nodeid \<Rightarrow> udpaddr \<Rightarrow> table" where
  "newTable ourID ourAddr =
     \<lparr>buckets = replicate nBuckets new_bucket, nursery = [],
      self = newNode (ua_IP ourAddr) (of_int (ua_Port ourAddr)) (of_int (ua_Port ourAddr)) ourID\<rparr>"

definition bucket_index :: "('a table_scheme) \<Rightarrow> hash \<Rightarrow> nat" where
  "bucket_index tab h = logdist (hash_bytes (node_Hash (self tab))) (hash_bytes h)"

definition update_bucket :: "('a table_scheme) \<Rightarrow> nat \<Rightarrow> (bucket \<Rightarrow> bucket) \<Rightarrow> 'a table_scheme" where
  "update_bucket tab i f = tab\<lparr>buckets := (buckets tab)[i := f (buckets tab ! i)]\<rparr>"

section \<open>Operations\<close>

definition bump :: "bucket \<Rightarrow> node \<Rightarrow> bucket \<times> bool" where
  "bump b n =
     (case first_index (\<lambda>e. node_ID e = node_ID n) (entries b) of
        Some i \<Rightarrow>
          (b\<lparr>entries := (take 1 (entries b) @ go_copy (drop 1 (entries b)) (take i (entries b)))[0 := n]\<rparr>,
           True)
      | None \<Rightarrow> (b, False))"

text \<open>
  \<^verbatim>\<open>pingreplace\<close> with the outcome of pinging the last entry of a full bucket as \<^verbatim>\<open>responds\<close>. The
  appended slot is overwritten by the copy that follows.
\<close>

definition pingreplace :: "bool \<Rightarrow> node \<Rightarrow> bucket \<Rightarrow> bucket" where
  "pingreplace responds n b =
     (if length (entries b) = bucketSize \<and> responds then b
      else
        (let es = (if length (entries b) = bucketSize then entries b else entries b @ [n])
         in b\<lparr>entries := (take 1 es @ go_copy (drop 1 es) es)[0 := n]\<rparr>))"

text \<open>The end of \<^verbatim>\<open>bond\<close>: move the node to the front of its bucket, or try to insert it there.\<close>

definition bond_insert :: "bool \<Rightarrow> node \<Rightarrow> ('a table_scheme) \<Rightarrow> 'a table_scheme" where
  "bond_insert responds n tab =
     update_bucket tab (bucket_index tab (node_Hash n))
       (\<lambda>b. case bump b n of (b', True) \<Rightarrow> b' | (_, False) \<Rightarrow> pingreplace responds n b)"

definition add_one :: "node \<Rightarrow> ('a table_scheme) \<Rightarrow> 'a table_scheme" where
  "add_one n tab =
     (if node_ID n = node_ID (self tab) then tab
      else
        (let i = bucket_index tab (node_Hash n); es = entries (buckets tab ! i) in
         if \<exists>e \<in> set es. node_ID e = node_ID n then tab
         else if length es < bucketSize then update_bucket tab i (\<lambda>b. b\<lparr>entries := entries b @ [n]\<rparr>)
         else tab))"

definition add_nodes :: "node list \<Rightarrow> ('a table_scheme) \<Rightarrow> 'a table_scheme" where
  "add_nodes ns tab = fold add_one ns tab"

definition del_node :: "node \<Rightarrow> ('a table_scheme) \<Rightarrow> 'a table_scheme" where
  "del_node n tab =
     update_bucket tab (bucket_index tab (node_Hash n))
       (\<lambda>b. case first_index (\<lambda>e. node_ID e = node_ID n) (entries b) of
              Some i \<Rightarrow> b\<lparr>entries := take i (entries b) @ drop (Suc i) (entries b)\<rparr>
            | None \<Rightarrow> b)"

definition all_entries :: "('a table_scheme) \<Rightarrow> node list" where
  "all_entries tab = concat (map entries (buckets tab))"

definition closest :: "('a table_scheme) \<Rightarrow> hash \<Rightarrow> nat \<Rightarrow> nodesByDistance" where
  "closest tab target nresults =
     foldl (\<lambda>c b. foldl (\<lambda>c n. push c n nresults) c (entries b))
       \<lparr>nbd_entries = [], nbd_target = target\<rparr> (buckets tab)"

definition table_len :: "('a table_scheme) \<Rightarrow> nat" where
  "table_len tab = foldl (\<lambda>n b. n + length (entries b)) 0 (buckets tab)"

section \<open>Well-formedness\<close>

text \<open>A node whose hash is the hash of its identifier, as \<^verbatim>\<open>newNode\<close> makes it.\<close>

definition node_ok :: "node \<Rightarrow> bool" where
  "node_ok n \<longleftrightarrow> node_Hash n = ByteHash256 (id_bytes (node_ID n))"

definition bucket_ok :: "hash \<Rightarrow> nat \<Rightarrow> bucket \<Rightarrow> bool" where
  "bucket_ok sh i b \<longleftrightarrow>
     length (entries b) \<le> bucketSize \<and> distinct (map node_ID (entries b)) \<and>
     (\<forall>n \<in> set (entries b). node_ok n \<and> logdist (hash_bytes sh) (hash_bytes (node_Hash n)) = i)"

definition table_ok :: "('a table_scheme) \<Rightarrow> bool" where
  "table_ok tab \<longleftrightarrow>
     length (buckets tab) = nBuckets \<and>
     (\<forall>i < nBuckets. bucket_ok (node_Hash (self tab)) i (buckets tab ! i))"

lemma node_ok_newNode [simp]: "node_ok (newNode ip t u i)"
  by (simp add: node_ok_def)

lemma bucket_index_less: "bucket_index tab h < nBuckets"
  using logdist_le [of "node_Hash (self tab)" h] by (simp add: bucket_index_def table_consts)

lemma update_bucket_simps [simp]:
  "self (update_bucket tab i f) = self tab" "length (buckets (update_bucket tab i f)) = length (buckets tab)"
  "nursery (update_bucket tab i f) = nursery tab"
  by (simp_all add: update_bucket_def)

lemma table_ok_update_bucket:
  assumes "table_ok tab"
    and "i < nBuckets \<Longrightarrow> bucket_ok (node_Hash (self tab)) i (buckets tab ! i) \<Longrightarrow>
         bucket_ok (node_Hash (self tab)) i (f (buckets tab ! i))"
  shows "table_ok (update_bucket tab i f)"
proof -
  have "bucket_ok (node_Hash (self tab)) k ((buckets tab)[i := f (buckets tab ! i)] ! k)"
    if "k < nBuckets" for k
    using assms that by (cases "k = i") (simp_all add: table_ok_def)
  with assms(1) show ?thesis by (simp add: table_ok_def update_bucket_def)
qed

lemma newTable_ok: "table_ok (newTable i a)"
  by (simp add: table_ok_def newTable_def bucket_ok_def new_bucket_def)

lemma bump_entries:
  "bump b n =
     (case first_index (\<lambda>e. node_ID e = node_ID n) (entries b) of
        Some i \<Rightarrow> (b\<lparr>entries := n # take i (entries b) @ drop (Suc i) (entries b)\<rparr>, True)
      | None \<Rightarrow> (b, False))"
proof (cases "first_index (\<lambda>e. node_ID e = node_ID n) (entries b)")
  case None
  then show ?thesis by (simp add: bump_def)
next
  case (Some i)
  then have "i < length (entries b)" by (auto dest: first_index_Some)
  then obtain e es where "entries b = e # es" by (cases "entries b") auto
  moreover from this \<open>i < length (entries b)\<close> have "i \<le> length es" by simp
  ultimately show ?thesis
    using Some by (simp add: bump_def go_copy_def min_absorb1 min_absorb2)
qed

lemma bump_ok:
  assumes "bucket_ok sh i b" "node_ok n" "logdist (hash_bytes sh) (hash_bytes (node_Hash n)) = i"
  shows "bucket_ok sh i (fst (bump b n))"
proof (cases "first_index (\<lambda>e. node_ID e = node_ID n) (entries b)")
  case None
  with assms(1) show ?thesis by (simp add: bump_entries)
next
  case (Some k)
  let ?es = "entries b"
  have k: "k < length ?es" "node_ID (?es ! k) = node_ID n" using first_index_Some [OF Some] by auto
  have "distinct (map node_ID (n # take k ?es @ drop (Suc k) ?es))"
    using distinct_map_remove_nth [OF k(1), of node_ID] assms(1) k(2) by (auto simp: bucket_ok_def)
  moreover have "set (n # take k ?es @ drop (Suc k) ?es) \<subseteq> insert n (set ?es)"
    using set_remove_nth_subset [of k ?es] by auto
  ultimately show ?thesis
    using assms k(1) Some by (auto simp: bump_entries bucket_ok_def)
qed

lemma pingreplace_entries:
  "entries (pingreplace responds n b) =
     (if length (entries b) = bucketSize then
        (if responds then entries b else n # butlast (entries b))
      else n # entries b)"
proof -
  have shift: "(take 1 es @ go_copy (drop 1 es) es)[0 := n] = n # butlast es" if "es \<noteq> []" for es
    using that by (cases es) (simp_all add: go_copy_def butlast_conv_take)
  have ne: "length (entries b) = bucketSize \<Longrightarrow> entries b \<noteq> []"
    by (auto simp: bucketSize_def)
  show ?thesis
    using shift [of "entries b @ [n]"] shift [OF ne]
    by (simp add: pingreplace_def Let_def del: One_nat_def take_append drop_append)
qed

lemma pingreplace_ok:
  assumes "bucket_ok sh i b" "node_ok n" "logdist (hash_bytes sh) (hash_bytes (node_Hash n)) = i"
    and "\<forall>e \<in> set (entries b). node_ID e \<noteq> node_ID n"
  shows "bucket_ok sh i (pingreplace responds n b)"
proof -
  have "distinct (map node_ID (butlast (entries b)))"
    using assms(1) by (simp add: bucket_ok_def map_butlast distinct_butlast)
  with assms show ?thesis
    by (auto simp: bucket_ok_def pingreplace_entries bucketSize_def dest: in_set_butlastD)
qed

lemma bond_insert_ok [wf_intros]:
  assumes "table_ok tab" "node_ok n"
  shows "table_ok (bond_insert responds n tab)"
  unfolding bond_insert_def
proof (rule table_ok_update_bucket [OF assms(1)])
  let ?sh = "node_Hash (self tab)"
  let ?i = "bucket_index tab (node_Hash n)"
  let ?b = "buckets tab ! ?i"
  assume b: "bucket_ok ?sh ?i ?b"
  have idx: "logdist (hash_bytes ?sh) (hash_bytes (node_Hash n)) = ?i"
    by (simp add: bucket_index_def)
  show "bucket_ok ?sh ?i (case bump ?b n of (b', True) \<Rightarrow> b' | (_, False) \<Rightarrow> pingreplace responds n ?b)"
  proof (cases "first_index (\<lambda>e. node_ID e = node_ID n) (entries ?b)")
    case None
    then have "\<forall>e \<in> set (entries ?b). node_ID e \<noteq> node_ID n" by (simp add: first_index_None)
    with b assms(2) idx None show ?thesis by (simp add: bump_entries pingreplace_ok)
  next
    case (Some k)
    with bump_ok [OF b assms(2) idx] show ?thesis by (simp add: bump_entries)
  qed
qed

lemma add_one_ok [wf_intros]:
  assumes "table_ok tab" "node_ok n"
  shows "table_ok (add_one n tab)"
proof -
  let ?i = "bucket_index tab (node_Hash n)"
  have "table_ok (update_bucket tab ?i (\<lambda>b. b\<lparr>entries := entries b @ [n]\<rparr>))"
    if "\<forall>e \<in> set (entries (buckets tab ! ?i)). node_ID e \<noteq> node_ID n"
      "length (entries (buckets tab ! ?i)) < bucketSize"
    by (rule table_ok_update_bucket [OF assms(1)])
      (use that assms(2) in \<open>auto simp: bucket_ok_def bucket_index_def\<close>)
  with assms(1) show ?thesis by (auto simp: add_one_def Let_def)
qed

lemma self_add_one [simp]: "self (add_one n tab) = self tab"
  by (simp add: add_one_def Let_def)

lemma add_nodes_ok [wf_intros]:
  "table_ok tab \<Longrightarrow> \<forall>n \<in> set ns. node_ok n \<Longrightarrow> table_ok (add_nodes ns tab)"
  by (induction ns arbitrary: tab) (simp_all add: add_nodes_def add_one_ok)

lemma del_node_ok [wf_intros]:
  assumes "table_ok tab"
  shows "table_ok (del_node n tab)"
  unfolding del_node_def
proof (rule table_ok_update_bucket [OF assms])
  let ?i = "bucket_index tab (node_Hash n)"
  let ?es = "entries (buckets tab ! ?i)"
  assume b: "bucket_ok (node_Hash (self tab)) ?i (buckets tab ! ?i)"
  show "bucket_ok (node_Hash (self tab)) ?i
     (case first_index (\<lambda>e. node_ID e = node_ID n) ?es of
        Some k \<Rightarrow> (buckets tab ! ?i)\<lparr>entries := take k ?es @ drop (Suc k) ?es\<rparr>
      | None \<Rightarrow> buckets tab ! ?i)"
  proof (cases "first_index (\<lambda>e. node_ID e = node_ID n) ?es")
    case None
    with b show ?thesis by simp
  next
    case (Some k)
    then have k: "k < length ?es" by (auto dest: first_index_Some)
    with b Some show ?thesis
      using distinct_map_remove_nth(1) [OF k, of node_ID] set_remove_nth_subset [of k ?es]
      by (auto simp: bucket_ok_def)
  qed
qed

text \<open>The operations as events, for sequences of them.\<close>

datatype table_op = Add "node list" | Del node | Bond bool node

fun table_step :: "table_op \<Rightarrow> ('a table_scheme) \<Rightarrow> 'a table_scheme" where
  "table_step (Add ns) tab = add_nodes (filter node_ok ns) tab"
| "table_step (Del n) tab = del_node n tab"
| "table_step (Bond responds n) tab = (if node_ok n then bond_insert responds n tab else tab)"

interpretation routing: preserving table_ok table_step
proof
  fix s :: "'a table_scheme" and e
  assume "table_ok s"
  then show "table_ok (table_step e s)"
    by (cases e) (simp_all add: wf_intros)
qed

section \<open>No identifier is stored twice\<close>

lemma distinct_concat_map:
  assumes "\<And>i. i < length xss \<Longrightarrow> distinct (map f (xss ! i))"
    and "\<And>i j x y. i < length xss \<Longrightarrow> j < length xss \<Longrightarrow> x \<in> set (xss ! i) \<Longrightarrow> y \<in> set (xss ! j) \<Longrightarrow>
           f x = f y \<Longrightarrow> i = j"
  shows "distinct (map f (concat xss))"
  using assms
proof (induction xss)
  case Nil
  then show ?case by simp
next
  case (Cons xs xss)
  have "distinct (map f (concat xss))"
  proof (rule Cons.IH)
    show "distinct (map f (xss ! i))" if "i < length xss" for i
      using Cons.prems(1) [of "Suc i"] that by simp
    show "i = j" if "i < length xss" "j < length xss" "x \<in> set (xss ! i)" "y \<in> set (xss ! j)" "f x = f y"
      for i j x y
      using Cons.prems(2) [of "Suc i" "Suc j" x y] that by simp
  qed
  moreover have "f x \<noteq> f y" if "x \<in> set xs" "ys \<in> set xss" "y \<in> set ys" for x y ys
    using that Cons.prems(2) [of 0 "Suc j" x y for j] by (auto simp: in_set_conv_nth)
  ultimately show ?case
    using Cons.prems(1) [of 0] by fastforce
qed

lemma table_ids_distinct:
  assumes "table_ok tab"
  shows "distinct (map node_ID (all_entries tab))"
  unfolding all_entries_def
proof (rule distinct_concat_map)
  let ?sh = "node_Hash (self tab)"
  have ok: "bucket_ok ?sh i (buckets tab ! i)" "length (buckets tab) = nBuckets" if "i < length (buckets tab)" for i
    using assms that by (simp_all add: table_ok_def)
  show "distinct (map node_ID (map entries (buckets tab) ! i))" if "i < length (map entries (buckets tab))" for i
    using ok [of i] that by (simp add: bucket_ok_def)
  fix i j x y
  assume "i < length (map entries (buckets tab))" "j < length (map entries (buckets tab))"
    "x \<in> set (map entries (buckets tab) ! i)" "y \<in> set (map entries (buckets tab) ! j)"
    "node_ID x = node_ID y"
  then show "i = j" using ok [of i] ok [of j] by (force simp: bucket_ok_def node_ok_def)
qed

lemma table_entries_bound: "table_ok tab \<Longrightarrow> length (all_entries tab) \<le> nBuckets * bucketSize"
proof -
  assume "table_ok tab"
  then have "\<forall>b \<in> set (buckets tab). length (entries b) \<le> bucketSize" "length (buckets tab) = nBuckets"
    by (auto simp: table_ok_def bucket_ok_def in_set_conv_nth)
  moreover have "\<forall>b \<in> set bs. length (entries b) \<le> m \<Longrightarrow> length (concat (map entries bs)) \<le> length bs * m"
    for bs m by (induction bs) auto
  ultimately show ?thesis unfolding all_entries_def by metis
qed

lemma table_len_eq: "table_len tab = length (all_entries tab)"
proof -
  have "foldl (\<lambda>n b. n + length (entries b)) k bs = k + length (concat (map entries bs))"
    for k and bs :: "bucket list"
    by (induction bs arbitrary: k) simp_all
  then show ?thesis by (simp add: table_len_def all_entries_def)
qed

text \<open>The first bond: a local address for examples, and what the table then holds.\<close>

abbreviation home :: udpaddr where
  "home \<equiv> \<lparr>ua_IP = [127, 0, 0, 1], ua_Port = 9001\<rparr>"

lemma bond_insert_first: "all_entries (bond_insert r n (newTable i a)) = [n]"
proof -
  have "concat (map entries ((replicate k new_bucket)[j := b])) = entries b" if "j < k" for j k b
    using that
  proof (induction k arbitrary: j)
    case (Suc k)
    have "concat (map entries (replicate k new_bucket)) = []" by (induction k) (simp_all add: new_bucket_def)
    with Suc show ?case by (cases j) (simp_all add: new_bucket_def)
  qed simp
  moreover have "entries (case bump new_bucket n of (b', True) \<Rightarrow> b' | (_, False) \<Rightarrow> pingreplace r n new_bucket) = [n]"
    by (simp add: bump_def new_bucket_def pingreplace_entries bucketSize_def)
  ultimately show ?thesis
    using bucket_index_less [of "newTable i a" "node_Hash n"]
    by (simp add: all_entries_def bond_insert_def update_bucket_def newTable_def)
qed

section \<open>Closest nodes\<close>

lemma nbd_target_push [simp]: "nbd_target (push c n m) = nbd_target c"
  by (simp add: push_def)

lemma nbd_target_foldl_push [simp]: "nbd_target (foldl (\<lambda>c n. push c n m) c ns) = nbd_target c"
  by (induction ns arbitrary: c) simp_all

lemma nbd_entries_foldl_push:
  "nbd_entries (foldl (\<lambda>c n. push c n m) c ns) =
     foldl (\<lambda>es n. push_entries (farther_from (nbd_target c)) es n m) (nbd_entries c) ns"
  by (induction ns arbitrary: c) (simp_all add: push_def)

lemma closest_foldl:
  "closest tab target m =
     foldl (\<lambda>c n. push c n m) \<lparr>nbd_entries = [], nbd_target = target\<rparr> (all_entries tab)"
proof -
  have "foldl (\<lambda>c b. foldl (\<lambda>c n. push c n m) c (entries b)) c bs =
        foldl (\<lambda>c n. push c n m) c (concat (map entries bs))" for c bs
    by (induction bs arbitrary: c) simp_all
  then show ?thesis by (simp add: closest_def all_entries_def)
qed

lemma closest_eq:
  "nbd_entries (closest tab target m) = take m (sort_key (\<lambda>n. xor_dist target (node_Hash n)) (all_entries tab))"
  by (simp add: closest_foldl nbd_entries_foldl_push nbd.push_all)

section \<open>Properties\<close>

text \<open>
  C1: \<^verbatim>\<open>closest\<close> is exact. Pushing every node of the table into a bounded list with a binary search
  returns the first \<^verbatim>\<open>m\<close> nodes of the whole table sorted by distance to the target, nearest first.
\<close>

theorem closest_is_sorted_prefix:
  "nbd_entries (closest tab target m) =
     take m (sort_key (\<lambda>n. xor_dist target (node_Hash n)) (all_entries tab))"
  by (rule closest_eq)

text \<open>
  C6: every table reachable from a new one by any sequence of insertions, deletions and bonds is well
  formed: 257 buckets of at most 16 nodes, each node in the bucket of its distance, and no node
  identifier stored twice in the whole table.
\<close>

theorem table_always_ok:
  "table_ok (fold table_step ops (newTable i a)) \<and>
   distinct (map node_ID (all_entries (fold table_step ops (newTable i a)))) \<and>
   table_len (fold table_step ops (newTable i a)) \<le> 257 * 16"
proof -
  have ok: "table_ok (fold table_step ops (newTable i a))"
    by (rule routing.run_inv [OF newTable_ok])
  then show ?thesis
    using table_ids_distinct [OF ok] table_entries_bound [OF ok] by (simp add: table_len_eq table_consts)
qed

end
