(* ===== verification/Random_Nodes.thy ===== *)
theory Random_Nodes
  imports Buckets
begin

text \<open>
  \<^verbatim>\<open>ReadRandomNodes\<close> of discover/table.go: shuffle the non-empty buckets, then deal their heads
  round-robin into the caller's buffer. The random words are an argument; a failed read of the
  random source panics, as in \<^verbatim>\<open>randUint\<close>.
\<close>

definition randUint :: "uint32 option \<Rightarrow> uint32 \<Rightarrow> (unit, uint32) res" where
  "randUint draw mx =
     (if mx = 0 then Ok 0 else case draw of None \<Rightarrow> Panic | Some b \<Rightarrow> Ok (b mod mx))"

text \<open>The shuffle, from the last index down to 1; \<^verbatim>\<open>rnd i\<close> is the draw at loop counter \<^verbatim>\<open>i\<close>.\<close>

fun shuffle :: "(nat \<Rightarrow> uint32 option) \<Rightarrow> nat \<Rightarrow> 'a list \<Rightarrow> (unit, 'a list) res" where
  "shuffle rnd 0 bs = Ok bs"
| "shuffle rnd (Suc i) bs =
     res_bind (randUint (rnd (Suc i)) (of_nat (Suc i))) (\<lambda>j.
       shuffle rnd i (bs[Suc i := bs ! unat j, unat j := bs ! Suc i]))"

text \<open>
  \<^verbatim>\<open>deal k bs j\<close>: the nodes moved while \<^verbatim>\<open>k\<close> slots of the buffer are left, and whether the loop
  stopped because the buckets ran empty.
\<close>

fun deal :: "nat \<Rightarrow> 'n list list \<Rightarrow> nat \<Rightarrow> (unit, 'n list \<times> bool) res" where
  "deal 0 bs j = Ok ([], False)"
| "deal (Suc k) bs j =
     res_bind (index_at bs j) (\<lambda>b.
       res_bind (index_at b 0) (\<lambda>x.
         let bs' = (if length b = 1 then take j bs @ drop (Suc j) bs else bs[j := drop 1 b]) in
         if bs' = [] then Ok ([x], True)
         else res_bind (deal k bs' ((j + 1) mod length bs')) (\<lambda>(xs, br). Ok (x # xs, br))))"

definition ReadRandomNodes ::
  "(nat \<Rightarrow> uint32 option) \<Rightarrow> ('a table_scheme) \<Rightarrow> node option list \<Rightarrow> (unit, node option list \<times> nat) res" where
  "ReadRandomNodes rnd tab buf =
     (let bs = filter (\<lambda>es. length es > 0) (map entries (buckets tab)) in
      if bs = [] then Ok (buf, 0)
      else
        res_bind (shuffle rnd (length bs - 1) bs) (\<lambda>bs'.
        res_bind (deal (length buf) bs' 0) (\<lambda>(xs, br).
          Ok (map Some xs @ drop (length xs) buf, if br then length xs else length buf + 1))))"

section \<open>The shuffle is a permutation\<close>

lemma randUint_less:
  "0 < mx \<Longrightarrow> draw \<noteq> None \<Longrightarrow> \<exists>j. randUint draw mx = Ok j \<and> unat j < unat mx"
  by (auto simp: randUint_def unat_mod word_less_nat_alt unat_gt_0)

lemma shuffle_perm:
  assumes "\<forall>i. rnd i \<noteq> None"
  shows "i < length bs \<Longrightarrow> i < 2 ^ 32 \<Longrightarrow> \<exists>bs'. shuffle rnd i bs = Ok bs' \<and> mset bs' = mset bs"
proof (induction i arbitrary: bs)
  case 0
  then show ?case by simp
next
  case (Suc i)
  have pos: "(0 :: uint32) < of_nat (Suc i)" "unat (of_nat (Suc i) :: uint32) = Suc i"
    using Suc.prems by (simp_all add: word_less_nat_alt unat_of_nat del: of_nat_Suc)
  then obtain j where j: "randUint (rnd (Suc i)) (of_nat (Suc i)) = Ok j" "unat j < Suc i"
    using randUint_less [OF pos(1), of "rnd (Suc i)"] assms by auto
  let ?bs = "bs[Suc i := bs ! unat j, unat j := bs ! Suc i]"
  have "mset ?bs = mset bs" using Suc.prems j by (intro mset_swap) simp_all
  moreover obtain bs' where "shuffle rnd i ?bs = Ok bs'" "mset bs' = mset ?bs"
    using Suc.IH [of ?bs] Suc.prems by auto
  ultimately show ?case using j by simp
qed

section \<open>The deal\<close>

lemma mset_concat_sum_mset: "mset (concat xss) = sum_mset (image_mset mset (mset xss))"
  by (induction xss) simp_all

lemma mset_concat_mset: "mset xss = mset yss \<Longrightarrow> mset (concat xss) = mset (concat yss)"
  by (simp add: mset_concat_sum_mset)

lemma mset_concat_split:
  "j < length bs \<Longrightarrow> mset (concat bs) = mset (bs ! j) + mset (concat (take j bs @ drop (Suc j) bs))"
  by (subst take_drop_Suc_nth [of j bs]) simp_all

lemma mset_concat_update:
  "j < length bs \<Longrightarrow> mset (concat (bs[j := ys])) = mset ys + mset (concat (take j bs @ drop (Suc j) bs))"
  using mset_concat_split [of j "bs[j := ys]"] by simp

lemma deal_spec:
  "bs \<noteq> [] \<Longrightarrow> [] \<notin> set bs \<Longrightarrow> j < length bs \<Longrightarrow>
   \<exists>xs. deal k bs j = Ok (xs, length (concat bs) \<le> k) \<and> mset xs \<subseteq># mset (concat bs) \<and>
        length xs = min k (length (concat bs))"
proof (induction k arbitrary: bs j)
  case 0
  then have "concat bs \<noteq> []" by (cases bs) auto
  then show ?case by simp
next
  case (Suc k)
  obtain x rest where b: "bs ! j = x # rest"
    using Suc.prems by (metis list.exhaust nth_mem)
  define bs' where "bs' = (if rest = [] then take j bs @ drop (Suc j) bs else bs[j := rest])"
  have total: "mset (concat bs) = add_mset x (mset (concat bs'))"
    using mset_concat_split [OF Suc.prems(3)] mset_concat_update [OF Suc.prems(3), of rest] b
    by (simp add: bs'_def)
  then have len: "length (concat bs) = Suc (length (concat bs'))"
    by (metis size_add_mset size_mset)
  have step: "deal (Suc k) bs j =
      (if bs' = [] then Ok ([x], True)
       else res_bind (deal k bs' ((j + 1) mod length bs')) (\<lambda>(xs, br). Ok (x # xs, br)))"
    using Suc.prems(3) b by (simp add: index_at_def bs'_def Let_def)
  have ne: "[] \<notin> set bs'"
    using Suc.prems(2) set_update_subset_insert [of bs j rest] set_remove_nth_subset [of j bs]
    by (auto simp: bs'_def)
  show ?case
  proof (cases "bs' = []")
    case True
    with step len total show ?thesis by (intro exI [of _ "[x]"]) simp
  next
    case False
    then have "(j + 1) mod length bs' < length bs'" by simp
    then obtain xs where
      "deal k bs' ((j + 1) mod length bs') = Ok (xs, length (concat bs') \<le> k)"
      "mset xs \<subseteq># mset (concat bs')" "length xs = min k (length (concat bs'))"
      using Suc.IH [OF False ne] by blast
    with False step total len show ?thesis by (intro exI [of _ "x # xs"]) simp
  qed
qed

lemma mset_concat_filter_nonempty: "concat (filter (\<lambda>es. length es > 0) xss) = concat xss"
  by (induction xss) auto

lemma subset_mset_map_distinct:
  assumes "mset xs \<subseteq># mset ys" "distinct (map f ys)"
  shows "distinct (map f xs)"
proof -
  obtain zs where "mset ys = mset xs + mset zs"
    using assms(1) by (metis ex_mset mset_subset_eq_exists_conv)
  then have "mset (map f ys) = mset (map f xs @ map f zs)" by simp
  then have "distinct (map f xs @ map f zs)"
    using assms(2) mset_eq_imp_distinct_iff by blast
  then show ?thesis by simp
qed

lemma ReadRandomNodes_spec:
  assumes "table_ok tab" "\<forall>i. rnd i \<noteq> None"
  shows "\<exists>xs. ReadRandomNodes rnd tab buf =
           Ok (map Some xs @ drop (length xs) buf,
               if table_len tab \<le> length buf then table_len tab else length buf + 1) \<and>
         length xs = min (length buf) (table_len tab) \<and>
         mset xs \<subseteq># mset (all_entries tab) \<and> distinct (map node_ID xs)"
proof -
  define bs where "bs = filter (\<lambda>es. length es > 0) (map entries (buckets tab))"
  have all: "concat bs = all_entries tab"
    by (simp only: bs_def mset_concat_filter_nonempty all_entries_def)
  show ?thesis
  proof (cases "bs = []")
    case True
    then have "table_len tab = 0" using all by (simp add: table_len_eq)
    with True show ?thesis unfolding ReadRandomNodes_def bs_def [symmetric] by simp
  next
    case False
    have "length bs \<le> nBuckets"
      using assms(1) length_filter_le [of "\<lambda>es. length es > 0" "map entries (buckets tab)"]
      by (simp add: bs_def table_ok_def)
    then have "length bs - 1 < length bs" "length bs - 1 < 2 ^ 32"
      using False by (simp_all add: table_consts)
    then obtain bs' where sh: "shuffle rnd (length bs - 1) bs = Ok bs'" "mset bs' = mset bs"
      using shuffle_perm [OF assms(2), of "length bs - 1" bs] by auto
    have tot: "mset (concat bs') = mset (all_entries tab)"
      using mset_concat_mset [OF sh(2)] all by simp
    have "bs' \<noteq> []" "[] \<notin> set bs'" "0 < length bs'"
      using False sh(2) mset_eq_setD [OF sh(2)] by (auto simp: bs_def)
    then obtain xs where
      "deal (length buf) bs' 0 = Ok (xs, length (concat bs') \<le> length buf)"
      "mset xs \<subseteq># mset (concat bs')" "length xs = min (length buf) (length (concat bs'))"
      using deal_spec [of bs' 0 "length buf"] by auto
    moreover have "length (concat bs') = table_len tab"
      using tot by (metis size_mset table_len_eq)
    ultimately show ?thesis
      using sh(1) False tot subset_mset_map_distinct [OF _ table_ids_distinct [OF assms(1)], of xs]
      unfolding ReadRandomNodes_def bs_def [symmetric] by (intro exI [of _ xs]) (auto simp: min_def)
  qed
qed

section \<open>Properties\<close>

text \<open>
  C21: on a well-formed table and with a working random source, \<^verbatim>\<open>ReadRandomNodes\<close> never indexes out of
  range, writes as many nodes as fit, all of them from the table and none twice. The count it returns
  is right when the table fits in the buffer; otherwise it is one more than the buffer's length.
\<close>

theorem random_nodes_written:
  assumes "table_ok tab" "\<forall>i. rnd i \<noteq> None"
  shows "\<exists>xs. ReadRandomNodes rnd tab buf =
           Ok (map Some xs @ drop (length xs) buf,
               if table_len tab \<le> length buf then table_len tab else length buf + 1) \<and>
         length xs = min (length buf) (table_len tab) \<and>
         mset xs \<subseteq># mset (all_entries tab) \<and> distinct (map node_ID xs)"
  by (rule ReadRandomNodes_spec [OF assms])

text \<open>A table with one node and a buffer with two slots.\<close>

theorem random_nodes_written_witness:
  "ReadRandomNodes (\<lambda>_. Some 7) (bond_insert True (newNode [10, 0, 0, 1] 1 1 (id_of [1])) (newTable (id_of []) home))
     [None, None] = Ok ([Some (newNode [10, 0, 0, 1] 1 1 (id_of [1])), None], 1)"
proof -
  let ?n = "newNode [10, 0, 0, 1] 1 1 (id_of [1])"
  let ?tab = "bond_insert True ?n (newTable (id_of []) home)"
  have "table_ok ?tab" by (intro bond_insert_ok newTable_ok) simp
  then obtain xs where
    "ReadRandomNodes (\<lambda>_. Some 7) ?tab [None, None] = Ok (map Some xs @ drop (length xs) [None, None],
        if table_len ?tab \<le> length [None, None] then table_len ?tab else length [None, None] + 1)"
    "length xs = min (length [None, None]) (table_len ?tab)" "mset xs \<subseteq># mset (all_entries ?tab)"
    using random_nodes_written [of ?tab "\<lambda>_. Some 7" "[None, None]"] by auto
  moreover from this have "xs = [?n]"
    by (cases xs) (auto simp: table_len_eq bond_insert_first)
  ultimately show ?thesis by (simp add: table_len_eq bond_insert_first)
qed

end
