(* ===== verification/Dial.thy ===== *)
theory Dial
  imports Go_Heap Peer Random_Nodes "HOL-Library.AList"
begin

text \<open>
  dial.go: the dial scheduler. Go maps are association lists with distinct keys; the order in which
  Go ranges over the static nodes is an argument. \<^verbatim>\<open>ReadRandomNodes\<close> is called through the interface
  \<^verbatim>\<open>discoverTable\<close> and so is an argument too; the routing table's model provides what is required of it.
\<close>

definition dialHistoryExpiration :: time where "dialHistoryExpiration = 30 * second"
definition lookupInterval :: time where "lookupInterval = 4 * second"

section \<open>The dial history\<close>

record pastDial =
  pd_id :: nodeid
  pd_exp :: time

type_synonym dialHistory = "pastDial list"

definition hist_add :: "nodeid \<Rightarrow> time \<Rightarrow> dialHistory \<Rightarrow> dialHistory" where
  "hist_add nid e h = heap_Push pd_exp \<lparr>pd_id = nid, pd_exp = e\<rparr> h"

definition hist_contains :: "nodeid \<Rightarrow> dialHistory \<Rightarrow> bool" where
  "hist_contains nid h = list_ex (\<lambda>v. pd_id v = nid) h"

lemma length_heap_Pop [simp]: "length (snd (heap_Pop key h)) \<le> length h - 1"
  by (simp add: heap_Pop_def Let_def)

function hist_expire :: "time \<Rightarrow> dialHistory \<Rightarrow> dialHistory" where
  "hist_expire now h =
     (if length h > 0 \<and> pd_exp (h ! 0) < now then hist_expire now (snd (heap_Pop pd_exp h)) else h)"
  by pat_completeness auto
termination
  by (relation "measure (\<lambda>(now, h). length h)")
    (auto intro!: le_less_trans [OF length_heap_Pop])

declare hist_expire.simps [simp del]

text \<open>Expiry is a heap again and keeps exactly the entries that are not over yet.\<close>

lemma hist_expire_heap:
  "heap_inv pd_exp h \<Longrightarrow> heap_inv pd_exp (hist_expire now h) \<and>
   mset (hist_expire now h) = filter_mset (\<lambda>d. \<not> pd_exp d < now) (mset h)"
proof (induction now h rule: hist_expire.induct)
  case (1 now h)
  show ?case
  proof (cases "length h > 0 \<and> pd_exp (h ! 0) < now")
    case True
    then have ne: "mset h \<noteq> {#}" by auto
    have "hist_expire now h = hist_expire now (snd (heap_Pop pd_exp h))"
      using True by (simp add: hist_expire.simps [of now h])
    then show ?thesis
      using 1(1) [OF True go_heap.pop_inv [OF 1(2) ne]] go_heap.filter_pop [OF 1(2) ne, of now] True
      by simp
  next
    case False
    then have "hist_expire now h = h" by (subst hist_expire.simps) auto
    then show ?thesis using go_heap.filter_keep_all [OF 1(2), of now] 1(2) False by auto
  qed
qed

lemma set_hist_expire:
  "heap_inv pd_exp h \<Longrightarrow> set (hist_expire now h) = {d \<in> set h. \<not> pd_exp d < now}"
  using hist_expire_heap [of h now] by (metis set_mset_filter set_mset_mset)

section \<open>Tasks and the dial state\<close>

text \<open>Go's division by two rounds towards zero.\<close>

definition quot2 :: "int \<Rightarrow> int" where
  "quot2 i = (if i < 0 then - (- i div 2) else i div 2)"

datatype task =
    Dialtask int node
  | DiscoverTask bool "node list"
  | WaitExpireTask time

record dialstate =
  ds_static :: "(nodeid \<times> node) list"
  ds_maxDynDials :: int
  ds_dialing :: "(nodeid \<times> int) list"
  ds_lookupBuf :: "node list"
  ds_lookupRunning :: bool
  ds_bootstrapped :: bool
  ds_randomNodes :: "node option list"
  ds_hist :: dialHistory

type_synonym peermap = "(nodeid \<times> peer) list"

definition addStatic :: "node \<Rightarrow> dialstate \<Rightarrow> dialstate" where
  "addStatic n ds = ds\<lparr>ds_static := AList.update (node_ID n) n (ds_static ds)\<rparr>"

definition removeStatic :: "nodeid \<Rightarrow> dialstate \<Rightarrow> dialstate" where
  "removeStatic nid ds = ds\<lparr>ds_static := AList.delete nid (ds_static ds)\<rparr>"

definition newDialState :: "node list \<Rightarrow> int \<Rightarrow> (unit, dialstate) res" where
  "newDialState static maxdyn =
     (if quot2 maxdyn < 0 then Panic
      else Ok (fold addStatic static
        \<lparr>ds_static = [], ds_maxDynDials = maxdyn, ds_dialing = [], ds_lookupBuf = [],
         ds_lookupRunning = False, ds_bootstrapped = False,
         ds_randomNodes = replicate (nat (quot2 maxdyn)) None, ds_hist = []\<rparr>))"

definition addDial ::
  "peermap \<Rightarrow> int \<Rightarrow> node \<Rightarrow> dialstate \<times> task list \<Rightarrow> bool \<times> dialstate \<times> task list" where
  "addDial peers flag n = (\<lambda>(ds, tasks).
     if map_of (ds_dialing ds) (node_ID n) \<noteq> None \<or> map_of peers (node_ID n) \<noteq> None \<or>
        hist_contains (node_ID n) (ds_hist ds)
     then (False, ds, tasks)
     else (True, ds\<lparr>ds_dialing := AList.update (node_ID n) flag (ds_dialing ds)\<rparr>,
           tasks @ [Dialtask flag n]))"

text \<open>The dynamic dials still allowed, after counting dynamic peers and dynamic dials under way.\<close>

definition dyn_peers :: "peermap \<Rightarrow> nat" where
  "dyn_peers peers = length (filter (\<lambda>(_, p). peer_Is p flagDynamic) peers)"

definition dyn_dialing :: "dialstate \<Rightarrow> nat" where
  "dyn_dialing ds = length (filter (\<lambda>(_, flag). flag AND flagDynamic \<noteq> 0) (ds_dialing ds))"

definition needDyn :: "peermap \<Rightarrow> dialstate \<Rightarrow> int" where
  "needDyn peers ds = ds_maxDynDials ds - int (dyn_peers peers) - int (dyn_dialing ds)"

text \<open>The three loops of \<^verbatim>\<open>newTasks\<close>: over the static nodes, the random nodes and the lookup buffer.\<close>

fun dial_static :: "peermap \<Rightarrow> (nodeid \<times> node) list \<Rightarrow> dialstate \<times> task list \<Rightarrow> dialstate \<times> task list" where
  "dial_static peers [] st = st"
| "dial_static peers ((_, n) # ns) st =
     dial_static peers ns (snd (addDial peers (flagOutbound OR flagStatic) n st))"

fun dial_random ::
  "peermap \<Rightarrow> node option list \<Rightarrow> nat list \<Rightarrow> int \<Rightarrow> dialstate \<times> task list \<Rightarrow>
   (unit, int \<times> dialstate \<times> task list) res" where
  "dial_random peers nodes [] need st = Ok (need, st)"
| "dial_random peers nodes (i # is) need st =
     res_bind (index_at nodes i) (\<lambda>x.
       case x of None \<Rightarrow> Panic
       | Some n \<Rightarrow>
           (let (added, st1) = addDial peers (flagOutbound OR flagDynamic) n st
            in dial_random peers nodes is (if added then need - 1 else need) st1))"

fun dial_lookup ::
  "peermap \<Rightarrow> node list \<Rightarrow> int \<Rightarrow> dialstate \<times> task list \<Rightarrow> node list \<times> int \<times> dialstate \<times> task list" where
  "dial_lookup peers [] need st = ([], need, st)"
| "dial_lookup peers (n # ns) need st =
     (if need > 0
      then let (added, st1) = addDial peers (flagOutbound OR flagDynamic) n st
           in dial_lookup peers ns (if added then need - 1 else need) st1
      else (n # ns, need, st))"

definition newTasks ::
  "(node option list \<Rightarrow> (unit, node option list \<times> nat) res) \<Rightarrow> (nodeid \<times> node) list \<Rightarrow> nat \<Rightarrow>
   peermap \<Rightarrow> time \<Rightarrow> dialstate \<Rightarrow> (unit, task list \<times> dialstate) res" where
  "newTasks readRandomNodes order nRunning peers now ds =
     (let need0 = needDyn peers ds;
          ds0 = ds\<lparr>ds_hist := hist_expire now (ds_hist ds)\<rparr>;
          st1 = dial_static peers order (ds0, []);
          randomCandidates = quot2 need0
      in res_bind
           (if randomCandidates > 0 \<and> ds_bootstrapped ds then
              res_bind (readRandomNodes (ds_randomNodes ds)) (\<lambda>(buf, n).
                dial_random peers buf [0..<min (nat randomCandidates) n] need0
                  ((fst st1)\<lparr>ds_randomNodes := buf\<rparr>, snd st1))
            else Ok (need0, st1))
           (\<lambda>(need1, st2).
              let (rest, need2, ds3, tasks3) = dial_lookup peers (ds_lookupBuf ds) need1 st2;
                  ds4 = ds3\<lparr>ds_lookupBuf := rest\<rparr>;
                  (ds5, tasks5) =
                    (if int (length rest) < need2 \<and> \<not> ds_lookupRunning ds4
                     then (ds4\<lparr>ds_lookupRunning := True\<rparr>,
                           tasks3 @ [DiscoverTask (\<not> ds_bootstrapped ds4) []])
                     else (ds4, tasks3));
                  tasks6 =
                    (if nRunning = 0 \<and> length tasks5 = 0 \<and> length (ds_hist ds5) > 0
                     then tasks5 @ [WaitExpireTask (pd_exp (ds_hist ds5 ! 0) - now)]
                     else tasks5)
              in Ok (tasks6, ds5)))"

fun taskDone :: "task \<Rightarrow> time \<Rightarrow> dialstate \<Rightarrow> dialstate" where
  "taskDone (DiscoverTask bootstrap result) now ds =
     (let ds1 = (if bootstrap then ds\<lparr>ds_bootstrapped := True\<rparr> else ds)
      in ds1\<lparr>ds_lookupRunning := False, ds_lookupBuf := ds_lookupBuf ds1 @ result\<rparr>)"
| "taskDone (Dialtask flag dest) now ds =
     ds\<lparr>ds_hist := hist_add (node_ID dest) (now + dialHistoryExpiration) (ds_hist ds),
        ds_dialing := AList.delete (node_ID dest) (ds_dialing ds)\<rparr>"
| "taskDone (WaitExpireTask d) now ds = ds"

section \<open>What the loops add\<close>

text \<open>
  \<^verbatim>\<open>dials peers ds ns ds'\<close>: going from \<^verbatim>\<open>ds\<close> to \<^verbatim>\<open>ds'\<close>, exactly the flagged nodes \<^verbatim>\<open>ns\<close> were put under dial,
  none of them twice and none that is a peer, under dial or in the history.
\<close>

definition dial_id :: "int \<times> node \<Rightarrow> nodeid" where
  "dial_id fn = node_ID (snd fn)"

definition fresh :: "peermap \<Rightarrow> (nodeid \<times> int) list \<Rightarrow> dialHistory \<Rightarrow> (int \<times> node) list \<Rightarrow> bool" where
  "fresh peers dialing hist ns \<longleftrightarrow>
     distinct (map dial_id ns) \<and>
     (\<forall>fn \<in> set ns. dial_id fn \<notin> fst ` set dialing \<and> dial_id fn \<notin> fst ` set peers \<and>
        \<not> hist_contains (dial_id fn) hist)"

definition under_dial :: "(int \<times> node) list \<Rightarrow> (nodeid \<times> int) list" where
  "under_dial ns = map (\<lambda>fn. (dial_id fn, fst fn)) ns"

definition dials :: "peermap \<Rightarrow> dialstate \<Rightarrow> (int \<times> node) list \<Rightarrow> dialstate \<Rightarrow> bool" where
  "dials peers ds ns ds' \<longleftrightarrow>
     ds' = ds\<lparr>ds_dialing := ds_dialing ds @ under_dial ns\<rparr> \<and> fresh peers (ds_dialing ds) (ds_hist ds) ns"

lemma under_dial [simp]:
  "under_dial [] = []" "under_dial (ns @ ms) = under_dial ns @ under_dial ms"
  "fst ` set (under_dial ns) = dial_id ` set ns" "map fst (under_dial ns) = map dial_id ns"
  by (auto simp: under_dial_def image_image)

abbreviation dial_tasks :: "(int \<times> node) list \<Rightarrow> task list" where
  "dial_tasks ns \<equiv> map (\<lambda>(f, n). Dialtask f n) ns"

lemma dials_Nil [simp]: "dials peers ds [] ds"
  by (simp add: dials_def fresh_def)

lemma dials_append:
  assumes "dials peers ds ns ds1" "dials peers ds1 ms ds2"
  shows "dials peers ds (ns @ ms) ds2"
proof -
  have disj: "dial_id fn \<notin> dial_id ` set ns" if "fn \<in> set ms" for fn
    using assms that by (auto simp: dials_def fresh_def image_Un)
  then have "dial_id ` set ns \<inter> dial_id ` set ms = {}"
    unfolding disjoint_iff image_iff by blast
  then show ?thesis using assms by (auto simp: dials_def fresh_def)
qed

lemma AList_update_fresh: "k \<notin> fst ` set xs \<Longrightarrow> AList.update k v xs = xs @ [(k, v)]"
  by (induction xs) auto

lemma addDial_cases:
  obtains ds1 where "addDial peers flag n (ds, ts) = (True, ds1, ts @ [Dialtask flag n])"
      "dials peers ds [(flag, n)] ds1"
  | "addDial peers flag n (ds, ts) = (False, ds, ts)"
proof (cases "map_of (ds_dialing ds) (node_ID n) \<noteq> None \<or> map_of peers (node_ID n) \<noteq> None \<or>
        hist_contains (node_ID n) (ds_hist ds)")
  case True
  then show thesis using that(2) by (simp add: addDial_def)
next
  case False
  then have "node_ID n \<notin> fst ` set (ds_dialing ds)" "node_ID n \<notin> fst ` set peers"
    "\<not> hist_contains (node_ID n) (ds_hist ds)"
    by (simp_all add: map_of_eq_None_iff)
  with False show thesis
    using that(1) [of "ds\<lparr>ds_dialing := AList.update (node_ID n) flag (ds_dialing ds)\<rparr>"]
    by (simp add: addDial_def dials_def fresh_def under_dial_def dial_id_def AList_update_fresh)
qed

lemma dial_static_dials:
  "\<exists>ns ds1. dial_static peers order (ds, ts) = (ds1, ts @ dial_tasks ns) \<and> dials peers ds ns ds1 \<and>
     (\<forall>fn \<in> set ns. fst fn = flagOutbound OR flagStatic \<and> snd fn \<in> snd ` set order)"
proof (induction order arbitrary: ds ts)
  case Nil
  show ?case by (intro exI [of _ "[]"]) simp
next
  case (Cons kn order)
  obtain k n where kn: "kn = (k, n)" by (cases kn)
  show ?case
  proof (rule addDial_cases [of peers "flagOutbound OR flagStatic" n ds ts])
    fix ds1
    assume a: "addDial peers (flagOutbound OR flagStatic) n (ds, ts) =
        (True, ds1, ts @ [Dialtask (flagOutbound OR flagStatic) n])"
      and d: "dials peers ds [(flagOutbound OR flagStatic, n)] ds1"
    obtain ns ds2 where "dial_static peers order (ds1, ts @ [Dialtask (flagOutbound OR flagStatic) n]) =
        (ds2, (ts @ [Dialtask (flagOutbound OR flagStatic) n]) @ dial_tasks ns)"
      "dials peers ds1 ns ds2"
      "\<forall>fn \<in> set ns. fst fn = flagOutbound OR flagStatic \<and> snd fn \<in> snd ` set order"
      using Cons.IH by blast
    with a dials_append [OF d] show ?thesis
      by (intro exI [of _ "(flagOutbound OR flagStatic, n) # ns"] exI [of _ ds2]) (auto simp: kn)
  next
    assume "addDial peers (flagOutbound OR flagStatic) n (ds, ts) = (False, ds, ts)"
    moreover obtain ns ds2 where "dial_static peers order (ds, ts) = (ds2, ts @ dial_tasks ns)"
      "dials peers ds ns ds2"
      "\<forall>fn \<in> set ns. fst fn = flagOutbound OR flagStatic \<and> snd fn \<in> snd ` set order"
      using Cons.IH by blast
    ultimately show ?thesis by (intro exI [of _ ns] exI [of _ ds2]) (auto simp: kn)
  qed
qed

abbreviation dynFlag :: int where "dynFlag \<equiv> flagOutbound OR flagDynamic"

lemma dial_random_dials:
  assumes "\<forall>i \<in> set is. i < length buf \<and> buf ! i \<noteq> None"
  shows "\<exists>ns ds1. dial_random peers buf is need (ds, ts) =
      Ok (need - int (length ns), ds1, ts @ dial_tasks ns) \<and> dials peers ds ns ds1 \<and>
      length ns \<le> length is \<and> (\<forall>fn \<in> set ns. fst fn = dynFlag)"
  using assms
proof (induction "is" arbitrary: ds ts need)
  case Nil
  show ?case by (intro exI [of _ "[]"]) simp
next
  case (Cons i "is")
  then obtain n where n: "i < length buf" "buf ! i = Some n" by auto
  have rest: "\<forall>i \<in> set is. i < length buf \<and> buf ! i \<noteq> None" using Cons.prems by simp
  show ?case
  proof (rule addDial_cases [of peers dynFlag n ds ts])
    fix ds1
    assume a: "addDial peers dynFlag n (ds, ts) = (True, ds1, ts @ [Dialtask dynFlag n])"
      and d: "dials peers ds [(dynFlag, n)] ds1"
    obtain ns ds2 where "dial_random peers buf is (need - 1) (ds1, ts @ [Dialtask dynFlag n]) =
        Ok (need - 1 - int (length ns), ds2, (ts @ [Dialtask dynFlag n]) @ dial_tasks ns)"
      "dials peers ds1 ns ds2" "length ns \<le> length is" "\<forall>fn \<in> set ns. fst fn = dynFlag"
      using Cons.IH [OF rest] by blast
    with a dials_append [OF d] n show ?thesis
      by (intro exI [of _ "(dynFlag, n) # ns"] exI [of _ ds2]) (simp add: index_at_def)
  next
    assume a: "addDial peers dynFlag n (ds, ts) = (False, ds, ts)"
    obtain ns ds2 where "dial_random peers buf is need (ds, ts) =
        Ok (need - int (length ns), ds2, ts @ dial_tasks ns)"
      "dials peers ds ns ds2" "length ns \<le> length is" "\<forall>fn \<in> set ns. fst fn = dynFlag"
      using Cons.IH [OF rest] by blast
    with a n show ?thesis by (intro exI [of _ ns] exI [of _ ds2]) (simp add: index_at_def)
  qed
qed

lemma dial_lookup_dials:
  "\<exists>ns rest ds1. dial_lookup peers buf need (ds, ts) =
      (rest, need - int (length ns), ds1, ts @ dial_tasks ns) \<and> dials peers ds ns ds1 \<and>
      int (length ns) \<le> max 0 need \<and> (\<forall>fn \<in> set ns. fst fn = dynFlag \<and> snd fn \<in> set buf) \<and>
      (\<exists>k. rest = drop k buf) \<and> (rest \<noteq> [] \<longrightarrow> need - int (length ns) \<le> 0)"
proof (induction buf arbitrary: ds ts need)
  case Nil
  show ?case by (intro exI [of _ "[]"] exI [of _ ds]) simp
next
  case (Cons n buf)
  show ?case
  proof (cases "need > 0")
    case False
    then show ?thesis
      by (intro exI [of _ "[]"] exI [of _ "n # buf"] exI [of _ ds]) (auto intro: exI [of _ 0])
  next
    case True
    show ?thesis
    proof (rule addDial_cases [of peers dynFlag n ds ts])
      fix ds1
      assume a: "addDial peers dynFlag n (ds, ts) = (True, ds1, ts @ [Dialtask dynFlag n])"
        and d: "dials peers ds [(dynFlag, n)] ds1"
      obtain ns rest ds2 k where "dial_lookup peers buf (need - 1) (ds1, ts @ [Dialtask dynFlag n]) =
          (rest, need - 1 - int (length ns), ds2, (ts @ [Dialtask dynFlag n]) @ dial_tasks ns)"
        "dials peers ds1 ns ds2" "int (length ns) \<le> max 0 (need - 1)"
        "\<forall>fn \<in> set ns. fst fn = dynFlag \<and> snd fn \<in> set buf" "rest = drop k buf"
        "rest \<noteq> [] \<longrightarrow> need - 1 - int (length ns) \<le> 0"
        using Cons.IH [of "need - 1" ds1] by blast
      with a dials_append [OF d] True show ?thesis
        by (intro exI [of _ "(dynFlag, n) # ns"] exI [of _ rest] exI [of _ ds2])
          (auto intro: exI [of _ "Suc k"])
    next
      assume a: "addDial peers dynFlag n (ds, ts) = (False, ds, ts)"
      obtain ns rest ds2 k where "dial_lookup peers buf need (ds, ts) =
          (rest, need - int (length ns), ds2, ts @ dial_tasks ns)"
        "dials peers ds ns ds2" "int (length ns) \<le> max 0 need"
        "\<forall>fn \<in> set ns. fst fn = dynFlag \<and> snd fn \<in> set buf" "rest = drop k buf"
        "rest \<noteq> [] \<longrightarrow> need - int (length ns) \<le> 0"
        using Cons.IH [of need ds ts] by blast
      with a True show ?thesis
        by (intro exI [of _ ns] exI [of _ rest] exI [of _ ds2]) (auto intro: exI [of _ "Suc k"])
    qed
  qed
qed

section \<open>One round of the scheduler\<close>

definition dial_ok :: "dialstate \<Rightarrow> bool" where
  "dial_ok ds \<longleftrightarrow>
     heap_inv pd_exp (ds_hist ds) \<and> distinct (map fst (ds_dialing ds)) \<and>
     length (ds_randomNodes ds) = nat (quot2 (ds_maxDynDials ds))"

lemma quot2_mono: "i \<le> j \<Longrightarrow> quot2 i \<le> quot2 j"
  by (simp add: quot2_def) linarith

lemma quot2_le: "0 < quot2 i \<Longrightarrow> quot2 i \<le> i"
  by (simp add: quot2_def split: if_splits)

lemma lookupRunning_if:
  "(if b then ds\<lparr>ds_lookupRunning := True\<rparr> else ds) = ds\<lparr>ds_lookupRunning := b \<or> ds_lookupRunning ds\<rparr>"
  for ds :: dialstate
  by simp

lemma needDyn_le: "needDyn peers ds \<le> ds_maxDynDials ds"
  by (simp add: needDyn_def)

text \<open>After the static loop every static node is connected, under dial or in the history.\<close>

definition accounted :: "peermap \<Rightarrow> dialstate \<Rightarrow> node \<Rightarrow> bool" where
  "accounted peers ds n \<longleftrightarrow>
     node_ID n \<in> fst ` set (ds_dialing ds) \<or> node_ID n \<in> fst ` set peers \<or>
     hist_contains (node_ID n) (ds_hist ds)"

lemma accounted_addDial: "accounted peers (fst (snd (addDial peers flag n (ds, ts)))) n"
  by (auto simp: addDial_def accounted_def map_of_eq_None_iff dom_update)

lemma accounted_dials: "dials peers ds ns ds1 \<Longrightarrow> accounted peers ds n \<Longrightarrow> accounted peers ds1 n"
  by (auto simp: dials_def accounted_def)

lemma dial_static_accounted:
  "(k, n) \<in> set order \<Longrightarrow> accounted peers (fst (dial_static peers order (ds, ts))) n"
proof (induction order arbitrary: ds ts)
  case (Cons kn order)
  obtain k' m where kn: "kn = (k', m)" by (cases kn)
  obtain ds1 ts1 where a: "snd (addDial peers (flagOutbound OR flagStatic) m (ds, ts)) = (ds1, ts1)"
    by (cases "snd (addDial peers (flagOutbound OR flagStatic) m (ds, ts))")
  obtain ns ds2 where d: "dial_static peers order (ds1, ts1) = (ds2, ts1 @ dial_tasks ns)"
    "dials peers ds1 ns ds2"
    using dial_static_dials by blast
  show ?case
  proof (cases "(k, n) \<in> set order")
    case True
    then show ?thesis using Cons.IH a by (simp add: kn)
  next
    case False
    then have "accounted peers ds1 n"
      using Cons.prems accounted_addDial [of peers "flagOutbound OR flagStatic" m ds ts] a by (simp add: kn)
    then show ?thesis using accounted_dials [OF d(2)] a d(1) by (simp add: kn)
  qed
qed simp

text \<open>
  What one round does: \<^verbatim>\<open>ns\<close> are the static nodes it dials, \<^verbatim>\<open>ms\<close> the dynamic ones, \<^verbatim>\<open>extra\<close> the lookup or
  wait task it adds.
\<close>

definition round_result ::
  "(nodeid \<times> node) list \<Rightarrow> nat \<Rightarrow> peermap \<Rightarrow> time \<Rightarrow> dialstate \<Rightarrow>
   (int \<times> node) list \<Rightarrow> (int \<times> node) list \<Rightarrow> task list \<Rightarrow> dialstate \<Rightarrow> bool" where
  "round_result order nRunning peers now ds ns ms extra ds' \<longleftrightarrow>
     (let H = hist_expire now (ds_hist ds) in
      (\<exists>buf rest lr. ds' = ds\<lparr>ds_hist := H, ds_dialing := ds_dialing ds @ under_dial (ns @ ms),
           ds_randomNodes := buf, ds_lookupBuf := rest, ds_lookupRunning := lr\<rparr> \<and>
         length buf = length (ds_randomNodes ds)) \<and>
      fresh peers (ds_dialing ds) H (ns @ ms) \<and>
      (\<forall>fn \<in> set ns. fst fn = flagOutbound OR flagStatic \<and> snd fn \<in> snd ` set order) \<and>
      (\<forall>fn \<in> set ms. fst fn = dynFlag) \<and> int (length ms) \<le> max 0 (needDyn peers ds) \<and>
      (\<forall>(k, n) \<in> set order. node_ID n \<in> fst ` set (ds_dialing ds) \<union> dial_id ` set ns \<union> fst ` set peers \<or>
         hist_contains (node_ID n) H) \<and>
      (extra = [] \<and> \<not> (nRunning = 0 \<and> ns = [] \<and> ms = [] \<and> H \<noteq> []) \<or>
       extra = [DiscoverTask (\<not> ds_bootstrapped ds) []] \<and> ds_lookupRunning ds' \<and> \<not> ds_lookupRunning ds \<or>
       extra = [WaitExpireTask (pd_exp (H ! 0) - now)] \<and> nRunning = 0 \<and> ns = [] \<and> ms = [] \<and> H \<noteq> []))"

text \<open>What the scheduler requires of the table's \<^verbatim>\<open>ReadRandomNodes\<close>: the entries it claims to have written are nodes.\<close>

locale random_nodes =
  fixes ready :: "'s \<Rightarrow> bool"
    and read :: "'s \<Rightarrow> node option list \<Rightarrow> (unit, node option list \<times> nat) res"
  assumes read_ok: "ready s \<Longrightarrow> \<exists>buf' n. read s buf = Ok (buf', n) \<and> length buf' = length buf \<and>
      (\<forall>i < n. i < length buf \<longrightarrow> buf' ! i \<noteq> None)"
begin

lemma random_phase:
  assumes "ready s" "length (ds_randomNodes ds) = nat (quot2 (ds_maxDynDials ds))"
    and "need \<le> ds_maxDynDials ds"
  shows "\<exists>ms buf ds2.
    (if quot2 need > 0 \<and> boot then
       res_bind (read s (ds_randomNodes ds)) (\<lambda>(buf, n).
         dial_random peers buf [0..<min (nat (quot2 need)) n] need (ds1\<lparr>ds_randomNodes := buf\<rparr>, ts))
     else Ok (need, ds1, ts)) = Ok (need - int (length ms), ds2, ts @ dial_tasks ms) \<and>
    dials peers (ds1\<lparr>ds_randomNodes := buf\<rparr>) ms ds2 \<and> int (length ms) \<le> max 0 need \<and>
    (\<forall>fn \<in> set ms. fst fn = dynFlag) \<and>
    (buf = ds_randomNodes ds1 \<or> length buf = length (ds_randomNodes ds))"
proof (cases "quot2 need > 0 \<and> boot")
  case False
  then show ?thesis
    by (intro exI [of _ "[]"] exI [of _ "ds_randomNodes ds1"] exI [of _ ds1]) auto
next
  case True
  obtain buf n where r: "read s (ds_randomNodes ds) = Ok (buf, n)"
    "length buf = length (ds_randomNodes ds)" "\<forall>i < n. i < length buf \<longrightarrow> buf ! i \<noteq> None"
    using read_ok [OF assms(1)] by metis
  let ?is = "[0..<min (nat (quot2 need)) n]"
  have "quot2 need \<le> quot2 (ds_maxDynDials ds)" using assms(3) by (rule quot2_mono)
  then have "\<forall>i \<in> set ?is. i < length buf \<and> buf ! i \<noteq> None" using r(2,3) assms(2) by auto
  then obtain ms ds2 where m: "dial_random peers buf ?is need (ds1\<lparr>ds_randomNodes := buf\<rparr>, ts) =
      Ok (need - int (length ms), ds2, ts @ dial_tasks ms)"
    "dials peers (ds1\<lparr>ds_randomNodes := buf\<rparr>) ms ds2" "length ms \<le> length ?is"
    "\<forall>fn \<in> set ms. fst fn = dynFlag"
    using dial_random_dials by metis
  have "int (length ms) \<le> quot2 need" using m(3) True by auto
  then have "int (length ms) \<le> max 0 need" using quot2_le [of need] True by auto
  with m r True show ?thesis
    by (intro exI [of _ ms] exI [of _ buf] exI [of _ ds2]) simp
qed

text \<open>The three phases of a round: static nodes, random nodes, found nodes.\<close>

lemma round_phases:
  assumes "ready s" "dial_ok ds" "H = hist_expire now (ds_hist ds)"
  obtains ns ds1 ms1 buf ds2 ms2 rest ds3 where "dial_static peers order (ds\<lparr>ds_hist := H\<rparr>, []) = (ds1, dial_tasks ns)"
    "(if quot2 (needDyn peers ds) > 0 \<and> ds_bootstrapped ds then
       res_bind (read s (ds_randomNodes ds)) (\<lambda>(buf, n).
         dial_random peers buf [0..<min (nat (quot2 (needDyn peers ds))) n] (needDyn peers ds)
           (ds1\<lparr>ds_randomNodes := buf\<rparr>, dial_tasks ns))
     else Ok (needDyn peers ds, ds1, dial_tasks ns)) =
       Ok (needDyn peers ds - int (length ms1), ds2, dial_tasks ns @ dial_tasks ms1)"
    "dial_lookup peers (ds_lookupBuf ds) (needDyn peers ds - int (length ms1)) (ds2, dial_tasks ns @ dial_tasks ms1) =
       (rest, needDyn peers ds - int (length ms1) - int (length ms2), ds3, (dial_tasks ns @ dial_tasks ms1) @ dial_tasks ms2)"
    "ds3 = ds\<lparr>ds_hist := H, ds_dialing := ds_dialing ds @ under_dial (ns @ ms1 @ ms2), ds_randomNodes := buf\<rparr>"
    "fresh peers (ds_dialing ds) H (ns @ ms1 @ ms2)"
    "\<forall>fn \<in> set ns. fst fn = flagOutbound OR flagStatic \<and> snd fn \<in> snd ` set order"
    "\<forall>fn \<in> set (ms1 @ ms2). fst fn = dynFlag" "int (length (ms1 @ ms2)) \<le> max 0 (needDyn peers ds)"
    "length buf = length (ds_randomNodes ds)"
    "\<forall>(k, n) \<in> set order. node_ID n \<in> fst ` set (ds_dialing ds) \<union> dial_id ` set ns \<union> fst ` set peers \<or>
       hist_contains (node_ID n) H"
proof -
  let ?ds0 = "ds\<lparr>ds_hist := H\<rparr>"
  let ?need = "needDyn peers ds"
  obtain ns ds1 where st: "dial_static peers order (?ds0, []) = (ds1, dial_tasks ns)"
    and d1: "dials peers ?ds0 ns ds1"
    and fl1: "\<forall>fn \<in> set ns. fst fn = flagOutbound OR flagStatic \<and> snd fn \<in> snd ` set order"
    using dial_static_dials [of peers order ?ds0 "[]"] by auto
  obtain ms1 buf ds2 where rd:
    "(if quot2 ?need > 0 \<and> ds_bootstrapped ds then
       res_bind (read s (ds_randomNodes ds)) (\<lambda>(buf, n).
         dial_random peers buf [0..<min (nat (quot2 ?need)) n] ?need
           (ds1\<lparr>ds_randomNodes := buf\<rparr>, dial_tasks ns))
     else Ok (?need, ds1, dial_tasks ns)) = Ok (?need - int (length ms1), ds2, dial_tasks ns @ dial_tasks ms1)"
    and d2: "dials peers (ds1\<lparr>ds_randomNodes := buf\<rparr>) ms1 ds2" "int (length ms1) \<le> max 0 ?need"
    and fl2: "\<forall>fn \<in> set ms1. fst fn = dynFlag"
    and buf: "buf = ds_randomNodes ds1 \<or> length buf = length (ds_randomNodes ds)"
    using random_phase [OF assms(1) _ needDyn_le, of ds peers "ds_bootstrapped ds" peers ds1 "dial_tasks ns"]
      assms(2) by (auto simp: dial_ok_def)
  obtain ms2 rest ds3 where lk:
    "dial_lookup peers (ds_lookupBuf ds) (?need - int (length ms1)) (ds2, dial_tasks ns @ dial_tasks ms1) =
       (rest, ?need - int (length ms1) - int (length ms2), ds3, (dial_tasks ns @ dial_tasks ms1) @ dial_tasks ms2)"
    and d3: "dials peers ds2 ms2 ds3" "int (length ms2) \<le> max 0 (?need - int (length ms1))"
    and fl3: "\<forall>fn \<in> set ms2. fst fn = dynFlag"
    using dial_lookup_dials [of peers "ds_lookupBuf ds" "?need - int (length ms1)" ds2 "dial_tasks ns @ dial_tasks ms1"]
    by blast
  have d1': "dials peers (?ds0\<lparr>ds_randomNodes := buf\<rparr>) ns (ds1\<lparr>ds_randomNodes := buf\<rparr>)"
    using d1 by (auto simp: dials_def)
  have all: "dials peers (?ds0\<lparr>ds_randomNodes := buf\<rparr>) (ns @ ms1 @ ms2) ds3"
    using dials_append [OF d1' dials_append [OF d2(1) d3(1)]] by simp
  then have ds3: "ds3 = ds\<lparr>ds_hist := H, ds_dialing := ds_dialing ds @ under_dial (ns @ ms1 @ ms2),
      ds_randomNodes := buf\<rparr>" and fr: "fresh peers (ds_dialing ds) H (ns @ ms1 @ ms2)"
    by (auto simp: dials_def)
  have acc: "\<forall>(k, n) \<in> set order. node_ID n \<in> fst ` set (ds_dialing ds) \<union> dial_id ` set ns \<union> fst ` set peers \<or>
       hist_contains (node_ID n) H"
    using dial_static_accounted [of _ _ order peers ?ds0 "[]"] st d1
    by (fastforce simp: accounted_def dials_def image_Un)
  have lb: "length buf = length (ds_randomNodes ds)" using buf d1 by (auto simp: dials_def)
  have bound: "int (length (ms1 @ ms2)) \<le> max 0 ?need" using d2(2) d3(2) by auto
  have fl: "\<forall>fn \<in> set (ms1 @ ms2). fst fn = dynFlag" using fl2 fl3 by auto
  show thesis by (rule that [OF st rd lk ds3 fr fl1 fl bound lb acc])
qed

lemma newTasks_spec:
  assumes "ready s" "dial_ok ds"
  shows "\<exists>ns ms extra ds'.
    newTasks (read s) order nRunning peers now ds = Ok (dial_tasks (ns @ ms) @ extra, ds') \<and>
    round_result order nRunning peers now ds ns ms extra ds'"
proof -
  define H where "H = hist_expire now (ds_hist ds)"
  let ?need = "needDyn peers ds"
  obtain ns ds1 ms1 buf ds2 ms2 rest ds3 where st: "dial_static peers order (ds\<lparr>ds_hist := H\<rparr>, []) = (ds1, dial_tasks ns)"
    and rd: "(if quot2 ?need > 0 \<and> ds_bootstrapped ds then
       res_bind (read s (ds_randomNodes ds)) (\<lambda>(buf, n).
         dial_random peers buf [0..<min (nat (quot2 ?need)) n] ?need (ds1\<lparr>ds_randomNodes := buf\<rparr>, dial_tasks ns))
     else Ok (?need, ds1, dial_tasks ns)) = Ok (?need - int (length ms1), ds2, dial_tasks ns @ dial_tasks ms1)"
    and lk: "dial_lookup peers (ds_lookupBuf ds) (?need - int (length ms1)) (ds2, dial_tasks ns @ dial_tasks ms1) =
       (rest, ?need - int (length ms1) - int (length ms2), ds3, (dial_tasks ns @ dial_tasks ms1) @ dial_tasks ms2)"
    and ds3: "ds3 = ds\<lparr>ds_hist := H, ds_dialing := ds_dialing ds @ under_dial (ns @ ms1 @ ms2), ds_randomNodes := buf\<rparr>"
    and facts: "fresh peers (ds_dialing ds) H (ns @ ms1 @ ms2)"
      "\<forall>fn \<in> set ns. fst fn = flagOutbound OR flagStatic \<and> snd fn \<in> snd ` set order"
      "\<forall>fn \<in> set (ms1 @ ms2). fst fn = dynFlag" "int (length (ms1 @ ms2)) \<le> max 0 ?need"
      "length buf = length (ds_randomNodes ds)"
      "\<forall>(k, n) \<in> set order. node_ID n \<in> fst ` set (ds_dialing ds) \<union> dial_id ` set ns \<union> fst ` set peers \<or>
         hist_contains (node_ID n) H"
    by (rule round_phases [OF assms H_def])
  let ?lr = "int (length rest) < ?need - int (length ms1) - int (length ms2) \<and> \<not> ds_lookupRunning ds"
  let ?w = "nRunning = 0 \<and> ns = [] \<and> ms1 = [] \<and> ms2 = [] \<and> H \<noteq> []"
  let ?extra = "if ?lr then [DiscoverTask (\<not> ds_bootstrapped ds) []]
    else if ?w then [WaitExpireTask (pd_exp (H ! 0) - now)] else []"
  have "newTasks (read s) order nRunning peers now ds =
      Ok (dial_tasks (ns @ ms1 @ ms2) @ ?extra,
          if ?lr then ds3\<lparr>ds_lookupBuf := rest, ds_lookupRunning := True\<rparr> else ds3\<lparr>ds_lookupBuf := rest\<rparr>)"
    unfolding newTasks_def Let_def H_def [symmetric] st fst_conv snd_conv rd
    by (simp add: lk ds3)
  moreover have "ds_lookupRunning (ds3\<lparr>ds_lookupBuf := rest\<rparr>) = ds_lookupRunning ds" by (simp add: ds3)
  ultimately have run: "newTasks (read s) order nRunning peers now ds =
      Ok (dial_tasks (ns @ ms1 @ ms2) @ ?extra,
          ds3\<lparr>ds_lookupBuf := rest, ds_lookupRunning := ?lr \<or> ds_lookupRunning ds\<rparr>)"
    by (simp only: lookupRunning_if)
  show ?thesis
    by (rule exI [of _ ns], rule exI [of _ "ms1 @ ms2"], rule exI [of _ ?extra], rule exI, rule conjI, rule run)
      (use facts in \<open>auto simp: round_result_def Let_def H_def [symmetric] ds3\<close>)
qed

end

interpretation table_random: random_nodes
  "\<lambda>(rnd, tab). table_ok tab \<and> (\<forall>i. rnd i \<noteq> None)" "\<lambda>(rnd, tab). ReadRandomNodes rnd tab"
proof
  fix s :: "(nat \<Rightarrow> uint32 option) \<times> 'a table_scheme" and buf :: "node option list"
  obtain rnd tab where s: "s = (rnd, tab)" by (cases s)
  assume "case s of (rnd, tab) \<Rightarrow> table_ok tab \<and> (\<forall>i. rnd i \<noteq> None)"
  then obtain xs where "ReadRandomNodes rnd tab buf =
      Ok (map Some xs @ drop (length xs) buf,
          if table_len tab \<le> length buf then table_len tab else length buf + 1)"
    "length xs = min (length buf) (table_len tab)"
    using ReadRandomNodes_spec [of tab rnd buf] s by auto
  then show "\<exists>buf' n. (case s of (rnd, tab) \<Rightarrow> ReadRandomNodes rnd tab) buf = Ok (buf', n) \<and>
      length buf' = length buf \<and> (\<forall>i < n. i < length buf \<longrightarrow> buf' ! i \<noteq> None)"
    by (auto simp: s nth_append)
qed

section \<open>Sequences of scheduler events\<close>

datatype dial_event =
    Round "nat \<Rightarrow> uint32 option" table "(nodeid \<times> node) list" nat peermap time
  | Done task time
  | Add_static node
  | Remove_static nodeid

fun dial_step :: "dial_event \<Rightarrow> dialstate \<Rightarrow> (unit, task list \<times> dialstate) res" where
  "dial_step (Round rnd tab order nRunning peers now) ds =
     newTasks (ReadRandomNodes rnd tab) order nRunning peers now ds"
| "dial_step (Done t now) ds = Ok ([], taskDone t now ds)"
| "dial_step (Add_static n) ds = Ok ([], addStatic n ds)"
| "dial_step (Remove_static nid) ds = Ok ([], removeStatic nid ds)"

fun dial_run :: "dial_event list \<Rightarrow> dialstate \<Rightarrow> (unit, task list \<times> dialstate) res" where
  "dial_run [] ds = Ok ([], ds)"
| "dial_run (e # es) ds =
     res_bind (dial_step e ds) (\<lambda>(ts, ds1). res_bind (dial_run es ds1) (\<lambda>(ts', ds2). Ok (ts @ ts', ds2)))"

text \<open>A round reads a well-formed routing table, gets its random words, and starts no later than \<^verbatim>\<open>limit\<close>.\<close>

fun event_ok :: "time \<Rightarrow> dial_event \<Rightarrow> bool" where
  "event_ok limit (Round rnd tab order nRunning peers now) \<longleftrightarrow>
     table_ok tab \<and> (\<forall>i. rnd i \<noteq> None) \<and> now \<le> limit"
| "event_ok limit _ \<longleftrightarrow> True"

lemma table_newTasks:
  assumes "table_ok tab" "\<forall>i. rnd i \<noteq> None" "dial_ok ds"
  obtains ns ms extra ds' where
    "newTasks (ReadRandomNodes rnd tab) order nRunning peers now ds = Ok (dial_tasks (ns @ ms) @ extra, ds')"
    "round_result order nRunning peers now ds ns ms extra ds'"
  using table_random.newTasks_spec [of "(rnd, tab)" ds order nRunning peers now] assms by auto

lemma fresh_disjoint: "fresh peers dialing hist ns \<Longrightarrow> fst ` set dialing \<inter> dial_id ` set ns = {}"
  unfolding fresh_def disjoint_iff image_iff by blast

lemma round_result_hist:
  "round_result order nRunning peers now ds ns ms extra ds' \<Longrightarrow> ds_hist ds' = hist_expire now (ds_hist ds)"
  by (auto simp: round_result_def Let_def)

lemma round_result_fresh:
  "round_result order nRunning peers now ds ns ms extra ds' \<Longrightarrow>
   fresh peers (ds_dialing ds) (hist_expire now (ds_hist ds)) (ns @ ms)"
  by (simp add: round_result_def Let_def)

lemma round_result_extra:
  "round_result order nRunning peers now ds ns ms extra ds' \<Longrightarrow> Dialtask f n \<notin> set extra"
  by (auto simp: round_result_def Let_def)

lemma dial_ok_newTasks:
  assumes "dial_ok ds" "round_result order nRunning peers now ds ns ms extra ds'"
  shows "dial_ok ds'"
proof -
  obtain buf rest lr where
    "ds' = ds\<lparr>ds_hist := hist_expire now (ds_hist ds), ds_dialing := ds_dialing ds @ under_dial (ns @ ms),
       ds_randomNodes := buf, ds_lookupBuf := rest, ds_lookupRunning := lr\<rparr>"
    "length buf = length (ds_randomNodes ds)"
    using assms(2) by (auto simp: round_result_def Let_def)
  moreover note f = round_result_fresh [OF assms(2)]
  ultimately show ?thesis
    using assms(1) hist_expire_heap [of "ds_hist ds" now] fresh_disjoint [OF f] f
    by (auto simp: dial_ok_def fresh_def)
qed

lemma dial_ok_taskDone: "dial_ok ds \<Longrightarrow> dial_ok (taskDone t now ds)"
  using go_heap.push_inv [of pd_exp "ds_hist ds"] distinct_delete [of "ds_dialing ds"]
  by (cases t) (auto simp: dial_ok_def Let_def hist_add_def)

lemma set_hist_add: "heap_inv pd_exp h \<Longrightarrow> set (hist_add nid e h) = insert \<lparr>pd_id = nid, pd_exp = e\<rparr> (set h)"
  using arg_cong [where f = set_mset, OF go_heap.push_elems [of pd_exp h]] by (simp add: hist_add_def)

lemma hist_taskDone: "dial_ok ds \<Longrightarrow> set (ds_hist ds) \<subseteq> set (ds_hist (taskDone t now ds))"
  by (cases t) (auto simp: dial_ok_def Let_def set_hist_add)

text \<open>\<^verbatim>\<open>recent nid limit ds\<close>: the history remembers \<^verbatim>\<open>nid\<close> until \<^verbatim>\<open>limit\<close> at least.\<close>

definition recent :: "nodeid \<Rightarrow> time \<Rightarrow> dialstate \<Rightarrow> bool" where
  "recent nid limit ds \<longleftrightarrow> (\<exists>d \<in> set (ds_hist ds). pd_id d = nid \<and> limit \<le> pd_exp d)"

lemma dial_step_recent:
  assumes "dial_ok ds" "recent nid limit ds" "event_ok limit e"
  shows "\<exists>ts ds1. dial_step e ds = Ok (ts, ds1) \<and> dial_ok ds1 \<and> recent nid limit ds1 \<and>
    (\<forall>f n. Dialtask f n \<in> set ts \<longrightarrow> node_ID n \<noteq> nid)"
proof (cases e)
  case (Round rnd tab order nRunning peers now)
  let ?H = "hist_expire now (ds_hist ds)"
  have pre: "table_ok tab" "\<forall>i. rnd i \<noteq> None" using assms(3) Round by simp_all
  obtain ns ms extra ds' where r:
    "newTasks (ReadRandomNodes rnd tab) order nRunning peers now ds = Ok (dial_tasks (ns @ ms) @ extra, ds')"
    and rr: "round_result order nRunning peers now ds ns ms extra ds'"
    by (rule table_newTasks [OF pre assms(1)])
  have rec: "\<exists>d \<in> set ?H. pd_id d = nid \<and> limit \<le> pd_exp d"
    using assms Round by (fastforce simp: set_hist_expire dial_ok_def recent_def)
  have "node_ID n \<noteq> nid" if "Dialtask fl n \<in> set (dial_tasks (ns @ ms) @ extra)" for fl n
  proof -
    have "(fl, n) \<in> set (ns @ ms)" using that round_result_extra [OF rr] by auto
    then have "\<not> hist_contains (node_ID n) ?H"
      using round_result_fresh [OF rr] by (force simp: fresh_def dial_id_def)
    with rec show ?thesis by (auto simp: hist_contains_def list_ex_iff)
  qed
  with r rec dial_ok_newTasks [OF assms(1) rr] Round round_result_hist [OF rr] show ?thesis
    by (simp add: recent_def)
next
  case (Done t now)
  then show ?thesis
    using assms dial_ok_taskDone [OF assms(1)] hist_taskDone [OF assms(1), of t now]
    by (auto simp: recent_def)
qed (use assms in \<open>auto simp: addStatic_def removeStatic_def dial_ok_def recent_def\<close>)

lemma dial_run_recent:
  "dial_ok ds \<Longrightarrow> recent nid limit ds \<Longrightarrow> \<forall>e \<in> set es. event_ok limit e \<Longrightarrow>
   \<exists>ts ds1. dial_run es ds = Ok (ts, ds1) \<and> (\<forall>f n. Dialtask f n \<in> set ts \<longrightarrow> node_ID n \<noteq> nid)"
proof (induction es arbitrary: ds)
  case (Cons e es)
  obtain ts ds1 where s: "dial_step e ds = Ok (ts, ds1)" "dial_ok ds1" "recent nid limit ds1"
    "\<forall>f n. Dialtask f n \<in> set ts \<longrightarrow> node_ID n \<noteq> nid"
    using dial_step_recent [OF Cons.prems(1,2), of e] Cons.prems(3) by auto
  obtain ts' ds2 where "dial_run es ds1 = Ok (ts', ds2)"
    "\<forall>f n. Dialtask f n \<in> set ts' \<longrightarrow> node_ID n \<noteq> nid"
    using Cons.IH [OF s(2,3)] Cons.prems(3) by auto
  with s show ?case by auto
qed simp

section \<open>The properties\<close>

lemma flags_AND [simp]:
  "(flagOutbound OR flagDynamic) AND flagDynamic \<noteq> 0" "(flagOutbound OR flagStatic) AND flagDynamic = 0"
  by (simp_all add: flagOutbound_def flagDynamic_def flagStatic_def)

lemma dyn_dialing_dials:
  assumes "\<forall>fn \<in> set ns. fst fn = flagOutbound OR flagStatic" "\<forall>fn \<in> set ms. fst fn = dynFlag"
  shows "length (filter (\<lambda>(_, flag). flag AND flagDynamic \<noteq> 0) (under_dial (ns @ ms))) = length ms"
proof -
  have "filter (\<lambda>(_, flag). flag AND flagDynamic \<noteq> 0) (under_dial ns) = []"
    using assms(1) by (auto simp: under_dial_def filter_empty_conv)
  moreover have "filter (\<lambda>(_, flag). flag AND flagDynamic \<noteq> 0) (under_dial ms) = under_dial ms"
    using assms(2) by (auto simp: under_dial_def filter_id_conv)
  ultimately show ?thesis by (simp add: under_dial_def)
qed

definition demo_dial :: dialstate where
  "demo_dial = \<lparr>ds_static = [], ds_maxDynDials = 2, ds_dialing = [], ds_lookupBuf = [],
     ds_lookupRunning = False, ds_bootstrapped = True, ds_randomNodes = [None], ds_hist = []\<rparr>"

lemma demo_dial_ok: "dial_ok demo_dial"
  by (simp add: dial_ok_def demo_dial_def heap_inv_def heap_upto_def quot2_def)

definition demo_node :: node where
  "demo_node = newNode [127, 0, 0, 1] 9001 9001 (id_of [7])"

definition demo_table :: table where
  "demo_table = newTable (id_of [9]) \<lparr>ua_IP = [127, 0, 0, 1], ua_Port = 9000\<rparr>"

lemma demo_table_ok: "table_ok demo_table"
  by (simp add: demo_table_def newTable_ok)

text \<open>
  C3: No node is redialled within thirty seconds: once a dial of a node is reported done at time
  \<^verbatim>\<open>t\<close>, no sequence of further rounds, completed tasks and changes of the static set makes the
  scheduler hand out another dial of that node in a round that starts at \<^verbatim>\<open>t\<close> plus 30 seconds or before,
  in whatever order the rounds range over the static nodes; and no such round panics.
\<close>

theorem no_redial_within_expiration:
  assumes "dial_ok ds" "\<forall>e \<in> set es. event_ok (t + dialHistoryExpiration) e"
  shows "\<exists>tasks ds'. dial_run es (taskDone (Dialtask flag dest) t ds) = Ok (tasks, ds') \<and>
    (\<forall>f n. Dialtask f n \<in> set tasks \<longrightarrow> node_ID n \<noteq> node_ID dest)"
proof (rule dial_run_recent [OF _ _ assms(2)])
  show "dial_ok (taskDone (Dialtask flag dest) t ds)" by (rule dial_ok_taskDone [OF assms(1)])
  show "recent (node_ID dest) (t + dialHistoryExpiration) (taskDone (Dialtask flag dest) t ds)"
    using assms(1) by (simp add: recent_def set_hist_add dial_ok_def)
qed

theorem no_redial_within_expiration_witness:
  "\<exists>tasks ds'. dial_run [Add_static demo_node,
       Round (\<lambda>_. Some 0) demo_table [(node_ID demo_node, demo_node)] 0 [] (30 * second)]
     (taskDone (Dialtask 6 demo_node) 0 demo_dial) = Ok (tasks, ds') \<and>
    (\<forall>f n. Dialtask f n \<in> set tasks \<longrightarrow> node_ID n \<noteq> node_ID demo_node)"
  by (rule no_redial_within_expiration [OF demo_dial_ok])
    (simp add: dialHistoryExpiration_def demo_table_ok)

lemma round_result_dialing_eq:
  "round_result order k peers now ds ns ms extra ds' \<Longrightarrow>
   ds_dialing ds' = ds_dialing ds @ under_dial (ns @ ms)"
  unfolding round_result_def Let_def by (elim conjE exE) simp

lemma hist_contains_expire:
  "dial_ok ds \<Longrightarrow> hist_contains nid (hist_expire now (ds_hist ds)) \<longleftrightarrow> (\<exists>d \<in> set (ds_hist ds). pd_id d = nid \<and> now \<le> pd_exp d)"
  by (auto simp: hist_contains_def list_ex_iff dial_ok_def set_hist_expire)

lemma map_of_under_dial:
  assumes "(fl, n) \<in> set xs" "distinct (map dial_id xs)"
  shows "map_of (under_dial xs) (node_ID n) = Some fl"
proof (rule map_of_is_SomeI)
  show "distinct (map fst (under_dial xs))" using assms(2) by simp
  show "(node_ID n, fl) \<in> set (under_dial xs)" using assms(1) by (force simp: under_dial_def dial_id_def)
qed

lemma round_result_dialled:
  assumes "round_result order nRunning peers now ds ns ms extra ds'" "Dialtask fl n \<in> set (dial_tasks (ns @ ms) @ extra)"
  shows "map_of peers (node_ID n) = None \<and> map_of (ds_dialing ds) (node_ID n) = None \<and>
    map_of (ds_dialing ds') (node_ID n) = Some fl \<and> \<not> hist_contains (node_ID n) (hist_expire now (ds_hist ds))"
proof -
  note f = round_result_fresh [OF assms(1)]
  have m: "(fl, n) \<in> set (ns @ ms)" using assms(2) round_result_extra [OF assms(1)] by auto
  with f have "dial_id (fl, n) \<notin> fst ` set (ds_dialing ds) \<and> dial_id (fl, n) \<notin> fst ` set peers \<and>
      \<not> hist_contains (dial_id (fl, n)) (hist_expire now (ds_hist ds))"
    unfolding fresh_def by blast
  then have "map_of peers (node_ID n) = None \<and> map_of (ds_dialing ds) (node_ID n) = None \<and>
      \<not> hist_contains (node_ID n) (hist_expire now (ds_hist ds))"
    by (simp add: dial_id_def map_of_eq_None_iff)
  moreover have "map_of (under_dial (ns @ ms)) (node_ID n) = Some fl"
    using map_of_under_dial [OF m] f by (simp add: fresh_def)
  ultimately show ?thesis by (simp add: round_result_dialing_eq [OF assms(1)] map_add_def)
qed

lemma round_result_once:
  assumes "round_result order nRunning peers now ds ns ms extra ds'"
  shows "distinct [node_ID n. Dialtask fl n \<leftarrow> dial_tasks (ns @ ms) @ extra]"
proof -
  have "[node_ID n. Dialtask fl n \<leftarrow> dial_tasks xs] = map dial_id xs" for xs
    by (induction xs) (auto simp: dial_id_def)
  moreover have "[node_ID n. Dialtask fl n \<leftarrow> extra] = []"
    using assms by (auto simp: round_result_def Let_def)
  ultimately have "[node_ID n. Dialtask fl n \<leftarrow> dial_tasks (ns @ ms) @ extra] = map dial_id (ns @ ms)"
    by (simp only: map_append concat_append append_Nil2)
  moreover have "distinct (map dial_id (ns @ ms))" using round_result_fresh [OF assms] by (simp only: fresh_def)
  ultimately show ?thesis by (simp only:)
qed

lemma round_result_static:
  assumes "round_result order nRunning peers now ds ns ms extra ds'" "(k, n) \<in> set order"
  shows "map_of peers (node_ID n) \<noteq> None \<or> map_of (ds_dialing ds') (node_ID n) \<noteq> None \<or>
    hist_contains (node_ID n) (hist_expire now (ds_hist ds))"
proof -
  have "node_ID n \<in> fst ` set (ds_dialing ds) \<union> dial_id ` set ns \<union> fst ` set peers \<or>
      hist_contains (node_ID n) (hist_expire now (ds_hist ds))"
    using assms by (auto simp: round_result_def Let_def)
  moreover have "fst ` set (ds_dialing ds') = fst ` set (ds_dialing ds) \<union> dial_id ` set ns \<union> dial_id ` set ms"
    by (simp add: round_result_dialing_eq [OF assms(1)] image_Un Un_assoc)
  ultimately show ?thesis unfolding map_of_eq_None_iff by (simp only:) blast
qed

text \<open>
  C25: A round dials only what it should and misses no static node: it never panics; every node it
  dials is not connected, was not under dial and is not in the unexpired history; no node is dialled
  twice; and after it, every static node is connected, under dial, or was dialled recently.
\<close>

theorem round_dials_exactly_eligible:
  assumes "table_ok tab" "\<forall>i. rnd i \<noteq> None" "dial_ok ds"
  shows "\<exists>tasks ds'. newTasks (ReadRandomNodes rnd tab) order nRunning peers now ds = Ok (tasks, ds') \<and>
    (\<forall>f n. Dialtask f n \<in> set tasks \<longrightarrow>
       map_of peers (node_ID n) = None \<and> map_of (ds_dialing ds) (node_ID n) = None \<and>
       map_of (ds_dialing ds') (node_ID n) = Some f \<and>
       \<not> (\<exists>d \<in> set (ds_hist ds). pd_id d = node_ID n \<and> now \<le> pd_exp d)) \<and>
    distinct [node_ID n. Dialtask f n \<leftarrow> tasks] \<and>
    (\<forall>(k, n) \<in> set order. map_of peers (node_ID n) \<noteq> None \<or> map_of (ds_dialing ds') (node_ID n) \<noteq> None \<or>
       (\<exists>d \<in> set (ds_hist ds). pd_id d = node_ID n \<and> now \<le> pd_exp d))"
proof -
  obtain ns ms extra ds' where
    r: "newTasks (ReadRandomNodes rnd tab) order nRunning peers now ds = Ok (dial_tasks (ns @ ms) @ extra, ds')"
    and rr: "round_result order nRunning peers now ds ns ms extra ds'"
    by (rule table_newTasks [OF assms])
  note hist = hist_contains_expire [OF assms(3)]
  show ?thesis
  proof (rule exI, rule exI, intro conjI)
    show "newTasks (ReadRandomNodes rnd tab) order nRunning peers now ds =
        Ok (dial_tasks (ns @ ms) @ extra, ds')" by (rule r)
    show "\<forall>f n. Dialtask f n \<in> set (dial_tasks (ns @ ms) @ extra) \<longrightarrow>
        map_of peers (node_ID n) = None \<and> map_of (ds_dialing ds) (node_ID n) = None \<and>
        map_of (ds_dialing ds') (node_ID n) = Some f \<and>
        \<not> (\<exists>d \<in> set (ds_hist ds). pd_id d = node_ID n \<and> now \<le> pd_exp d)"
      using round_result_dialled [OF rr] unfolding hist by blast
    show "distinct [node_ID n. Dialtask f n \<leftarrow> dial_tasks (ns @ ms) @ extra]" by (rule round_result_once [OF rr])
    show "\<forall>(k, n) \<in> set order. map_of peers (node_ID n) \<noteq> None \<or> map_of (ds_dialing ds') (node_ID n) \<noteq> None \<or>
        (\<exists>d \<in> set (ds_hist ds). pd_id d = node_ID n \<and> now \<le> pd_exp d)"
      using round_result_static [OF rr] unfolding hist by blast
  qed
qed

theorem round_dials_exactly_eligible_witness:
  "\<exists>tasks ds'. newTasks (ReadRandomNodes (\<lambda>_. Some 0) demo_table)
      [(node_ID demo_node, demo_node)] 0 [] 5 demo_dial = Ok (tasks, ds') \<and>
    map_of (ds_dialing ds') (node_ID demo_node) \<noteq> None"
  using round_dials_exactly_eligible [OF demo_table_ok _ demo_dial_ok, of "\<lambda>_. Some 0"
      "[(node_ID demo_node, demo_node)]" 0 "[]" 5]
  by (auto simp: demo_dial_def)



text \<open>
  An idle scheduler never gets stuck on its history: when nothing is running and the history
  still holds an unexpired dial, a round hands out at least one task; and a wait task is handed out
  only alone, for a duration that is not negative and ends exactly when the first entry expires.
\<close>

theorem idle_round_waits_for_history:
  assumes "table_ok tab" "\<forall>i. rnd i \<noteq> None" "dial_ok ds"
  shows "\<exists>tasks ds'. newTasks (ReadRandomNodes rnd tab) order nRunning peers now ds = Ok (tasks, ds') \<and>
    (nRunning = 0 \<and> (\<exists>d \<in> set (ds_hist ds). now \<le> pd_exp d) \<longrightarrow> tasks \<noteq> []) \<and>
    (\<forall>d. WaitExpireTask d \<in> set tasks \<longrightarrow> tasks = [WaitExpireTask d] \<and> 0 \<le> d \<and>
       (\<exists>p \<in> set (ds_hist ds). pd_exp p = now + d) \<and>
       (\<forall>p \<in> set (ds_hist ds). now \<le> pd_exp p \<longrightarrow> now + d \<le> pd_exp p))"
proof -
  let ?H = "hist_expire now (ds_hist ds)"
  obtain ns ms extra ds' where
    r: "newTasks (ReadRandomNodes rnd tab) order nRunning peers now ds = Ok (dial_tasks (ns @ ms) @ extra, ds')"
    and rr: "round_result order nRunning peers now ds ns ms extra ds'"
    by (rule table_newTasks [OF assms])
  have heap: "heap_inv pd_exp (ds_hist ds)" using assms(3) by (simp add: dial_ok_def)
  note H = set_hist_expire [OF heap, of now]
  have least: "pd_exp (?H ! 0) \<le> pd_exp p" if "p \<in> set ?H" for p
    by (rule go_heap.least_le [OF conjunct1 [OF hist_expire_heap [OF heap]]]) (simp only: set_mset_mset that)
  have cases: "extra = [] \<and> \<not> (nRunning = 0 \<and> ns = [] \<and> ms = [] \<and> ?H \<noteq> []) \<or>
      extra = [DiscoverTask (\<not> ds_bootstrapped ds) []] \<or>
      extra = [WaitExpireTask (pd_exp (?H ! 0) - now)] \<and> ns = [] \<and> ms = [] \<and> ?H \<noteq> []"
    using rr by (auto simp: round_result_def Let_def)
  have busy: "dial_tasks (ns @ ms) @ extra \<noteq> []" if "nRunning = 0" "\<exists>d \<in> set (ds_hist ds). now \<le> pd_exp d"
  proof -
    from that(2) have "?H \<noteq> []" using H by fastforce
    with cases that(1) show ?thesis by auto
  qed
  have wait: "dial_tasks (ns @ ms) @ extra = [WaitExpireTask d] \<and> 0 \<le> d \<and>
      (\<exists>p \<in> set (ds_hist ds). pd_exp p = now + d) \<and>
      (\<forall>p \<in> set (ds_hist ds). now \<le> pd_exp p \<longrightarrow> now + d \<le> pd_exp p)"
    if "WaitExpireTask d \<in> set (dial_tasks (ns @ ms) @ extra)" for d
  proof -
    from that have "WaitExpireTask d \<in> set extra" by auto
    with cases have e: "extra = [WaitExpireTask d]" "ns = []" "ms = []" "?H \<noteq> []" "d = pd_exp (?H ! 0) - now"
      by auto
    then have "?H ! 0 \<in> set ?H" by simp
    then have "?H ! 0 \<in> set (ds_hist ds)" "now \<le> pd_exp (?H ! 0)" using H by auto
    moreover have "pd_exp (?H ! 0) \<le> pd_exp p" if "p \<in> set (ds_hist ds)" "now \<le> pd_exp p" for p
      using least [of p] that H by simp
    ultimately show ?thesis using e by auto
  qed
  show ?thesis
  proof (rule exI, rule exI, intro conjI allI impI)
    show "newTasks (ReadRandomNodes rnd tab) order nRunning peers now ds =
        Ok (dial_tasks (ns @ ms) @ extra, ds')" by (rule r)
  qed (rule busy; blast | drule wait, elim conjE, assumption)+
qed

theorem idle_round_waits_for_history_witness:
  "\<exists>tasks ds'. newTasks (ReadRandomNodes (\<lambda>_. Some 0) demo_table) [] 0 [] 5
      (demo_dial\<lparr>ds_hist := [\<lparr>pd_id = id_of [1], pd_exp = 9\<rparr>]\<rparr>) = Ok (tasks, ds') \<and> tasks \<noteq> []"
  using idle_round_waits_for_history [OF demo_table_ok, of "\<lambda>_. Some 0"
      "demo_dial\<lparr>ds_hist := [\<lparr>pd_id = id_of [1], pd_exp = 9\<rparr>]\<rparr>" "[]" 0 "[]" 5] demo_dial_ok
  by (auto simp: dial_ok_def heap_inv_def heap_upto_def)

end
