(* ===== verification/Go_IP.thy ===== *)
theory Go_IP
  imports Prelude
begin

text \<open>
  The part of Go's package net that classifies addresses: an IP is a byte slice of length 4 or 16
  (or anything else, which the functions below treat as invalid).
\<close>

definition v4InV6Prefix :: bytes where
  "v4InV6Prefix = [0, 0, 0, 0, 0, 0, 0, 0, 0, 0, 255, 255]"

definition To4 :: "bytes \<Rightarrow> bytes option" where
  "To4 ip =
     (if length ip = 4 then Some ip
      else if length ip = 16 \<and> take 12 ip = v4InV6Prefix then Some (drop 12 ip)
      else None)"

definition To16 :: "bytes \<Rightarrow> bytes option" where
  "To16 ip =
     (if length ip = 4 then Some (v4InV6Prefix @ ip)
      else if length ip = 16 then Some ip
      else None)"

definition IsMulticast :: "bytes \<Rightarrow> bool" where
  "IsMulticast ip \<longleftrightarrow>
     (case To4 ip of Some ip4 \<Rightarrow> ip4 ! 0 AND 0xF0 = 0xE0
      | None \<Rightarrow> length ip = 16 \<and> ip ! 0 = 0xFF)"

definition IsUnspecified :: "bytes \<Rightarrow> bool" where
  "IsUnspecified ip \<longleftrightarrow> To4 ip = Some (replicate 4 0) \<or> ip = replicate 16 0"

definition IsLoopback :: "bytes \<Rightarrow> bool" where
  "IsLoopback ip \<longleftrightarrow>
     (case To4 ip of Some ip4 \<Rightarrow> ip4 ! 0 = 127 | None \<Rightarrow> ip = replicate 15 0 @ [1])"

lemma length_v4InV6Prefix [simp]: "length v4InV6Prefix = 12"
  by (simp add: v4InV6Prefix_def)

lemma To4_To16: "length ip = 4 \<Longrightarrow> To16 ip = Some ip16 \<Longrightarrow> To4 ip16 = Some ip"
  by (auto simp: To4_def To16_def)

lemma To4_length: "To4 ip = Some ip4 \<Longrightarrow> length ip4 = 4"
  by (auto simp: To4_def split: if_splits)

text \<open>Both forms of an IPv4 address are classified alike.\<close>

lemma classify_To16:
  assumes "length ip = 4" "To16 ip = Some ip16"
  shows "IsMulticast ip16 = IsMulticast ip" "IsLoopback ip16 = IsLoopback ip"
    "IsUnspecified ip16 = IsUnspecified ip"
proof -
  have *: "To4 ip16 = Some ip" "To4 ip = Some ip" using assms To4_To16 by (auto simp: To4_def)
  show "IsMulticast ip16 = IsMulticast ip" "IsLoopback ip16 = IsLoopback ip"
    by (simp_all add: IsMulticast_def IsLoopback_def *)
  have "ip16 ! 10 = 255" using assms by (auto simp: To16_def v4InV6Prefix_def)
  then have "ip16 \<noteq> replicate 16 0" by auto
  then show "IsUnspecified ip16 = IsUnspecified ip"
    using assms(1) by (auto simp: IsUnspecified_def * dest: arg_cong [where f = length])
qed

end
