(* ===== verification/Server.thy ===== *)
theory Server
  imports Dial Go_IP
begin

text \<open>
  server.go: the server that owns the peers and runs the dial scheduler. The body of the loop
  \<^verbatim>\<open>run\<close> is a round (ask the dialer for tasks, schedule them) followed by one event of its select
  statement. Tasks are pointers in the source and carry an identity here. The other goroutines act
  through the events: a finished task, a handshaken connection, a finished session, a step of a session.
\<close>

record config =
  cfg_Discover :: bool
  cfg_MaxPeers :: int
  cfg_Nat :: bool
  cfg_StaticNodes :: "node list"

datatype chan_state = Nil_chan | Open_chan | Closed_chan

record server =
  sv_nodeId :: nodeid
  sv_node :: "node option"
  sv_mapping :: bool
  sv_config :: config
  sv_protocols :: "nat list"
  sv_running :: bool
  sv_close :: chan_state
  sv_has_table :: bool
  sv_peers :: peermap
  sv_tasks :: "(nat \<times> task) list"
  sv_pending :: "(nat \<times> task) list"
  sv_fresh :: nat
  sv_dialer :: dialstate
  sv_now :: time

section \<open>Connections\<close>

definition newPeerConn :: "server \<Rightarrow> int \<Rightarrow> nodeid option \<Rightarrow> peerConn" where
  "newPeerConn srv flag dst =
     \<lparr>pc_id = (case dst of None \<Rightarrow> id_of [] | Some nid \<Rightarrow> nid), pc_self = sv_nodeId srv,
      pc_version = version1, pc_handshakeStatus = 0, pc_flag = flag\<rparr>"

text \<open>One accepted connection of \<^verbatim>\<open>listenLoop\<close>, and \<^verbatim>\<open>dialtask.Do\<close> with the outcome of \<^verbatim>\<open>net.Dial\<close>.\<close>

definition accept_conn :: "bytes \<Rightarrow> server \<Rightarrow> (conn, hs_error, peerConn option) prog" where
  "accept_conn spare srv = serve spare (newPeerConn srv flagInbound None)"

definition dialtask_Do ::
  "bytes \<Rightarrow> server \<Rightarrow> int \<Rightarrow> node \<Rightarrow> conn option \<Rightarrow> (hs_error, peerConn option) res" where
  "dialtask_Do spare srv flag dest dialled =
     (case dialled of None \<Rightarrow> Ok None
      | Some k \<Rightarrow> snd (serve spare (newPeerConn srv flag (Some (node_ID dest))) k))"

text \<open>
  \<^verbatim>\<open>discoverTask.Do\<close> that gets to run at \<^verbatim>\<open>now\<close>: the new \<^verbatim>\<open>lastLookup\<close>, which is when the lookup starts, and the
  nodes found. \<^verbatim>\<open>Lookup\<close> is the table's, \<^verbatim>\<open>target\<close> the random target.
\<close>

definition discoverTask_Do ::
  "(nodeid \<Rightarrow> node list) \<Rightarrow> nodeid \<Rightarrow> bool \<Rightarrow> time \<Rightarrow> time \<Rightarrow> time \<times> node list" where
  "discoverTask_Do Lookup target bootstrap prev now =
     (if bootstrap then (prev, [])
      else
        let nxt = prev + lookupInterval;
            started = (if now < nxt then now + (nxt - now) else now)
        in (started, Lookup target))"

section \<open>The task pool\<close>

definition maxActiveTasks :: nat where "maxActiveTasks = 16"

definition delTask :: "nat \<Rightarrow> server \<Rightarrow> server" where
  "delTask tid srv =
     (case first_index (\<lambda>(i, _). i = tid) (sv_tasks srv) of
        None \<Rightarrow> srv
      | Some i \<Rightarrow> srv\<lparr>sv_tasks := take i (sv_tasks srv) @ drop (Suc i) (sv_tasks srv)\<rparr>)"

definition scheduleTasks :: "(nat \<times> task) list \<Rightarrow> server \<Rightarrow> server" where
  "scheduleTasks new srv =
     (let pt = sv_pending srv @ new;
          start0 = int maxActiveTasks - int (length (sv_tasks srv));
          start = (if int (length pt) < start0 then int (length pt) else start0)
      in if start > 0
         then srv\<lparr>sv_tasks := sv_tasks srv @ take (nat start) pt, sv_pending := drop (nat start) pt\<rparr>
         else srv)"

section \<open>The loop\<close>

text \<open>The pointers of the new tasks are fresh.\<close>

definition number_tasks :: "nat \<Rightarrow> task list \<Rightarrow> (nat \<times> task) list" where
  "number_tasks k ts = zip [k..<k + length ts] ts"

definition srv_round ::
  "(nat \<Rightarrow> uint32 option) \<Rightarrow> table \<Rightarrow> (nodeid \<times> node) list \<Rightarrow> time \<Rightarrow> server \<Rightarrow> (unit, server) res" where
  "srv_round rnd tab order now srv =
     res_bind
       (newTasks (ReadRandomNodes rnd tab) order (length (sv_pending srv) + length (sv_tasks srv))
         (sv_peers srv) now (sv_dialer srv))
       (\<lambda>(nt, ds). Ok (scheduleTasks (number_tasks (sv_fresh srv) nt)
          (srv\<lparr>sv_dialer := ds, sv_fresh := sv_fresh srv + length nt, sv_now := now\<rparr>)))"

datatype srv_event =
    Add_static_ev node
  | Rm_static_ev nodeid
  | Add_peer_ev peerConn conn int
  | Task_done_ev nat "node list"
  | Del_peer_ev nodeid
  | Session_ev nodeid peer_event

text \<open>A finished lookup carries its result.\<close>

fun with_result :: "node list \<Rightarrow> task \<Rightarrow> task" where
  "with_result result (DiscoverTask b _) = DiscoverTask b (if b then [] else result)"
| "with_result result t = t"

fun handle_event :: "srv_event \<Rightarrow> server \<Rightarrow> (unit, server) res" where
  "handle_event (Add_static_ev n) srv = Ok (srv\<lparr>sv_dialer := addStatic n (sv_dialer srv)\<rparr>)"
| "handle_event (Rm_static_ev nid) srv =
     (let srv1 = srv\<lparr>sv_dialer := removeStatic nid (sv_dialer srv)\<rparr>;
          removed = srv1\<lparr>sv_peers := AList.delete nid (sv_peers srv)\<rparr>
      in case map_of (sv_peers srv) nid of None \<Rightarrow> Ok removed
         | Some p \<Rightarrow> (case Close p of (_, Ok _) \<Rightarrow> Ok removed | (_, Err e) \<Rightarrow> Err e | (_, Panic) \<Rightarrow> Panic))"
| "handle_event (Add_peer_ev c k unixNow) srv =
     Ok (srv\<lparr>sv_peers := AList.update (pc_id c) (newPeer unixNow c k) (sv_peers srv)\<rparr>)"
| "handle_event (Task_done_ev tid result) srv =
     (case map_of (sv_tasks srv) tid of None \<Rightarrow> Ok srv
      | Some t \<Rightarrow>
          Ok (delTask tid (srv\<lparr>sv_dialer := taskDone (with_result result t) (sv_now srv) (sv_dialer srv)\<rparr>)))"
| "handle_event (Del_peer_ev nid) srv = Ok (srv\<lparr>sv_peers := AList.delete nid (sv_peers srv)\<rparr>)"
| "handle_event (Session_ev nid e) srv =
     (case map_of (sv_peers srv) nid of None \<Rightarrow> Ok srv
      | Some p \<Rightarrow>
          (case peer_step e p of (p1, Ok _) \<Rightarrow> Ok (srv\<lparr>sv_peers := AList.update nid p1 (sv_peers srv)\<rparr>)
           | (_, Err e) \<Rightarrow> Err e | (_, Panic) \<Rightarrow> Panic))"

text \<open>One turn of the loop; \<^verbatim>\<open>None\<close> is the process that panicked.\<close>

record turn =
  tn_rnd :: "nat \<Rightarrow> uint32 option"
  tn_table :: table
  tn_order :: "(nodeid \<times> node) list"
  tn_now :: time
  tn_event :: srv_event

definition srv_turn :: "turn \<Rightarrow> server option \<Rightarrow> server option" where
  "srv_turn tn s =
     (case s of None \<Rightarrow> None
      | Some srv \<Rightarrow>
          (case res_bind (srv_round (tn_rnd tn) (tn_table tn) (tn_order tn) (tn_now tn) srv)
                  (handle_event (tn_event tn)) of
             Ok srv' \<Rightarrow> Some srv'
           | _ \<Rightarrow> None))"

section \<open>What the application calls\<close>

text \<open>
  Protocols are named by numbers. \<^verbatim>\<open>AddPeer\<close> and \<^verbatim>\<open>RemovePeer\<close> return what they send to the loop. \<^verbatim>\<open>Peers\<close> is given the order in which Go
  ranges over the map.
\<close>

definition Bind :: "nat \<Rightarrow> server \<Rightarrow> server" where
  "Bind p srv = srv\<lparr>sv_protocols := sv_protocols srv @ [p]\<rparr>"

definition AddPeer :: "node \<Rightarrow> srv_event" where
  "AddPeer n = Add_static_ev n"

definition RemovePeer :: "nodeid \<Rightarrow> srv_event" where
  "RemovePeer nid = Rm_static_ev nid"

definition Peers :: "nodeid list \<Rightarrow> server \<Rightarrow> peer list" where
  "Peers order srv = List.map_filter (map_of (sv_peers srv)) order"

section \<open>Starting and stopping\<close>

datatype start_error = AlreadyRunning | ListenUDPFailed

definition newServer :: "nodeid \<Rightarrow> config \<Rightarrow> dialstate \<Rightarrow> server" where
  "newServer nid cfg ds =
     \<lparr>sv_nodeId = nid, sv_node = None, sv_mapping = False, sv_config = cfg, sv_protocols = [], sv_running = False, sv_close = Nil_chan, sv_has_table = False,
      sv_peers = [], sv_tasks = [], sv_pending = [], sv_fresh = 0, sv_dialer = ds, sv_now = 0\<rparr>"

text \<open>
  \<^verbatim>\<open>Start\<close>, given what the network layer answers: \<^verbatim>\<open>udp\<close> is the port of the UDP socket if \<^verbatim>\<open>listenUDP\<close>
  succeeded, and then whether \<^verbatim>\<open>NewUDP\<close> returned a table; \<^verbatim>\<open>tcp\<close> is the resolved TCP address if the address
  resolved and the port could be bound. Otherwise \<^verbatim>\<open>listenAndServe\<close> uses the nil address or listener before
  it looks at the error.
\<close>

definition listenAndServe :: "bytes option \<Rightarrow> nat \<Rightarrow> (server, start_error, unit) prog" where
  "listenAndServe tcp realPort srv =
     (case tcp of None \<Rightarrow> (srv, Panic)
      | Some ip \<Rightarrow>
          (let port = of_nat realPort
           in (srv\<lparr>sv_node := Some (newNode ip port port (sv_nodeId srv)),
                   sv_mapping := \<not> IsLoopback ip \<and> cfg_Nat (sv_config srv)\<rparr>, Ok ())))"

definition Start :: "(nat \<times> bool) option \<Rightarrow> bytes option \<Rightarrow> (server, start_error, unit) prog" where
  "Start udp tcp srv =
     (if sv_running srv then (srv, Err AlreadyRunning)
      else
        let cfg = sv_config srv;
            srv1 = srv\<lparr>sv_running := True, sv_close := Open_chan\<rparr>
        in if cfg_Discover cfg \<and> udp = None then (srv1, Err ListenUDPFailed)
           else
             let srv2 = (if cfg_Discover cfg then srv1\<lparr>sv_has_table := (case udp of None \<Rightarrow> False | Some (_, tab) \<Rightarrow> tab)\<rparr> else srv1);
                 dynPeers = (if \<not> cfg_Discover cfg then 0 else quot2 (cfg_MaxPeers cfg))
             in case newDialState (cfg_StaticNodes cfg) dynPeers of
                  Ok ds \<Rightarrow>
                    if \<not> cfg_Discover cfg then (srv2, Panic)
                    else
                      prog_bind (listenAndServe tcp (case udp of None \<Rightarrow> 0 | Some (port, _) \<Rightarrow> port))
                        (\<lambda>_ s. (s\<lparr>sv_dialer := ds, sv_peers := [], sv_tasks := [], sv_pending := [], sv_running := True\<rparr>, Ok ()))
                        srv2
                | _ \<Rightarrow> (srv2, Panic))"

definition Stop :: "(server, unit, unit) prog" where
  "Stop srv =
     (if sv_close srv \<noteq> Open_chan then (srv, Panic)
      else
        let srv1 = srv\<lparr>sv_close := Closed_chan\<rparr>
        in if sv_has_table srv then (srv1, Ok ()) else (srv1, Panic))"

section \<open>The invariant of the loop\<close>

text \<open>The nodes that a list of tasks dials.\<close>

definition dest_ids :: "(nat \<times> task) list \<Rightarrow> nodeid list" where
  "dest_ids ts = concat (map (\<lambda>(_, t). case t of Dialtask _ n \<Rightarrow> [node_ID n] | _ \<Rightarrow> []) ts)"

abbreviation all_tasks :: "server \<Rightarrow> (nat \<times> task) list" where
  "all_tasks srv \<equiv> sv_tasks srv @ sv_pending srv"

abbreviation dialing_ids :: "server \<Rightarrow> nodeid set" where
  "dialing_ids srv \<equiv> fst ` set (ds_dialing (sv_dialer srv))"

definition tasks_ok :: "(nat \<times> task) list \<Rightarrow> (nat \<times> task) list \<Rightarrow> nat \<Rightarrow> nodeid set \<Rightarrow> bool" where
  "tasks_ok tasks pending k dialing \<longleftrightarrow>
     length tasks \<le> maxActiveTasks \<and>
     distinct (map fst (tasks @ pending)) \<and> (\<forall>i \<in> fst ` set (tasks @ pending). i < k) \<and>
     distinct (dest_ids (tasks @ pending)) \<and> set (dest_ids (tasks @ pending)) \<subseteq> dialing"

definition peers_ok :: "peermap \<Rightarrow> bool" where
  "peers_ok peers \<longleftrightarrow> distinct (map fst peers) \<and> (\<forall>(nid, p) \<in> set peers. peer_ID p = nid)"

definition server_ok :: "server \<Rightarrow> bool" where
  "server_ok srv \<longleftrightarrow>
     tasks_ok (sv_tasks srv) (sv_pending srv) (sv_fresh srv) (dialing_ids srv) \<and>
     dial_ok (sv_dialer srv) \<and> peers_ok (sv_peers srv)"

lemma dest_ids_simps [simp]:
  "dest_ids [] = []" "dest_ids (xs @ ys) = dest_ids xs @ dest_ids ys"
  "dest_ids ((i, t) # xs) = (case t of Dialtask _ n \<Rightarrow> [node_ID n] | _ \<Rightarrow> []) @ dest_ids xs"
  by (simp_all add: dest_ids_def)

lemma dest_ids_number: "dest_ids (number_tasks k ts) = concat (map (\<lambda>t. case t of Dialtask _ n \<Rightarrow> [node_ID n] | _ \<Rightarrow> []) ts)"
proof (induction ts arbitrary: k)
  case (Cons t ts)
  have "number_tasks k (t # ts) = (k, t) # number_tasks (Suc k) ts"
    by (simp add: number_tasks_def upt_conv_Cons del: upt_Suc)
  then show ?case by (simp add: Cons)
qed (simp add: number_tasks_def)

lemma number_tasks_fresh:
  assumes "distinct (map fst xs)" "\<forall>i \<in> fst ` set xs. i < k"
  shows "distinct (map fst (xs @ number_tasks k ts))"
    and "\<forall>i \<in> fst ` set (xs @ number_tasks k ts). i < k + length ts"
proof -
  have m: "map fst (number_tasks k ts) = [k..<k + length ts]" by (simp add: number_tasks_def)
  then have s: "fst ` set (number_tasks k ts) = {k..<k + length ts}" by (metis list.set_map set_upt)
  show "distinct (map fst (xs @ number_tasks k ts))" using assms by (auto simp: m s)
  show "\<forall>i \<in> fst ` set (xs @ number_tasks k ts). i < k + length ts"
    using assms(2) unfolding set_append image_Un s by (auto intro: trans_less_add1)
qed

subsection \<open>Scheduling\<close>

lemma scheduleTasks_all:
  "all_tasks (scheduleTasks new srv) =
     (if length (sv_tasks srv) < maxActiveTasks then all_tasks srv @ new else all_tasks srv)"
proof -
  let ?pt = "sv_pending srv @ new"
  have "take n ?pt @ drop n ?pt = ?pt" for n by (rule append_take_drop_id)
  moreover have "int (length xs) + int (length ys) > 0 \<or> ys = []" for xs ys :: "(nat \<times> task) list"
    by (cases ys) auto
  ultimately show ?thesis
    by (auto simp: scheduleTasks_def Let_def simp del: take_append drop_append)
qed

lemma scheduleTasks_bound:
  "length (sv_tasks srv) \<le> maxActiveTasks \<Longrightarrow> length (sv_tasks (scheduleTasks new srv)) \<le> maxActiveTasks"
  by (auto simp: scheduleTasks_def Let_def)

lemma scheduleTasks_frame [simp]:
  "sv_dialer (scheduleTasks new srv) = sv_dialer srv" "sv_peers (scheduleTasks new srv) = sv_peers srv"
  "sv_fresh (scheduleTasks new srv) = sv_fresh srv" "sv_now (scheduleTasks new srv) = sv_now srv"
  by (simp_all add: scheduleTasks_def Let_def)

subsection \<open>A round\<close>

lemma round_dest_ids:
  assumes "round_result order nRunning peers now ds ns ms extra ds'"
  shows "dest_ids (number_tasks k (dial_tasks (ns @ ms) @ extra)) = map dial_id (ns @ ms)"
proof -
  have "concat (map (\<lambda>t. case t of Dialtask _ n \<Rightarrow> [node_ID n] | _ \<Rightarrow> []) (dial_tasks xs)) = map dial_id xs" for xs
    by (induction xs) (auto simp: dial_id_def)
  moreover have "concat (map (\<lambda>t. case t of Dialtask _ n \<Rightarrow> [node_ID n] | _ \<Rightarrow> []) extra) = []"
    using assms by (auto simp: round_result_def Let_def)
  ultimately show ?thesis unfolding dest_ids_number by (simp only: map_append concat_append append_Nil2)
qed

text \<open>A round hands its tasks over, or, with a full pool, marks their nodes as under dial and drops them.\<close>

lemma srv_round_cases:
  assumes "server_ok srv" "table_ok tab" "\<forall>i. rnd i \<noteq> None"
  obtains ns ms extra ds' srv' nt where
    "nt = dial_tasks (ns @ ms) @ extra" "srv_round rnd tab order now srv = Ok srv'"
    "round_result order (length (sv_pending srv) + length (sv_tasks srv)) (sv_peers srv) now (sv_dialer srv) ns ms extra ds'"
    "sv_dialer srv' = ds'" "sv_peers srv' = sv_peers srv" "sv_now srv' = now"
    "sv_fresh srv' = sv_fresh srv + length nt" "length (sv_tasks srv') \<le> maxActiveTasks"
    "all_tasks srv' = (if length (sv_tasks srv) < maxActiveTasks
       then all_tasks srv @ number_tasks (sv_fresh srv) nt else all_tasks srv)"
proof -
  have "dial_ok (sv_dialer srv)" using assms(1) by (simp add: server_ok_def)
  then obtain ns ms extra ds' where
    r: "newTasks (ReadRandomNodes rnd tab) order (length (sv_pending srv) + length (sv_tasks srv))
          (sv_peers srv) now (sv_dialer srv) = Ok (dial_tasks (ns @ ms) @ extra, ds')"
    and rr: "round_result order (length (sv_pending srv) + length (sv_tasks srv)) (sv_peers srv) now
          (sv_dialer srv) ns ms extra ds'"
    by (rule table_newTasks [OF assms(2,3)])
  let ?nt = "dial_tasks (ns @ ms) @ extra"
  let ?srv = "srv\<lparr>sv_dialer := ds', sv_fresh := sv_fresh srv + length ?nt, sv_now := now\<rparr>"
  let ?srv' = "scheduleTasks (number_tasks (sv_fresh srv) ?nt) ?srv"
  show thesis
  proof (rule that [OF refl _ rr])
    show "srv_round rnd tab order now srv = Ok ?srv'" by (simp add: srv_round_def r)
    show "length (sv_tasks ?srv') \<le> maxActiveTasks"
      using assms(1) by (intro scheduleTasks_bound) (simp add: server_ok_def tasks_ok_def)
    show "all_tasks ?srv' = (if length (sv_tasks srv) < maxActiveTasks
       then all_tasks srv @ number_tasks (sv_fresh srv) ?nt else all_tasks srv)"
      unfolding scheduleTasks_all by simp
  qed simp_all
qed

lemma round_result_dialing:
  "round_result order k peers now ds ns ms extra ds' \<Longrightarrow>
   fst ` set (ds_dialing ds') = fst ` set (ds_dialing ds) \<union> dial_id ` set (ns @ ms)"
  by (elim round_result_dialing_eq [THEN ssubst]) (simp add: image_Un Un_assoc)

lemma round_server_ok:
  assumes "server_ok srv" "table_ok tab" "\<forall>i. rnd i \<noteq> None"
  shows "\<exists>srv'. srv_round rnd tab order now srv = Ok srv' \<and> server_ok srv'"
proof (rule srv_round_cases [OF assms, of order now])
  fix ns ms extra ds' srv' nt
  assume nt: "nt = dial_tasks (ns @ ms) @ extra" and r: "srv_round rnd tab order now srv = Ok srv'"
    and rr: "round_result order (length (sv_pending srv) + length (sv_tasks srv)) (sv_peers srv) now (sv_dialer srv) ns ms extra ds'"
    and fields: "sv_dialer srv' = ds'" "sv_peers srv' = sv_peers srv" "sv_now srv' = now"
      "sv_fresh srv' = sv_fresh srv + length nt" "length (sv_tasks srv') \<le> maxActiveTasks"
    and all: "all_tasks srv' = (if length (sv_tasks srv) < maxActiveTasks
       then all_tasks srv @ number_tasks (sv_fresh srv) nt else all_tasks srv)"
  note ok = assms(1) [unfolded server_ok_def tasks_ok_def]
  have dok: "dial_ok ds'" using dial_ok_newTasks [OF _ rr] ok by blast
  note f = round_result_fresh [OF rr]
  have old: "distinct (map fst (all_tasks srv))" "\<forall>i \<in> fst ` set (all_tasks srv). i < sv_fresh srv"
    using ok by blast+
  have keys: "distinct (map fst (all_tasks srv')) \<and> (\<forall>i \<in> fst ` set (all_tasks srv'). i < sv_fresh srv')"
  proof (cases "length (sv_tasks srv) < maxActiveTasks")
    case True
    then show ?thesis using number_tasks_fresh [OF old, of nt] unfolding all fields(4) by (simp only: if_True)
  next
    case False
    then show ?thesis using old unfolding all fields(4) by (auto simp only: if_False intro: trans_less_add1)
  qed
  have "distinct (dest_ids (all_tasks srv')) \<and> set (dest_ids (all_tasks srv')) \<subseteq> dialing_ids srv'"
  proof -
    have "set (dest_ids (all_tasks srv)) \<subseteq> dialing_ids srv" "distinct (dest_ids (all_tasks srv))" using ok by blast+
    moreover have "distinct (map dial_id (ns @ ms))" using f by (simp only: fresh_def)
    moreover have "dialing_ids srv \<inter> dial_id ` set (ns @ ms) = {}" by (rule fresh_disjoint [OF f])
    moreover have "dialing_ids srv' = dialing_ids srv \<union> dial_id ` set (ns @ ms)"
      using round_result_dialing [OF rr] by (simp only: fields)
    moreover have "dest_ids (all_tasks srv') = dest_ids (all_tasks srv) @
        (if length (sv_tasks srv) < maxActiveTasks then map dial_id (ns @ ms) else [])"
      unfolding all using round_dest_ids [OF rr, of "sv_fresh srv"] nt
      by (cases "length (sv_tasks srv) < maxActiveTasks") (simp_all only: dest_ids_simps if_True if_False append_Nil2)
    ultimately show ?thesis by (auto simp del: dest_ids_simps)
  qed
  then have "server_ok srv'"
    using keys dok fields ok unfolding server_ok_def tasks_ok_def by (simp only:) blast
  with r show ?thesis by blast
qed

subsection \<open>An event\<close>

lemma set_AList_update: "x \<in> set (AList.update k v xs) \<Longrightarrow> x = (k, v) \<or> x \<in> set xs"
  by (induction xs) (auto split: if_splits)

lemma set_AList_delete: "x \<in> set (AList.delete k xs) \<Longrightarrow> x \<in> set xs \<and> fst x \<noteq> k"
  by (auto simp: AList.delete_eq)

lemma keys_AList_delete: "fst ` set (AList.delete k xs) = fst ` set xs - {k}"
  by (force simp: AList.delete_eq)

lemma peer_step_ID: "peer_ID (fst (peer_step e p)) = peer_ID p"
  by (cases "sound_conn p"; cases e)
    (simp_all add: peer_ID_def handle_def write_or_close_sound write_or_close_broken alive_check_def Close_def)

lemma delTask_split:
  assumes "distinct (map fst (sv_tasks srv))" "map_of (sv_tasks srv) tid = Some t"
  obtains xs ys where "sv_tasks srv = xs @ (tid, t) # ys" "delTask tid srv = srv\<lparr>sv_tasks := xs @ ys\<rparr>"
proof -
  let ?ts = "sv_tasks srv"
  have "(tid, t) \<in> set ?ts" using assms(2) by (rule map_of_SomeD)
  then obtain i where i: "first_index (\<lambda>(i, _). i = tid) ?ts = Some i"
    by (cases "first_index (\<lambda>(i, _). i = tid) ?ts") (auto simp: first_index_None)
  from first_index_Some [OF this] have il: "i < length ?ts" and f: "fst (?ts ! i) = tid" by auto
  then have "(tid, snd (?ts ! i)) \<in> set ?ts" by (metis nth_mem prod.collapse)
  then have "?ts ! i = (tid, t)" using assms map_of_is_SomeI [of ?ts] f by (metis option.inject prod.collapse)
  then show thesis
    using that [of "take i ?ts" "drop (Suc i) ?ts"] take_drop_Suc_nth [OF il] i by (simp add: delTask_def)
qed

lemma task_done_server_ok:
  assumes "server_ok srv" "map_of (sv_tasks srv) tid = Some t"
  shows "server_ok (delTask tid (srv\<lparr>sv_dialer := taskDone (with_result result t) now (sv_dialer srv)\<rparr>))"
proof -
  let ?ds = "taskDone (with_result result t) now (sv_dialer srv)"
  let ?srv = "srv\<lparr>sv_dialer := ?ds\<rparr>"
  note ok = assms(1) [unfolded server_ok_def tasks_ok_def]
  obtain xs ys where ts: "sv_tasks ?srv = xs @ (tid, t) # ys"
    and d: "delTask tid ?srv = ?srv\<lparr>sv_tasks := xs @ ys\<rparr>"
    using delTask_split [of ?srv tid t] ok assms(2) by auto
  define rest where "rest = ys @ sv_pending srv"
  have all: "all_tasks srv = xs @ (tid, t) # rest" using ts by (simp add: rest_def)
  have dids: "distinct (dest_ids xs @ (case t of Dialtask _ n \<Rightarrow> [node_ID n] | _ \<Rightarrow> []) @ dest_ids rest)"
    "set (dest_ids xs @ (case t of Dialtask _ n \<Rightarrow> [node_ID n] | _ \<Rightarrow> []) @ dest_ids rest) \<subseteq> dialing_ids srv"
    using ok unfolding all by (simp_all only: dest_ids_simps)
  have dialing: "fst ` set (ds_dialing ?ds) =
      (case t of Dialtask _ n \<Rightarrow> dialing_ids srv - {node_ID n} | _ \<Rightarrow> dialing_ids srv)"
    by (cases t) (simp_all add: Let_def keys_AList_delete)
  have "distinct (dest_ids (xs @ rest)) \<and> set (dest_ids (xs @ rest)) \<subseteq> fst ` set (ds_dialing ?ds)"
    using dids unfolding dialing by (cases t) auto
  moreover have "dial_ok ?ds" using ok by (intro dial_ok_taskDone) simp
  moreover have "length (xs @ ys) \<le> maxActiveTasks" "distinct (map fst (xs @ rest))"
    "\<forall>i \<in> fst ` set (xs @ rest). i < sv_fresh srv"
    using ok ts unfolding all by auto
  moreover have "all_tasks (delTask tid ?srv) = xs @ rest" by (simp add: d rest_def)
  ultimately show ?thesis using ok by (simp add: server_ok_def tasks_ok_def d del: dest_ids_simps)
qed

lemma peers_ok_update: "peers_ok ps \<Longrightarrow> peer_ID p = nid \<Longrightarrow> peers_ok (AList.update nid p ps)"
  using distinct_update [of ps nid p] by (auto simp: peers_ok_def dest!: set_AList_update)

lemma peers_ok_delete: "peers_ok ps \<Longrightarrow> peers_ok (AList.delete nid ps)"
  using distinct_delete [of ps nid] by (auto simp: peers_ok_def dest!: set_AList_delete)

lemma handle_event_ok:
  assumes "server_ok srv" "handle_event e srv = Ok srv'"
  shows "server_ok srv'"
proof -
  note ok = assms(1) [unfolded server_ok_def]
  have upd: "server_ok (srv\<lparr>sv_peers := AList.update nid p (sv_peers srv)\<rparr>)" if "peer_ID p = nid" for nid p
    using ok peers_ok_update [OF _ that] by (simp add: server_ok_def)
  have del: "server_ok (srv\<lparr>sv_dialer := ds, sv_peers := AList.delete nid (sv_peers srv)\<rparr>)"
    if "dial_ok ds" "ds_dialing ds = ds_dialing (sv_dialer srv)" for nid ds
    using ok that peers_ok_delete by (simp add: server_ok_def)
  show ?thesis
  proof (cases e)
    case (Add_static_ev n)
    then show ?thesis using assms ok by (auto simp: server_ok_def addStatic_def dial_ok_def)
  next
    case (Rm_static_ev nid)
    have "dial_ok (removeStatic nid (sv_dialer srv))"
      "ds_dialing (removeStatic nid (sv_dialer srv)) = ds_dialing (sv_dialer srv)"
      using ok by (auto simp: removeStatic_def dial_ok_def)
    from del [OF this] Rm_static_ev assms(2) show ?thesis
      by (auto simp: Let_def split: option.splits prod.splits res.splits)
  next
    case (Add_peer_ev c k n)
    have "peer_ID (newPeer n c k) = pc_id c" by (simp add: peer_ID_def newPeer_def)
    from upd [OF this] show ?thesis using assms(2) Add_peer_ev by auto
  next
    case (Task_done_ev tid result)
    then show ?thesis using assms task_done_server_ok by (auto split: option.splits)
  next
    case (Del_peer_ev nid)
    then show ?thesis using assms(2) del [of "sv_dialer srv" nid] ok by auto
  next
    case (Session_ev nid pe)
    show ?thesis
    proof (cases "map_of (sv_peers srv) nid")
      case None
      then show ?thesis using assms Session_ev by simp
    next
      case (Some p)
      then have "peer_ID p = nid" using ok by (auto simp: peers_ok_def dest!: map_of_SomeD)
      then have "peer_ID (fst (peer_step pe p)) = nid" by (simp add: peer_step_ID)
      from upd [OF this] show ?thesis
        using assms(2) Session_ev Some by (auto split: prod.splits res.splits)
    qed
  qed
qed

definition turn_ok :: "turn \<Rightarrow> bool" where
  "turn_ok tn \<longleftrightarrow> table_ok (tn_table tn) \<and> (\<forall>i. tn_rnd tn i \<noteq> None)"

abbreviation crashed_or :: "(server \<Rightarrow> bool) \<Rightarrow> server option \<Rightarrow> bool" where
  "crashed_or P s \<equiv> (case s of None \<Rightarrow> True | Some srv \<Rightarrow> P srv)"

lemma srv_turn_cases:
  assumes "server_ok srv" "turn_ok tn"
  obtains srv1 where "srv_round (tn_rnd tn) (tn_table tn) (tn_order tn) (tn_now tn) srv = Ok srv1"
    "server_ok srv1"
    "srv_turn tn (Some srv) = (case handle_event (tn_event tn) srv1 of Ok s \<Rightarrow> Some s | _ \<Rightarrow> None)"
  using round_server_ok [OF assms(1), of "tn_table tn" "tn_rnd tn" "tn_order tn" "tn_now tn"] assms(2) that
  by (auto simp: turn_ok_def srv_turn_def)

lemma srv_turn_ok: "server_ok srv \<Longrightarrow> turn_ok tn \<Longrightarrow> crashed_or server_ok (srv_turn tn (Some srv))"
  by (erule (1) srv_turn_cases) (auto split: res.splits dest: handle_event_ok)

interpretation server_loop: guarded "crashed_or server_ok" turn_ok srv_turn
proof
  show "crashed_or server_ok (srv_turn tn s)" if "crashed_or server_ok s" "turn_ok tn" for s tn
    using that srv_turn_ok by (cases s) (auto simp: srv_turn_def)
qed

section \<open>A dial dropped by a full pool\<close>

text \<open>The node is marked as under dial, but no task will dial it.\<close>

definition lost :: "nodeid \<Rightarrow> server \<Rightarrow> bool" where
  "lost nid srv \<longleftrightarrow> server_ok srv \<and> nid \<in> dialing_ids srv \<and> nid \<notin> set (dest_ids (all_tasks srv))"

lemma lost_round:
  assumes "lost nid srv" "table_ok tab" "\<forall>i. rnd i \<noteq> None" "srv_round rnd tab order now srv = Ok srv1"
  shows "lost nid srv1"
proof -
  have ok: "server_ok srv" and dia: "nid \<in> dialing_ids srv" and nt: "nid \<notin> set (dest_ids (all_tasks srv))"
    using assms(1) unfolding lost_def by blast+
  have ok1: "server_ok srv1" using round_server_ok [OF ok assms(2,3), of order now] assms(4) by simp
  show ?thesis
  proof (rule srv_round_cases [OF ok assms(2,3), of order now])
    fix ns ms extra ds' srv' nt
    assume a: "nt = dial_tasks (ns @ ms) @ extra" "srv_round rnd tab order now srv = Ok srv'"
      "sv_dialer srv' = ds'"
      and rr: "round_result order (length (sv_pending srv) + length (sv_tasks srv)) (sv_peers srv) now (sv_dialer srv) ns ms extra ds'"
      and all: "all_tasks srv' = (if length (sv_tasks srv) < maxActiveTasks
        then all_tasks srv @ number_tasks (sv_fresh srv) nt else all_tasks srv)"
    have "srv' = srv1" using a(2) assms(4) by simp
    moreover have "nid \<in> dialing_ids srv'" using round_result_dialing [OF rr] dia a(3) by simp
    moreover have "nid \<notin> set (map dial_id (ns @ ms))"
      using fresh_disjoint [OF round_result_fresh [OF rr]] dia by auto
    then have "nid \<notin> set (dest_ids (all_tasks srv'))"
      using nt unfolding all by (simp add: a(1) round_dest_ids [OF rr, simplified])
    ultimately show ?thesis using ok1 by (simp add: lost_def)
  qed
qed

lemma lost_event:
  assumes "lost nid srv" "handle_event e srv = Ok srv1"
  shows "lost nid srv1"
proof -
  have ok1: "server_ok srv1" using assms handle_event_ok by (auto simp: lost_def)
  have dia: "nid \<in> dialing_ids srv" and nt: "nid \<notin> set (dest_ids (all_tasks srv))"
    using assms(1) unfolding lost_def by blast+
  have "nid \<in> dialing_ids srv1 \<and> set (dest_ids (all_tasks srv1)) \<subseteq> set (dest_ids (all_tasks srv))"
  proof (cases e)
    case (Task_done_ev tid result)
    show ?thesis
    proof (cases "map_of (sv_tasks srv) tid")
      case None
      then show ?thesis using assms(2) Task_done_ev dia by simp
    next
      case (Some t)
      let ?srv = "srv\<lparr>sv_dialer := taskDone (with_result result t) (sv_now srv) (sv_dialer srv)\<rparr>"
      have "distinct (map fst (sv_tasks ?srv))"
        using assms(1) by (simp add: lost_def server_ok_def tasks_ok_def)
      then obtain xs ys where ts: "sv_tasks srv = xs @ (tid, t) # ys"
        and d: "delTask tid ?srv = ?srv\<lparr>sv_tasks := xs @ ys\<rparr>"
        using delTask_split [of ?srv tid t] Some by auto
      have "srv1 = ?srv\<lparr>sv_tasks := xs @ ys\<rparr>" using assms(2) Task_done_ev Some d by simp
      moreover have "nid \<in> fst ` set (ds_dialing (taskDone (with_result result t) (sv_now srv) (sv_dialer srv)))"
        using dia nt ts by (cases t) (auto simp: Let_def keys_AList_delete)
      ultimately show ?thesis using ts by auto
    qed
  qed (use assms(2) dia in \<open>auto simp: addStatic_def removeStatic_def Let_def
        split: option.splits prod.splits res.splits\<close>)
  with nt ok1 show ?thesis by (auto simp: lost_def)
qed

interpretation lost_dial: guarded "crashed_or (lost nid)" turn_ok srv_turn for nid
proof
  fix s tn
  assume s: "crashed_or (lost nid) s" and tn: "turn_ok tn"
  show "crashed_or (lost nid) (srv_turn tn s)"
  proof (cases s)
    case None
    then show ?thesis by (simp add: srv_turn_def)
  next
    case (Some srv)
    with s have l: "lost nid srv" by simp
    then have "server_ok srv" by (simp add: lost_def)
    from this tn show ?thesis
    proof (rule srv_turn_cases)
      fix srv1
      assume r: "srv_round (tn_rnd tn) (tn_table tn) (tn_order tn) (tn_now tn) srv = Ok srv1"
        and t: "srv_turn tn (Some srv) = (case handle_event (tn_event tn) srv1 of Ok s \<Rightarrow> Some s | _ \<Rightarrow> None)"
      have "lost nid srv1" using lost_round [OF l _ _ r] tn by (simp add: turn_ok_def)
      then show ?thesis unfolding Some t by (auto split: res.splits dest: lost_event)
    qed
  qed
qed

section \<open>The properties\<close>

lemma fold_addStatic_fields:
  "ds_hist (fold addStatic ns ds) = ds_hist ds" "ds_dialing (fold addStatic ns ds) = ds_dialing ds"
  "ds_randomNodes (fold addStatic ns ds) = ds_randomNodes ds"
  "ds_maxDynDials (fold addStatic ns ds) = ds_maxDynDials ds"
  by (induction ns arbitrary: ds) (simp_all add: addStatic_def)

lemma newDialState_ok: "newDialState static maxdyn = Ok ds \<Longrightarrow> dial_ok ds"
  by (auto simp: newDialState_def dial_ok_def fold_addStatic_fields heap_inv_def heap_upto_def
      split: if_splits)

lemma Start_server_ok:
  assumes "Start udp tcp srv = (srv', Ok ())"
  shows "server_ok srv'"
  using assms newDialState_ok
  by (auto simp: Start_def Let_def server_ok_def tasks_ok_def peers_ok_def go_defs listenAndServe_def
      split: if_splits res.splits option.splits)

definition demo_config :: config where
  "demo_config = \<lparr>cfg_Discover = True, cfg_MaxPeers = 4, cfg_Nat = False, cfg_StaticNodes = [demo_node]\<rparr>"

definition demo_turn :: "srv_event \<Rightarrow> turn" where
  "demo_turn e = \<lparr>tn_rnd = (\<lambda>_. Some 0), tn_table = demo_table, tn_order = [(node_ID demo_node, demo_node)],
     tn_now = 0, tn_event = e\<rparr>"

lemma demo_turn_ok: "turn_ok (demo_turn e)"
  by (simp add: turn_ok_def demo_turn_def demo_table_ok)

lemma demo_Start: "\<exists>srv'. Start (Some (9000, True)) (Some [127, 0, 0, 1]) (newServer (id_of [1]) demo_config demo_dial) = (srv', Ok ())"
  by (simp add: Start_def newServer_def demo_config_def Let_def newDialState_def quot2_def go_defs
      listenAndServe_def)

text \<open>
  C10: From a successful start on, whatever the loop receives, at most sixteen tasks run at once, no
  node is dialled by two tasks at the same time, running or pending, every node being dialled is
  marked as such, and every peer is filed under its own identifier. The loop is over any routing
  tables that are well formed; the only other outcome is that the process panicked.
\<close>

theorem server_loop_invariant:
  assumes "Start udp tcp srv = (srv1, Ok ())" "\<forall>tn \<in> set turns. turn_ok tn"
    and "fold srv_turn turns (Some srv1) = Some srv2"
  shows "length (sv_tasks srv2) \<le> 16 \<and>
    distinct (dest_ids (sv_tasks srv2 @ sv_pending srv2)) \<and>
    set (dest_ids (sv_tasks srv2 @ sv_pending srv2)) \<subseteq> fst ` set (ds_dialing (sv_dialer srv2)) \<and>
    distinct (map fst (sv_peers srv2)) \<and> (\<forall>(nid, p) \<in> set (sv_peers srv2). peer_ID p = nid)"
proof -
  have "server_ok srv2"
    using server_loop.guarded_run [of "Some srv1" turns] Start_server_ok [OF assms(1)] assms(2,3) by simp
  then show ?thesis
    unfolding server_ok_def tasks_ok_def peers_ok_def maxActiveTasks_def by blast
qed

theorem server_loop_invariant_witness:
  "\<exists>srv1. Start (Some (9000, True)) (Some [127, 0, 0, 1]) (newServer (id_of [1]) demo_config demo_dial) = (srv1, Ok ()) \<and>
    (\<forall>srv2. srv_turn (demo_turn (Del_peer_ev (id_of [4]))) (Some srv1) = Some srv2 \<longrightarrow>
       length (sv_tasks srv2) \<le> 16)"
proof -
  obtain srv1 where s: "Start (Some (9000, True)) (Some [127, 0, 0, 1]) (newServer (id_of [1]) demo_config demo_dial) = (srv1, Ok ())"
    using demo_Start by blast
  have "length (sv_tasks srv2) \<le> 16"
    if "srv_turn (demo_turn (Del_peer_ev (id_of [4]))) (Some srv1) = Some srv2" for srv2
    using server_loop_invariant [OF s, of "[demo_turn (Del_peer_ev (id_of [4]))]" srv2] that demo_turn_ok by simp
  with s show ?thesis by blast
qed

text \<open>
  C29: A dial decided while sixteen tasks are running is lost for good. If the pool is full when a
  round comes to a static node that is neither connected, nor under dial, nor recently dialled, the
  round marks the node as under dial and drops the task; and no later sequence of events, a removal
  and a new addition of the node included, ever makes a task dial it.
\<close>

theorem dial_lost_when_pool_full:
  assumes "server_ok srv" "length (sv_tasks srv) = 16" "turn_ok tn"
    and "(k, n) \<in> set (tn_order tn)" "map_of (sv_peers srv) (node_ID n) = None"
    and "map_of (ds_dialing (sv_dialer srv)) (node_ID n) = None"
    and "\<not> (\<exists>d \<in> set (ds_hist (sv_dialer srv)). pd_id d = node_ID n \<and> tn_now tn \<le> pd_exp d)"
  shows "\<exists>srv1. srv_round (tn_rnd tn) (tn_table tn) (tn_order tn) (tn_now tn) srv = Ok srv1 \<and>
    (\<forall>turns srv2. (\<forall>t \<in> set turns. turn_ok t) \<longrightarrow> fold srv_turn turns (Some srv1) = Some srv2 \<longrightarrow>
       map_of (ds_dialing (sv_dialer srv2)) (node_ID n) \<noteq> None \<and>
       node_ID n \<notin> set (dest_ids (sv_tasks srv2 @ sv_pending srv2)))"
proof -
  have tab: "table_ok (tn_table tn)" "\<forall>i. tn_rnd tn i \<noteq> None" using assms(3) by (simp_all add: turn_ok_def)
  have heap: "heap_inv pd_exp (ds_hist (sv_dialer srv))" using assms(1) by (simp add: server_ok_def dial_ok_def)
  have new: "node_ID n \<notin> dialing_ids srv" using assms(6) by (simp add: map_of_eq_None_iff)
  obtain srv1 where r: "srv_round (tn_rnd tn) (tn_table tn) (tn_order tn) (tn_now tn) srv = Ok srv1"
    and ok1: "server_ok srv1"
    using round_server_ok [OF assms(1) tab] by blast
  have "lost (node_ID n) srv1"
  proof (rule srv_round_cases [OF assms(1) tab, of "tn_order tn" "tn_now tn"])
    fix ns ms extra ds' srv' nt
    let ?H = "hist_expire (tn_now tn) (ds_hist (sv_dialer srv))"
    assume a: "srv_round (tn_rnd tn) (tn_table tn) (tn_order tn) (tn_now tn) srv = Ok srv'" "sv_dialer srv' = ds'"
      and rr: "round_result (tn_order tn) (length (sv_pending srv) + length (sv_tasks srv)) (sv_peers srv) (tn_now tn) (sv_dialer srv) ns ms extra ds'"
      and all: "all_tasks srv' = (if length (sv_tasks srv) < maxActiveTasks
        then all_tasks srv @ number_tasks (sv_fresh srv) nt else all_tasks srv)"
    have "node_ID n \<in> dialing_ids srv \<union> dial_id ` set ns \<union> fst ` set (sv_peers srv) \<or> hist_contains (node_ID n) ?H"
      using rr assms(4) unfolding round_result_def Let_def by blast
    moreover have "\<not> hist_contains (node_ID n) ?H"
      using assms(7) by (auto simp: hist_contains_def list_ex_iff set_hist_expire [OF heap])
    ultimately have "node_ID n \<in> dial_id ` set ns" using new assms(5) by (auto simp: map_of_eq_None_iff)
    then have "node_ID n \<in> dialing_ids srv'" using round_result_dialing [OF rr] a(2) by (simp add: image_Un)
    moreover have "all_tasks srv' = all_tasks srv" using all assms(2) by (simp add: maxActiveTasks_def)
    moreover have "node_ID n \<notin> set (dest_ids (all_tasks srv))"
      using assms(1) new by (auto simp: server_ok_def tasks_ok_def)
    moreover have "srv' = srv1" using a(1) r by simp
    ultimately show ?thesis using ok1 by (simp add: lost_def)
  qed
  then have "lost (node_ID n) srv2"
    if "\<forall>t \<in> set turns. turn_ok t" "fold srv_turn turns (Some srv1) = Some srv2" for turns srv2
    using lost_dial.guarded_run [of "node_ID n" "Some srv1" turns] that by simp
  with r show ?thesis by (auto simp: lost_def map_of_eq_None_iff)
qed

definition demo_full :: server where
  "demo_full = (newServer (id_of [1]) demo_config demo_dial)
     \<lparr>sv_tasks := map (\<lambda>i. (i, WaitExpireTask 0)) [0..<16], sv_fresh := 16\<rparr>"

lemma demo_full_ok: "server_ok demo_full"
proof -
  have "dest_ids (map (\<lambda>i. (i, WaitExpireTask 0)) [0..<16]) = []" by (simp add: dest_ids_def)
  then show ?thesis
    by (simp add: server_ok_def tasks_ok_def peers_ok_def demo_full_def newServer_def maxActiveTasks_def
        demo_dial_ok comp_def del: dest_ids_simps)
qed

theorem dial_lost_when_pool_full_witness:
  "\<exists>srv1. srv_round (\<lambda>_. Some 0) demo_table [(node_ID demo_node, demo_node)] 0 demo_full = Ok srv1 \<and>
     (\<forall>srv2. fold srv_turn (map demo_turn [Task_done_ev 3 [], Rm_static_ev (node_ID demo_node), Add_static_ev demo_node])
        (Some srv1) = Some srv2 \<longrightarrow> node_ID demo_node \<notin> set (dest_ids (sv_tasks srv2)))"
proof -
  have "(\<forall>t \<in> set (map demo_turn [Task_done_ev 3 [], Rm_static_ev (node_ID demo_node), Add_static_ev demo_node]). turn_ok t)"
    by (simp add: demo_turn_ok)
  with dial_lost_when_pool_full [OF demo_full_ok _ demo_turn_ok, of "node_ID demo_node" demo_node "Del_peer_ev (id_of [])"]
  show ?thesis
    by (fastforce simp: demo_turn_def demo_full_def newServer_def demo_dial_def)
qed

text \<open>
  The thirty seconds before a redial run from the start of the round before the dial ended, not
  from its end. However long the dial took, once the task of a static node is reported done, the
  next round that starts more than thirty seconds after that earlier round dials the node again at
  once, provided the node is not connected and has no other unexpired entry in the history.
\<close>

theorem redial_delay_counts_from_round_start:
  assumes "server_ok srv" "turn_ok tn" "map_of (sv_tasks srv) tid = Some (Dialtask flag n)"
    and "(k, n) \<in> set (tn_order tn)" "map_of (sv_peers srv) (node_ID n) = None"
    and "\<forall>d \<in> set (ds_hist (sv_dialer srv)). pd_id d = node_ID n \<longrightarrow> pd_exp d < tn_now tn"
    and "sv_now srv + dialHistoryExpiration < tn_now tn"
  shows "\<exists>srv1 srv2. handle_event (Task_done_ev tid []) srv = Ok srv1 \<and>
    srv_round (tn_rnd tn) (tn_table tn) (tn_order tn) (tn_now tn) srv1 = Ok srv2 \<and>
    node_ID n \<in> set (dest_ids (sv_tasks srv2 @ sv_pending srv2))"
proof -
  let ?ds = "taskDone (Dialtask flag n) (sv_now srv) (sv_dialer srv)"
  let ?srv = "srv\<lparr>sv_dialer := ?ds\<rparr>"
  let ?now = "tn_now tn"
  have tab: "table_ok (tn_table tn)" "\<forall>i. tn_rnd tn i \<noteq> None" using assms(2) by (simp_all add: turn_ok_def)
  have "distinct (map fst (sv_tasks ?srv))" using assms(1) by (simp add: server_ok_def tasks_ok_def)
  then obtain xs ys where ts: "sv_tasks ?srv = xs @ (tid, Dialtask flag n) # ys"
    and d: "delTask tid ?srv = ?srv\<lparr>sv_tasks := xs @ ys\<rparr>"
    using delTask_split [of ?srv tid "Dialtask flag n"] assms(3) by auto
  let ?srv1 = "?srv\<lparr>sv_tasks := xs @ ys\<rparr>"
  have h: "handle_event (Task_done_ev tid []) srv = Ok ?srv1" using assms(3) d by simp
  have ok1: "server_ok ?srv1" using handle_event_ok [OF assms(1) h] .
  have len: "length (sv_tasks ?srv1) < maxActiveTasks"
    using assms(1) ts by (simp add: server_ok_def tasks_ok_def)
  have heap: "heap_inv pd_exp (ds_hist (sv_dialer srv))" using assms(1) by (simp add: server_ok_def dial_ok_def)
  have heap1: "heap_inv pd_exp (ds_hist ?ds)" using ok1 by (simp add: server_ok_def dial_ok_def)
  have gone: "node_ID n \<notin> fst ` set (ds_dialing ?ds)" by (simp add: keys_AList_delete)
  show ?thesis
  proof (rule srv_round_cases [OF ok1 tab, of "tn_order tn" ?now])
    fix ns ms extra ds' srv2 nt
    let ?H = "hist_expire ?now (ds_hist ?ds)"
    assume nt: "nt = dial_tasks (ns @ ms) @ extra"
      and r: "srv_round (tn_rnd tn) (tn_table tn) (tn_order tn) ?now ?srv1 = Ok srv2"
      and rr: "round_result (tn_order tn) (length (sv_pending ?srv1) + length (sv_tasks ?srv1)) (sv_peers ?srv1) ?now (sv_dialer ?srv1) ns ms extra ds'"
      and all: "all_tasks srv2 = (if length (sv_tasks ?srv1) < maxActiveTasks
        then all_tasks ?srv1 @ number_tasks (sv_fresh ?srv1) nt else all_tasks ?srv1)"
    have "node_ID n \<in> fst ` set (ds_dialing (sv_dialer ?srv1)) \<union> dial_id ` set ns \<union> fst ` set (sv_peers ?srv1) \<or>
        hist_contains (node_ID n) (hist_expire ?now (ds_hist (sv_dialer ?srv1)))"
      using rr assms(4) unfolding round_result_def Let_def by blast
    moreover have "\<not> hist_contains (node_ID n) ?H"
      using assms(6,7) by (auto simp: hist_contains_def list_ex_iff set_hist_expire [OF heap1, simplified]
          set_hist_add [OF heap])
    moreover have "node_ID n \<notin> fst ` set (sv_peers srv)" using assms(5) by (simp add: map_of_eq_None_iff)
    ultimately have "node_ID n \<in> dial_id ` set ns" using gone by simp
    then have "node_ID n \<in> set (dest_ids (number_tasks (sv_fresh ?srv1) nt))"
      unfolding nt round_dest_ids [OF rr] by auto
    then have "node_ID n \<in> set (dest_ids (all_tasks srv2))" unfolding all using len by simp
    with h r show ?thesis by blast
  qed
qed

theorem redial_delay_counts_from_round_start_witness:
  "\<exists>srv1 srv2. handle_event (Task_done_ev 0 []) (demo_full\<lparr>sv_tasks := [(0, Dialtask 6 demo_node)],
      sv_dialer := demo_dial\<lparr>ds_dialing := [(node_ID demo_node, 6)]\<rparr>\<rparr>) = Ok srv1 \<and>
    srv_round (\<lambda>_. Some 0) demo_table [(node_ID demo_node, demo_node)] (31 * second) srv1 = Ok srv2 \<and>
    node_ID demo_node \<in> set (dest_ids (sv_tasks srv2 @ sv_pending srv2))"
proof -
  let ?srv = "demo_full\<lparr>sv_tasks := [(0, Dialtask 6 demo_node)],
      sv_dialer := demo_dial\<lparr>ds_dialing := [(node_ID demo_node, 6)]\<rparr>\<rparr>"
  let ?tn = "(demo_turn (Del_peer_ev (id_of [])))\<lparr>tn_now := 31 * second\<rparr>"
  have ok: "server_ok ?srv"
    using demo_dial_ok demo_full_ok
    by (simp add: server_ok_def tasks_ok_def peers_ok_def demo_full_def maxActiveTasks_def dial_ok_def newServer_def)
  have tn: "turn_ok ?tn" using demo_turn_ok by (simp add: turn_ok_def)
  show ?thesis
    using redial_delay_counts_from_round_start [OF ok tn, of 0 6 demo_node "node_ID demo_node"]
    by (simp add: demo_turn_def demo_full_def newServer_def demo_dial_def dialHistoryExpiration_def)
qed

lemma Start_refused: "sv_running srv \<Longrightarrow> Start udp tcp srv = (srv, Err AlreadyRunning)"
  by (simp add: Start_def)

lemma Start_marks_running: "sv_running (fst (Start udp tcp srv))"
  by (auto simp: Start_def Let_def go_defs listenAndServe_def split: res.splits option.splits)

lemma newDialState_result: "newDialState ns m = (if m \<le> - 2 then Panic else newDialState ns m)"
  by (auto simp: newDialState_def quot2_def)

lemma newDialState_total: "- 2 < m \<Longrightarrow> \<exists>ds. newDialState ns m = Ok ds"
  by (auto simp: newDialState_def quot2_def)

lemma Start_result:
  assumes "\<not> sv_running srv"
  shows "snd (Start udp tcp srv) =
    (if cfg_Discover (sv_config srv) \<and> udp = None then Err ListenUDPFailed
     else if cfg_Discover (sv_config srv) \<and> - 4 < cfg_MaxPeers (sv_config srv) \<and> tcp \<noteq> None then Ok ()
     else Panic)"
proof (cases "cfg_Discover (sv_config srv)")
  case False
  then show ?thesis using assms by (simp add: Start_def Let_def newDialState_def quot2_def)
next
  case True
  let ?m = "quot2 (cfg_MaxPeers (sv_config srv))"
  have m: "- 2 < ?m \<longleftrightarrow> - 4 < cfg_MaxPeers (sv_config srv)" by (simp add: quot2_def) presburger
  show ?thesis
  proof (cases "- 2 < ?m")
    case True
    then obtain ds where "newDialState (cfg_StaticNodes (sv_config srv)) ?m = Ok ds"
      using newDialState_total by blast
    then show ?thesis
      using assms \<open>cfg_Discover _\<close> True m by (auto simp: Start_def Let_def go_defs listenAndServe_def split: option.splits)
  next
    case False
    then have "newDialState (cfg_StaticNodes (sv_config srv)) ?m = Panic"
      by (subst newDialState_result) simp
    then show ?thesis using assms \<open>cfg_Discover _\<close> False m by (simp add: Start_def Let_def)
  qed
qed



text \<open>
  Sessions are filed by node identifier only: when a second session with the same node replaces the
  first and the first one ends, the live session disappears from the peers.
\<close>

lemma replaced_session_unlisted:
  assumes "handle_event (Add_peer_ev c1 k1 t1) srv = Ok srv1" "handle_event (Add_peer_ev c2 k2 t2) srv1 = Ok srv2"
    and "pc_id c1 = pc_id c2" "handle_event (Del_peer_ev (pc_id c1)) srv2 = Ok srv3"
  shows "map_of (sv_peers srv2) (pc_id c2) = Some (newPeer t2 c2 k2)" "map_of (sv_peers srv3) (pc_id c2) = None"
  using assms by (auto simp: update_conv' delete_conv')

lemma lookups_spaced:
  "\<not> bootstrap \<Longrightarrow> prev + lookupInterval \<le> fst (discoverTask_Do Lookup target bootstrap prev now) \<and>
   now \<le> fst (discoverTask_Do Lookup target bootstrap prev now)"
  by (simp add: discoverTask_Do_def Let_def)

end
