(* ===== verification/Rpc.thy ===== *)
theory Rpc
  imports Node Go_IP
begin

text \<open>
  discover/types.go and the conversions of discover/udp.go: the four packets of the discovery
  protocol, endpoints, and nodes as they travel in a neighbors packet.
\<close>

definition Version :: int where "Version = 4"
definition respTimeout :: time where "respTimeout = 500000000"
definition expiration :: time where "expiration = 20 * second"
definition refreshInterval :: time where "refreshInterval = 3600 * second"
definition maxNeighbors :: nat where "maxNeighbors = 1024"
definition pingPacket :: byte where "pingPacket = 1"
definition pongPacket :: byte where "pongPacket = 2"
definition findnodePacket :: byte where "findnodePacket = 3"
definition neighborsPacket :: byte where "neighborsPacket = 4"

lemmas packet_types = pingPacket_def pongPacket_def findnodePacket_def neighborsPacket_def

record rpcEndpoint =
  ep_IP :: "bytes option"
  ep_UDP :: uint16
  ep_TCP :: uint16

record rpcNode =
  rn_IP :: bytes
  rn_UDP :: uint16
  rn_TCP :: uint16
  rn_ID :: nodeid

datatype packet =
    Ping int rpcEndpoint rpcEndpoint uint64
  | Pong rpcEndpoint uint64
  | Findnode nodeid uint64
  | Neighbors "rpcNode list" uint64

fun packet_type :: "packet \<Rightarrow> byte" where
  "packet_type (Ping _ _ _ _) = pingPacket"
| "packet_type (Pong _ _) = pongPacket"
| "packet_type (Findnode _ _) = findnodePacket"
| "packet_type (Neighbors _ _) = neighborsPacket"

definition makeEndpoint :: "udpaddr \<Rightarrow> uint16 \<Rightarrow> rpcEndpoint" where
  "makeEndpoint addr tcpPort =
     \<lparr>ep_IP = (case To4 (ua_IP addr) of Some ip \<Rightarrow> Some ip | None \<Rightarrow> To16 (ua_IP addr)),
      ep_UDP = of_int (ua_Port addr), ep_TCP = tcpPort\<rparr>"

definition nodeFromRPC :: "rpcNode \<Rightarrow> node option" where
  "nodeFromRPC rn =
     (if IsMulticast (rn_IP rn) \<or> IsUnspecified (rn_IP rn) \<or> rn_UDP rn = 0 then None
      else Some (newNode (rn_IP rn) (rn_TCP rn) (rn_UDP rn) (rn_ID rn)))"

definition nodeToRPC :: "node \<Rightarrow> rpcNode" where
  "nodeToRPC n = \<lparr>rn_IP = node_IP n, rn_UDP = node_UDP n, rn_TCP = node_TCP n, rn_ID = node_ID n\<rparr>"

text \<open>
  \<^verbatim>\<open>time.Unix(s, 0)\<close>: package time counts seconds from the year 1 in a signed 64-bit integer, so that the
  conversion wraps for very large numbers of seconds.
\<close>

definition unixToInternal :: uint64 where "unixToInternal = 62135596800"

definition unix_time :: "uint64 \<Rightarrow> time" where
  "unix_time s = (sint (s + unixToInternal) - 62135596800) * second"

definition expired :: "time \<Rightarrow> uint64 \<Rightarrow> bool" where
  "expired now ts \<longleftrightarrow> unix_time ts < now"

lemma unix_time_sane:
  assumes "unat ts < 2 ^ 62"
  shows "unix_time ts = int (unat ts) * second"
proof -
  have "int (unat ts) < int (2 ^ 62)" using assms by (simp only: of_nat_less_iff)
  then have ts: "0 \<le> uint ts" "uint ts < 4611686018427387904" "int (unat ts) = uint ts" by simp_all
  have "uint (ts + unixToInternal) = (uint ts + 62135596800) mod 18446744073709551616"
    unfolding unixToInternal_def uint_word_ariths by simp
  then have u: "uint (ts + unixToInternal) = uint ts + 62135596800"
    using ts(1,2) by simp
  have "sint (ts + unixToInternal) = signed_take_bit 63 (uint (ts + unixToInternal))"
    unfolding sint_uint by simp
  also have "\<dots> = uint ts + 62135596800"
    unfolding u using ts(1,2) by (intro signed_take_bit_int_eq_self) simp_all
  finally show ?thesis unfolding unix_time_def ts(3) by simp
qed

lemma nodeFromRPC_nodeToRPC:
  "node_Hash n = node_Hash (newNode (node_IP n) (node_TCP n) (node_UDP n) (node_ID n)) \<Longrightarrow>
   \<not> IsMulticast (node_IP n) \<Longrightarrow> \<not> IsUnspecified (node_IP n) \<Longrightarrow> node_UDP n \<noteq> 0 \<Longrightarrow>
   nodeFromRPC (nodeToRPC n) = Some n"
  by (simp add: nodeFromRPC_def nodeToRPC_def newNode_def)

end
