(* ===== verification/Go_IP_Text.thy ===== *)
theory Go_IP_Text
  imports Go_IP Go_Binary
begin

text \<open>
  Decimal numbers, and the text form of IP addresses of package net: \<^verbatim>\<open>String\<close> and \<^verbatim>\<open>ParseIP\<close>. The text of every address of 4 or 16
  bytes parses to the address.
\<close>

section \<open>Decimal numbers\<close>

fun dec :: "nat \<Rightarrow> bytes" where
  "dec n = (if n < 10 then [of_nat (48 + n)] else dec (n div 10) @ [of_nat (48 + n mod 10)])"

declare dec.simps [simp del]

definition dec_int :: "int \<Rightarrow> bytes" where
  "dec_int i = (if i < 0 then bytes_of ''-'' @ dec (nat (- i)) else dec (nat i))"

lemma dec_nonempty: "dec n \<noteq> []"
  by (subst dec.simps) simp

lemma length_dec_ge: "1 \<le> length (dec n)"
  using dec_nonempty [of n] by (cases "dec n") auto

lemma length_dec_less: "n < 10 ^ k \<Longrightarrow> 0 < k \<Longrightarrow> length (dec n) \<le> k"
proof (induction k arbitrary: n)
  case (Suc k)
  show ?case
  proof (cases "n < 10")
    case True
    then show ?thesis by (subst dec.simps) simp
  next
    case False
    then have "n div 10 < 10 ^ k" "0 < k"
      using Suc.prems by (auto simp: less_mult_imp_div_less mult.commute intro: gr0I)
    with Suc.IH [of "n div 10"] False show ?thesis by (subst dec.simps) simp
  qed
qed simp

section \<open>IP addresses\<close>

definition dotted :: "bytes \<Rightarrow> bytes" where
  "dotted ip4 = dec (unat (ip4 ! 0)) @ bytes_of ''.'' @ dec (unat (ip4 ! 1)) @ bytes_of ''.'' @
     dec (unat (ip4 ! 2)) @ bytes_of ''.'' @ dec (unat (ip4 ! 3))"

fun groups :: "bytes \<Rightarrow> nat list" where
  "groups (a # b # bs) = (256 * unat a + unat b) # groups bs"
| "groups _ = []"

definition hexDigit :: "nat \<Rightarrow> byte" where
  "hexDigit d = (if d < 10 then of_nat (48 + d) else of_nat (87 + d))"

fun hex_group :: "nat \<Rightarrow> bytes" where
  "hex_group n = (if n < 16 then [hexDigit n] else hex_group (n div 16) @ [hexDigit (n mod 16)])"

declare hex_group.simps [simp del]

text \<open>The longest run of zero groups, as the half-open interval \<^verbatim>\<open>(e0, e1)\<close>.\<close>

function zero_run :: "nat list \<Rightarrow> nat \<Rightarrow> nat \<times> nat \<Rightarrow> nat \<times> nat" where
  "zero_run [] i e = e"
| "zero_run (g # gs) i (e0, e1) =
     (let r = length (takeWhile (\<lambda>x. x = 0) (g # gs)) in
      if r > 0 \<and> r > e1 - e0 then zero_run (drop r gs) (i + r + 1) (i, i + r)
      else zero_run gs (i + 1) (e0, e1))"
  by pat_completeness auto
termination
  by (relation "measure (\<lambda>(gs, _, _). length gs)") auto

function v6_text :: "nat list \<Rightarrow> nat \<Rightarrow> nat \<times> nat \<Rightarrow> bytes" where
  "v6_text gs i (e0, e1) =
     (if length gs \<le> i then []
      else if e0 < e1 \<and> i = e0 then
        bytes_of ''::'' @ (if length gs \<le> e1 then [] else hex_group (gs ! e1) @ v6_text gs (e1 + 1) (e0, e1))
      else (if i > 0 then bytes_of '':'' else []) @ hex_group (gs ! i) @ v6_text gs (i + 1) (e0, e1))"
  by pat_completeness auto
termination
  by (relation "measure (\<lambda>(gs, i, _). length gs - i)") auto

definition IP_String :: "bytes \<Rightarrow> bytes" where
  "IP_String ip =
     (case To4 ip of Some ip4 \<Rightarrow> dotted ip4
      | None \<Rightarrow>
          if ip = [] then bytes_of ''<nil>''
          else if length ip \<noteq> 16 then bytes_of ''?'' @ hex_encode ip
          else
            let gs = groups ip;
                e = zero_run gs 0 (0, 0);
                e' = (if snd e - fst e \<le> 1 then (0, 0) else e)
            in v6_text gs 0 e')"

text \<open>\<^verbatim>\<open>MarshalText\<close>: an address of a length other than 0, 4 or 16 is an error.\<close>

definition IP_MarshalText :: "bytes \<Rightarrow> bytes option" where
  "IP_MarshalText ip =
     (if ip = [] then Some []
      else if length ip \<noteq> 4 \<and> length ip \<noteq> 16 then None
      else Some (IP_String ip))"

section \<open>Reading numbers and addresses\<close>

definition is_digit :: "byte \<Rightarrow> bool" where "is_digit b \<longleftrightarrow> 48 \<le> b \<and> b \<le> 57"

fun hex_nat :: "bytes \<Rightarrow> nat \<Rightarrow> nat option" where
  "hex_nat [] acc = Some acc"
| "hex_nat (b # bs) acc =
     (case fromHexChar b of None \<Rightarrow> None | Some d \<Rightarrow> hex_nat bs (16 * acc + unat d))"

fun dec_nat :: "bytes \<Rightarrow> nat \<Rightarrow> nat option" where
  "dec_nat [] acc = Some acc"
| "dec_nat (b # bs) acc =
     (if is_digit b then dec_nat bs (10 * acc + (unat b - 48)) else None)"

text \<open>\<^verbatim>\<open>net.ParseIP\<close>: four decimal fields without leading zeros, or the groups of an IPv6 address.\<close>

definition v4_field :: "bytes \<Rightarrow> byte option" where
  "v4_field f =
     (if length f > 3 \<or> (length f > 1 \<and> hd f = 48) then None
      else if f = [] then None
      else case dec_nat f 0 of Some n \<Rightarrow> if n \<le> 255 then Some (of_nat n) else None | None \<Rightarrow> None)"

fun split_dots :: "bytes \<Rightarrow> bytes list" where
  "split_dots [] = [[]]"
| "split_dots (b # bs) =
     (if b = 46 then [] # split_dots bs
      else case split_dots bs of [] \<Rightarrow> [[b]] | f # fs \<Rightarrow> (b # f) # fs)"

fun all_some :: "'a option list \<Rightarrow> 'a list option" where
  "all_some [] = Some []"
| "all_some (None # xs) = None"
| "all_some (Some x # xs) = map_option (Cons x) (all_some xs)"

definition parseIPv4 :: "bytes \<Rightarrow> bytes option" where
  "parseIPv4 s =
     (if length (split_dots s) = 4 then all_some (map v4_field (split_dots s)) else None)"

definition is_hex :: "byte \<Rightarrow> bool" where "is_hex b \<longleftrightarrow> fromHexChar b \<noteq> None"

text \<open>
  The loop over the groups of an IPv6 address: \<^verbatim>\<open>k\<close> groups are still free, \<^verbatim>\<open>acc\<close> holds the bytes read,
  \<^verbatim>\<open>e\<close> the position of the double colon.
\<close>

definition v6_done :: "bytes \<Rightarrow> nat option \<Rightarrow> bytes option" where
  "v6_done acc e =
     (if length acc < 16 then
        (case e of None \<Rightarrow> None
         | Some i \<Rightarrow> Some (take i acc @ replicate (16 - length acc) 0 @ drop i acc))
      else if e = None then Some acc else None)"

fun v6_groups :: "nat \<Rightarrow> bytes \<Rightarrow> nat option \<Rightarrow> bytes \<Rightarrow> bytes option" where
  "v6_groups 0 acc e s = None"
| "v6_groups (Suc k) acc e s =
     (let ds = takeWhile is_hex s; r = drop (length ds) s in
      if ds = [] \<or> length ds > 4 then None
      else if take 1 r = [46] then
        (if (e = None \<and> length acc \<noteq> 12) \<or> length acc > 12 then None
         else case parseIPv4 s of None \<Rightarrow> None | Some ip4 \<Rightarrow> v6_done (acc @ ip4) e)
      else
        (case hex_nat ds 0 of None \<Rightarrow> None
         | Some n \<Rightarrow>
             let acc1 = acc @ [of_nat (n div 256), of_nat (n mod 256)] in
             (case r of
                [] \<Rightarrow> v6_done acc1 e
              | c # r1 \<Rightarrow>
                  if c \<noteq> 58 \<or> r1 = [] then None
                  else if hd r1 = 58 then
                    (if e \<noteq> None then None
                     else if tl r1 = [] then v6_done acc1 (Some (length acc1))
                     else v6_groups k acc1 (Some (length acc1)) (tl r1))
                  else v6_groups k acc1 e r1)))"

definition parseIPv6 :: "bytes \<Rightarrow> bytes option" where
  "parseIPv6 s =
     (if take 2 s = [58, 58] then
        (if drop 2 s = [] then Some (replicate 16 0) else v6_groups 8 [] (Some 0) (drop 2 s))
      else v6_groups 8 [] None s)"

definition ParseIP :: "bytes \<Rightarrow> bytes option" where
  "ParseIP s =
     (case find (\<lambda>b. b = 46 \<or> b = 58) s of
        Some b \<Rightarrow> if b = 46 then map_option ((@) v4InV6Prefix) (parseIPv4 s) else parseIPv6 s
      | None \<Rightarrow> None)"

section \<open>Decimal numbers read back\<close>

lemma dec_nat_append: "dec_nat (xs @ ys) acc = (case dec_nat xs acc of None \<Rightarrow> None | Some n \<Rightarrow> dec_nat ys n)"
  by (induction xs acc rule: dec_nat.induct) auto

lemma digit_byte:
  assumes "d < 10"
  shows "is_digit (of_nat (48 + d))" "unat (of_nat (48 + d) :: byte) = 48 + d" "(of_nat (48 + d) :: byte) = 48 \<longleftrightarrow> d = 0"
proof -
  show u: "unat (of_nat (48 + d) :: byte) = 48 + d" using assms by (simp only: unat_of_nat) simp
  show "is_digit (of_nat (48 + d))" using assms unfolding is_digit_def word_le_nat_alt u by simp
  show "(of_nat (48 + d) :: byte) = 48 \<longleftrightarrow> d = 0" unfolding word_unat_eq_iff u by simp
qed

lemma dec_nat_dec [simp]: "dec_nat (dec n) 0 = Some n"
proof (induction n rule: dec.induct)
  case (1 n)
  show ?case
  proof (cases "n < 10")
    case True
    with digit_byte [of n] show ?thesis by (simp add: dec.simps [of n] del: of_nat_add)
  next
    case False
    with 1 digit_byte [of "n mod 10"] show ?thesis
      by (simp add: dec.simps [of n] dec_nat_append del: of_nat_add)
  qed
qed

lemma dec_digits: "list_all is_digit (dec n)"
proof (induction n rule: dec.induct)
  case (1 n)
  show ?case
  proof (cases "n < 10")
    case True
    with digit_byte [of n] show ?thesis by (simp add: dec.simps [of n] del: of_nat_add)
  next
    case False
    with 1 digit_byte [of "n mod 10"] show ?thesis
      by (simp add: dec.simps [of n] del: of_nat_add)
  qed
qed

lemma dec_hd: "hd (dec n) = 48 \<longleftrightarrow> n = 0"
proof (induction n rule: dec.induct)
  case (1 n)
  show ?case
  proof (cases "n < 10")
    case True
    with digit_byte [of n] show ?thesis by (simp add: dec.simps [of n] del: of_nat_add)
  next
    case False
    with 1 dec_nonempty [of "n div 10"] show ?thesis
      by (simp add: dec.simps [of n] hd_append del: of_nat_add)
  qed
qed

lemma dec_zero [simp]: "dec 0 = [48]"
  by (simp add: dec.simps)

section \<open>IPv4 addresses read back\<close>

lemma length_dec_byte: "length (dec (unat (b :: byte))) \<le> 3"
  using length_dec_less [of "unat b" 3] unat_byte_less [of b] by simp

lemma v4_field_dec [simp]: "v4_field (dec (unat b)) = Some b"
proof -
  have "unat b \<le> 255" using unat_byte_less [of b] by linarith
  moreover have "\<not> (1 < length (dec n) \<and> hd (dec n) = 48)" for n
    by (cases "n = 0") (simp_all add: dec_hd)
  then have "\<not> (1 < length (dec (unat b)) \<and> hd (dec (unat b)) = 48)" .
  ultimately show ?thesis
    using length_dec_byte [of b] dec_nonempty [of "unat b"] unfolding v4_field_def by simp
qed

lemma split_dots_append: "46 \<notin> set f \<Longrightarrow> split_dots (f @ 46 # s) = f # split_dots s"
  by (induction f) auto

lemma split_dots_single: "46 \<notin> set f \<Longrightarrow> split_dots f = [f]"
  by (induction f) auto

lemma dec_no_mark: "46 \<notin> set (dec n)" "58 \<notin> set (dec n)"
  using dec_digits [of n] by (auto simp: list_all_iff is_digit_def)

lemma find_append_None: "\<forall>x \<in> set xs. \<not> P x \<Longrightarrow> find P (xs @ ys) = find P ys"
  by (induction xs) auto

lemma parseIPv4_dotted: "length ip4 = 4 \<Longrightarrow> parseIPv4 (dotted ip4) = Some ip4"
proof -
  assume "length ip4 = 4"
  then obtain a b c d where ip: "ip4 = [a, b, c, d]"
    by (auto simp: numeral_eq_Suc length_Suc_conv)
  show ?thesis
    unfolding ip by (simp add: parseIPv4_def dotted_def bytes_of_def split_dots_append split_dots_single dec_no_mark)
qed

lemma ParseIP_IP_String:
  assumes "To4 ip = Some ip4"
  shows "ParseIP (IP_String ip) = To16 ip"
proof -
  have len: "length ip4 = 4" using assms by (rule To4_length)
  have "find (\<lambda>b. b = 46 \<or> b = 58) (dotted ip4) = Some 46"
    unfolding dotted_def using dec_no_mark [of "unat (ip4 ! 0)"]
    by (subst find_append_None) (auto simp: bytes_of_def)
  moreover have "To16 ip = Some (v4InV6Prefix @ ip4)"
    using assms by (auto simp: To4_def To16_def split: if_splits) (metis append_take_drop_id)
  ultimately show ?thesis
    using assms parseIPv4_dotted [OF len] by (simp add: ParseIP_def IP_String_def)
qed

section \<open>IPv6 addresses read back\<close>

lemma hexDigit_value: "d < 16 \<Longrightarrow> fromHexChar (hexDigit d) = Some (of_nat d)"
  using fromHexChar_hextable [of d] by (simp add: hexDigit_def hextable_def if_distrib)

lemma hex_nat_append: "hex_nat (bs @ [b]) acc =
    (case hex_nat bs acc of None \<Rightarrow> None | Some n \<Rightarrow> map_option (\<lambda>d. 16 * n + unat d) (fromHexChar b))"
  by (induction bs acc rule: hex_nat.induct) (auto split: option.split)

lemma hex_group_chars: "list_all is_hex (hex_group n)" "hex_group n \<noteq> []"
proof -
  show "hex_group n \<noteq> []" by (subst hex_group.simps) simp
  show "list_all is_hex (hex_group n)"
  proof (induction n rule: hex_group.induct)
    case (1 n)
    have "is_hex (hexDigit (n mod 16))" by (simp add: is_hex_def hexDigit_value)
    moreover have "is_hex (hexDigit n)" if "n < 16" using that by (simp add: is_hex_def hexDigit_value)
    ultimately show ?case using 1 by (subst hex_group.simps) auto
  qed
qed

lemma hex_group_value: "hex_nat (hex_group n) 0 = Some n"
proof (induction n rule: hex_group.induct)
  case (1 n)
  have small: "unat (of_nat d :: byte) = d" if "d < 16" for d using that by (simp add: unat_of_nat take_bit_eq_mod)
  show ?case
  proof (cases "n < 16")
    case True
    then show ?thesis by (subst hex_group.simps) (simp add: hexDigit_value small)
  next
    case False
    have "n = 16 * (n div 16) + n mod 16" by simp
    with 1 [OF False] False show ?thesis
      by (subst hex_group.simps) (simp add: hex_nat_append hexDigit_value small)
  qed
qed

lemma hex_group_length: "n < 16 ^ Suc k \<Longrightarrow> length (hex_group n) \<le> Suc k"
proof (induction k arbitrary: n)
  case 0
  then show ?case by (subst hex_group.simps) simp
next
  case (Suc k)
  then have "n div 16 < 16 ^ Suc k" by (simp add: less_mult_imp_div_less mult.commute)
  with Suc.IH [of "n div 16"] show ?case by (subst hex_group.simps) simp
qed

text \<open>The text of consecutive groups, and the bytes of groups.\<close>

fun hexes :: "nat list \<Rightarrow> bytes" where
  "hexes [] = []"
| "hexes (g # gs) = hex_group g @ concat (map (\<lambda>h. 58 # hex_group h) gs)"

definition gbytes :: "nat list \<Rightarrow> bytes" where
  "gbytes gs = concat (map (\<lambda>n. [of_nat (n div 256), of_nat (n mod 256)]) gs)"

lemma gbytes_simps [simp]:
  "gbytes [] = []" "gbytes (g # gs) = of_nat (g div 256) # of_nat (g mod 256) # gbytes gs" "gbytes (gs @ hs) = gbytes gs @ gbytes hs"
  "length (gbytes gs) = 2 * length gs"
  by (simp_all add: gbytes_def) (induction gs, simp_all)

lemma not_hex: "\<not> is_hex 58" "\<not> is_hex 46"
  by (simp_all add: is_hex_def fromHexChar_def)

lemma takeWhile_group: "takeWhile is_hex (hex_group g @ 58 # s) = hex_group g" "takeWhile is_hex (hex_group g) = hex_group g"
  using hex_group_chars(1) [of g] by (simp_all add: list_all_iff not_hex takeWhile_append2)

lemma hexes_Cons2: "hexes (g # h # gs) = hex_group g @ 58 # hexes (h # gs)"
  by simp

lemma hd_group: "hd (hex_group g @ s) \<noteq> 58" "take 2 (hex_group g @ s) \<noteq> [58, 58]" "hex_group g @ s \<noteq> []"
  using hex_group_chars [of g] not_hex by (cases "hex_group g"; auto)+

lemma hexes_start: "hexes (h # hs) @ s \<noteq> []" "hd (hexes (h # hs) @ s) \<noteq> 58" "take 2 (hexes (h # hs) @ s) \<noteq> [58, 58]"
  unfolding hexes.simps append_assoc by (rule hd_group)+

text \<open>Reading the groups after the double colon, or of an address without one.\<close>

lemma v6_groups_hexes:
  assumes "gs \<noteq> []" "\<forall>g \<in> set gs. g < 65536" "length gs \<le> k"
  shows "v6_groups k acc e (hexes gs) = v6_done (acc @ gbytes gs) e"
  using assms
proof (induction gs arbitrary: k acc)
  case (Cons g gs)
  then obtain k' where k: "k = Suc k'" by (cases k) auto
  have len: "length (hex_group g) \<le> 4" using hex_group_length [of g 3] Cons.prems(2) by simp
  show ?case
  proof (cases gs)
    case Nil
    then show ?thesis using len hex_group_chars(2) [of g] by (simp add: k takeWhile_group hex_group_value)
  next
    case (Cons h hs)
    have IH: "v6_groups k' (acc @ gbytes [g]) e (hexes (h # hs)) = v6_done ((acc @ gbytes [g]) @ gbytes (h # hs)) e"
      using Cons.IH [of k' "acc @ gbytes [g]"] Cons.prems k Cons by simp
    have "hexes (h # hs) \<noteq> []" "hd (hexes (h # hs)) \<noteq> 58" using hexes_start [of h hs "[]"] by simp_all
    then show ?thesis
      unfolding k Cons hexes_Cons2 v6_groups.simps takeWhile_group Let_def
      using IH len hex_group_chars(2) [of g] by (simp add: hex_group_value del: hexes.simps)
  qed
qed simp

text \<open>Reading the groups before the double colon.\<close>

lemma v6_groups_ellipsis:
  assumes "gs \<noteq> []" "\<forall>g \<in> set gs. g < 65536" "length gs \<le> k"
  shows "v6_groups k acc None (hexes gs @ 58 # 58 # s) =
    (if s = [] then v6_done (acc @ gbytes gs) (Some (length acc + 2 * length gs))
     else v6_groups (k - length gs) (acc @ gbytes gs) (Some (length acc + 2 * length gs)) s)"
  using assms
proof (induction gs arbitrary: k acc)
  case (Cons g gs)
  then obtain k' where k: "k = Suc k'" by (cases k) auto
  have len: "length (hex_group g) \<le> 4" using hex_group_length [of g 3] Cons.prems(2) by simp
  show ?case
  proof (cases gs)
    case Nil
    then show ?thesis using len hex_group_chars(2) [of g] by (simp add: k takeWhile_group hex_group_value)
  next
    case (Cons h hs)
    note IH = Cons.IH [of k' "acc @ gbytes [g]"]
    have ne: "hexes (h # hs) @ 58 # 58 # s \<noteq> []" "hd (hexes (h # hs) @ 58 # 58 # s) \<noteq> 58" by (rule hexes_start)+
    have "v6_groups k acc None (hexes (g # gs) @ 58 # 58 # s) =
        v6_groups k' (acc @ gbytes [g]) None (hexes (h # hs) @ 58 # 58 # s)"
      unfolding k Cons hexes_Cons2 append.assoc append_Cons v6_groups.simps takeWhile_group Let_def
      using len ne hex_group_chars(2) [of g] by (simp add: hex_group_value del: hexes.simps)
    then show ?thesis using IH Cons.prems k Cons by (simp del: hexes.simps v6_groups.simps)
  qed
qed simp

declare v6_text.simps [simp del]

text \<open>The text \<^verbatim>\<open>String\<close> prints, in terms of \<^verbatim>\<open>hexes\<close>.\<close>

lemma v6_text_tail:
  assumes "0 < i" "e0 < e1 \<longrightarrow> e0 < i"
  shows "v6_text gs i (e0, e1) = concat (map (\<lambda>h. 58 # hex_group h) (drop i gs))"
  using assms
proof (induction "length gs - i" arbitrary: i)
  case 0
  then show ?case by (subst v6_text.simps) simp
next
  case (Suc n)
  then have i: "i < length gs" and n: "n = length gs - Suc i" by simp_all
  have "v6_text gs (i + 1) (e0, e1) = concat (map (\<lambda>h. 58 # hex_group h) (drop (Suc i) gs))"
    using Suc.hyps(1) [OF n] Suc.prems by auto
  moreover have "\<not> (e0 < e1 \<and> i = e0)" using Suc.prems by auto
  ultimately show ?case using i Suc.prems(1) unfolding v6_text.simps [of gs i]
    by (simp only: if_False) (simp add: Cons_nth_drop_Suc [symmetric] bytes_of_def)
qed

lemma v6_text_plain: "v6_text gs 0 (0, 0) = hexes gs"
proof (cases gs)
  case Nil
  then show ?thesis by (subst v6_text.simps) simp
next
  case (Cons g hs)
  then show ?thesis using v6_text_tail [of 1 0 0 gs] by (subst v6_text.simps) simp
qed

lemma v6_text_after:
  assumes "e0 < e1" "e1 \<le> length gs"
  shows "v6_text gs e0 (e0, e1) = [58, 58] @ hexes (drop e1 gs)"
proof (cases "e1 = length gs")
  case True
  with assms show ?thesis by (subst v6_text.simps) (simp add: bytes_of_def)
next
  case False
  with assms have "e1 < length gs" by simp
  then show ?thesis using assms v6_text_tail [of "e1 + 1" e0 e1 gs]
    by (subst v6_text.simps) (simp add: bytes_of_def Cons_nth_drop_Suc [symmetric])
qed

lemma v6_text_before:
  assumes "0 < i" "i \<le> e0" "e0 < e1" "e1 \<le> length gs"
  shows "v6_text gs i (e0, e1) = concat (map (\<lambda>h. 58 # hex_group h) (drop i (take e0 gs))) @ [58, 58] @ hexes (drop e1 gs)"
  using assms
proof (induction "e0 - i" arbitrary: i)
  case 0
  then have "i = e0" by simp
  with 0 v6_text_after [of e0 e1 gs] show ?case by simp
next
  case (Suc n)
  then have i: "i < e0" by simp
  have "drop i (take e0 gs) = gs ! i # drop (Suc i) (take e0 gs)" using i Suc.prems by (subst Cons_nth_drop_Suc [symmetric]) auto
  moreover have "v6_text gs (i + 1) (e0, e1) =
      concat (map (\<lambda>h. 58 # hex_group h) (drop (Suc i) (take e0 gs))) @ [58, 58] @ hexes (drop e1 gs)"
    using Suc.hyps(1) [of "Suc i"] Suc.hyps(2) Suc.prems i by simp
  ultimately show ?case using i Suc.prems by (subst v6_text.simps) (simp add: bytes_of_def)
qed

lemma v6_text_ellipsis:
  assumes "e0 < e1" "e1 \<le> length gs"
  shows "v6_text gs 0 (e0, e1) = hexes (take e0 gs) @ [58, 58] @ hexes (drop e1 gs)"
proof (cases "e0 = 0")
  case True
  then show ?thesis using v6_text_after [OF assms] by simp
next
  case False
  then obtain g hs where gs: "gs = g # hs" "take e0 gs = g # take (e0 - 1) hs" using assms by (cases gs) (auto simp: take_Cons')
  have "v6_text gs 0 (e0, e1) = hex_group g @ v6_text gs 1 (e0, e1)"
    using False assms gs(1) by (subst v6_text.simps) simp
  also have "v6_text gs 1 (e0, e1) = concat (map (\<lambda>h. 58 # hex_group h) (drop 1 (take e0 gs))) @ [58, 58] @ hexes (drop e1 gs)"
    using v6_text_before [of 1 e0 e1 gs] False assms by simp
  finally show ?thesis by (simp add: gs(2))
qed

text \<open>A run of zero groups.\<close>

definition zeros_at :: "nat list \<Rightarrow> nat \<times> nat \<Rightarrow> bool" where
  "zeros_at gs e \<longleftrightarrow> fst e \<le> snd e \<and> snd e \<le> length gs \<and> (\<forall>k. fst e \<le> k \<and> k < snd e \<longrightarrow> gs ! k = 0)"

lemma takeWhile_zeros:
  assumes "hs = drop i gs" "i \<le> length gs"
  shows "zeros_at gs (i, i + length (takeWhile (\<lambda>x. x = 0) hs))"
proof -
  have "length (takeWhile (\<lambda>x. x = 0) hs) \<le> length gs - i" using length_takeWhile_le [of "\<lambda>x. x = 0" hs] assms(1) by simp
  moreover have "gs ! k = 0" if "i \<le> k" "k < i + length (takeWhile (\<lambda>x. x = 0) hs)" for k
  proof -
    have k: "k - i < length (takeWhile (\<lambda>x. x = 0) hs)" using that by simp
    then have "takeWhile (\<lambda>x. x = 0) hs ! (k - i) \<in> set (takeWhile (\<lambda>x. x = 0) hs)" by (rule nth_mem)
    then have "hs ! (k - i) = 0" using takeWhile_nth [OF k] by (auto dest: set_takeWhileD)
    then show ?thesis using assms that(1) by simp
  qed
  ultimately show ?thesis using assms(2) by (simp add: zeros_at_def)
qed

lemma zero_run_zeros: "hs = drop i gs \<Longrightarrow> zeros_at gs e \<Longrightarrow> zeros_at gs (zero_run hs i e)"
proof (induction hs i e rule: zero_run.induct)
  case (2 g hs i e0 e1)
  let ?r = "length (takeWhile (\<lambda>x. x = 0) (g # hs))"
  have i: "i \<le> length gs" using 2(3) by (metis drop_all le_cases list.distinct(1))
  have hs: "hs = drop (Suc i) gs" using 2(3) by (metis drop_Suc list.sel(3) tl_drop)
  show ?case
  proof (cases "?r > 0 \<and> ?r > e1 - e0")
    case True
    have "drop ?r hs = drop (i + ?r + 1) gs" by (simp add: hs add.commute)
    then show ?thesis using 2(1) [OF refl True] takeWhile_zeros [OF 2(3) i] True by (simp add: Let_def)
  next
    case False
    then have "zero_run (g # hs) i (e0, e1) = zero_run hs (i + 1) (e0, e1)" unfolding zero_run.simps Let_def by (rule if_not_P)
    then show ?thesis using 2(2) [OF refl False] hs 2(4) by simp
  qed
qed simp

lemma groups_bytes:
  assumes "length ip = 2 * n"
  shows "length (groups ip) = n \<and> (\<forall>g \<in> set (groups ip). g < 65536) \<and> gbytes (groups ip) = ip"
  using assms
proof (induction n arbitrary: ip)
  case (Suc n)
  then obtain a b bs where ip: "ip = a # b # bs" "length bs = 2 * n" by (cases ip; cases "tl ip") auto
  have ab: "unat a < 256" "unat b < 256" by simp_all
  then have "256 * unat a + unat b < 65536" by linarith
  moreover have "(256 * unat a + unat b) div 256 = unat a" "(256 * unat a + unat b) mod 256 = unat b" by simp_all
  ultimately show ?case using Suc.IH [OF ip(2)] by (simp add: ip(1))
qed simp

lemma gbytes_zeros: "\<forall>g \<in> set gs. g = 0 \<Longrightarrow> gbytes gs = replicate (2 * length gs) 0"
  by (induction gs) auto

lemma hexes_nonempty: "gs \<noteq> [] \<Longrightarrow> hexes gs \<noteq> []"
  by (cases gs) (simp_all add: hex_group_chars)

lemma parse_ellipsis:
  assumes "length gs = 8" "\<forall>g \<in> set gs. g < 65536" "zeros_at gs (e0, e1)" "e0 < e1"
  shows "parseIPv6 (hexes (take e0 gs) @ [58, 58] @ hexes (drop e1 gs)) = Some (gbytes gs)"
proof -
  have e: "e0 < e1" "e1 \<le> 8" using assms by (simp_all add: zeros_at_def)
  define mid where "mid = drop e0 (take e1 gs)"
  have "drop e0 (take e1 gs @ drop e1 gs) = mid @ drop e1 gs"
    using e assms(1) by (simp only: drop_append mid_def) simp
  then have gs: "gs = take e0 gs @ mid @ drop e1 gs" by (metis append_take_drop_id)
  have "\<forall>g \<in> set mid. g = 0" using assms(1,3) e by (auto simp: mid_def zeros_at_def in_set_conv_nth)
  then have mid: "gbytes mid = replicate (2 * (e1 - e0)) 0" using gbytes_zeros [of mid] e assms(1) by (simp add: mid_def)
  have whole: "gbytes gs = gbytes (take e0 gs) @ replicate (2 * (e1 - e0)) 0 @ gbytes (drop e1 gs)"
    by (subst gs) (simp add: mid)
  have small: "\<forall>g \<in> set (take e0 gs). g < 65536" "\<forall>g \<in> set (drop e1 gs). g < 65536"
    using assms(2) by (auto dest: in_set_takeD in_set_dropD)
  have len: "length (gbytes (take e0 gs)) = 2 * e0" "length (gbytes (drop e1 gs)) = 16 - 2 * e1" using e assms(1) by simp_all
  have room: "2 * e0 + (16 - 2 * e1) < 16" "16 - (2 * e0 + (16 - 2 * e1)) = 2 * (e1 - e0)" using e by linarith+
  have fin: "v6_done (gbytes (take e0 gs) @ gbytes (drop e1 gs)) (Some (2 * e0)) = Some (gbytes gs)"
    unfolding v6_done_def length_append len option.case room(2) whole using room(1) len(1) by (simp del: gbytes_simps(4))
  have tail: "v6_groups (8 - e0) (gbytes (take e0 gs)) (Some (2 * e0)) (hexes (drop e1 gs)) = Some (gbytes gs)" if "drop e1 gs \<noteq> []"
    using v6_groups_hexes [OF that small(2)] fin e assms(1) by simp
  show ?thesis
  proof (cases "e0 = 0")
    case True
    show ?thesis
    proof (cases "drop e1 gs = []")
      case False
      then have "hexes (drop e1 gs) \<noteq> []" by (rule hexes_nonempty)
      then show ?thesis using True tail [OF False] by (simp add: parseIPv6_def)
    qed (use True whole e assms(1) in \<open>simp add: parseIPv6_def\<close>)
  next
    case False
    then obtain g hs where t: "take e0 gs = g # hs" using assms(1) by (cases "take e0 gs") auto
    have "parseIPv6 (hexes (take e0 gs) @ [58, 58] @ hexes (drop e1 gs)) =
        v6_groups 8 [] None (hexes (take e0 gs) @ 58 # 58 # hexes (drop e1 gs))"
      unfolding parseIPv6_def t using hexes_start(3) [of g hs "[58, 58] @ hexes (drop e1 gs)"] by (simp del: hexes.simps)
    moreover have t0: "take e0 gs \<noteq> []" "length (take e0 gs) = e0" "length (take e0 gs) \<le> 8" using False e assms(1) by auto
    have "v6_groups 8 [] None (hexes (take e0 gs) @ 58 # 58 # hexes (drop e1 gs)) = Some (gbytes gs)"
    proof (cases "drop e1 gs = []")
      case True
      show ?thesis using t0 v6_groups_ellipsis [of "take e0 gs" 8 "[]" "[]"] small(1) fin unfolding True by simp
    next
      case nonempty: False
      then have "hexes (drop e1 gs) \<noteq> []" by (rule hexes_nonempty)
      then show ?thesis using v6_groups_ellipsis [of "take e0 gs" 8 "[]" "hexes (drop e1 gs)"] tail [OF nonempty] t0 small(1)
        by simp
    qed
    ultimately show ?thesis by simp
  qed
qed

lemma hexes_chars: "c \<in> set (hexes gs) \<Longrightarrow> is_hex c \<or> c = 58"
  using hex_group_chars(1) by (cases gs) (auto simp: list_all_iff split: if_splits)

text \<open>Every address of 16 bytes that is not an IPv4 address prints as text that parses to it.\<close>

lemma ParseIP_v6:
  assumes "length ip = 16" "To4 ip = None"
  shows "ParseIP (IP_String ip) = Some ip" "\<forall>c \<in> set (IP_String ip). is_hex c \<or> c = 58" "58 \<in> set (IP_String ip)"
proof -
  define gs where "gs = groups ip"
  have gs: "length gs = 8" "\<forall>g \<in> set gs. g < 65536" "gbytes gs = ip"
    using groups_bytes [of ip 8] assms(1) by (simp_all add: gs_def)
  define e where "e = zero_run gs 0 (0, 0)"
  have z: "zeros_at gs (fst e, snd e)" using zero_run_zeros [of gs 0 gs "(0, 0)"] by (simp add: e_def zeros_at_def)
  define t where "t = IP_String ip"
  have t: "t = v6_text gs 0 (if snd e - fst e \<le> 1 then (0, 0) else e)"
    using assms by (auto simp: t_def IP_String_def Let_def gs_def e_def)
  have "parseIPv6 t = Some ip \<and> (\<forall>c \<in> set t. is_hex c \<or> c = 58) \<and> 58 \<in> set t"
  proof (cases "snd e - fst e \<le> 1")
    case True
    then have hx: "t = hexes gs" using t by (simp add: v6_text_plain)
    obtain g h hs where g: "gs = g # h # hs" using gs(1) by (auto simp: numeral_eq_Suc length_Suc_conv)
    have "parseIPv6 t = v6_groups 8 [] None (hexes gs)"
      unfolding parseIPv6_def hx g using hexes_start(3) [of g "h # hs" "[]"] by (simp del: hexes.simps)
    also have "\<dots> = Some ip" using v6_groups_hexes [of gs 8 "[]" None] gs g by (simp add: v6_done_def del: hexes.simps)
    finally show ?thesis using hexes_chars [of _ gs] hx g by auto
  next
    case False
    then have hx: "t = hexes (take (fst e) gs) @ [58, 58] @ hexes (drop (snd e) gs)"
      using t z v6_text_ellipsis [of "fst e" "snd e" gs] by (simp add: zeros_at_def)
    show ?thesis using parse_ellipsis [OF gs(1,2) z] False gs(3) hexes_chars by (auto simp: hx)
  qed
  moreover have "find (\<lambda>b. b = 46 \<or> b = 58) s = Some 58" if "\<forall>c \<in> set s. is_hex c \<or> c = 58" "58 \<in> set s" for s
    using that not_hex(2) by (induction s) auto
  ultimately show "ParseIP (IP_String ip) = Some ip" "\<forall>c \<in> set (IP_String ip). is_hex c \<or> c = 58" "58 \<in> set (IP_String ip)"
    by (simp_all add: ParseIP_def t_def)
qed

section \<open>All addresses\<close>

text \<open>The addresses that have a text form: those of 4 and 16 bytes, and nil. Parsing gives the form with 16 bytes.\<close>

definition ip_ok :: "bytes \<Rightarrow> bool" where
  "ip_ok ip \<longleftrightarrow> length ip \<in> {0, 4, 16}"

definition normal_ip :: "bytes \<Rightarrow> bytes" where
  "normal_ip ip = (case To16 ip of Some ip16 \<Rightarrow> ip16 | None \<Rightarrow> [])"

lemma ip_ok_normal: "ip_ok (normal_ip ip)"
  by (auto simp: ip_ok_def normal_ip_def To16_def)

lemma ParseIP_String:
  assumes "ip_ok ip" "ip \<noteq> []"
  shows "ParseIP (IP_String ip) = Some (normal_ip ip)"
proof (cases "To4 ip")
  case None
  with assms have "length ip = 16" by (auto simp: ip_ok_def To4_def)
  then show ?thesis using ParseIP_v6(1) [OF _ None] by (simp add: normal_ip_def To16_def)
next
  case (Some ip4)
  then show ?thesis using ParseIP_IP_String [OF Some] by (auto simp: normal_ip_def To4_def To16_def split: if_splits)
qed

lemma length_hexes:
  assumes "\<forall>g \<in> set gs. g < 65536"
  shows "length (hexes gs) \<le> 5 * length gs"
proof -
  have "length (hex_group g) \<le> 4" if "g \<in> set gs" for g using hex_group_length [of g 3] assms that by simp
  then have "length (concat (map (\<lambda>h. 58 # hex_group h) hs)) \<le> 5 * length hs" if "set hs \<subseteq> set gs" for hs
    using that by (induction hs) fastforce+
  with \<open>\<And>g. g \<in> set gs \<Longrightarrow> length (hex_group g) \<le> 4\<close> show ?thesis by (cases gs) fastforce+
qed

lemma length_dotted: "length ip4 = 4 \<Longrightarrow> length (dotted ip4) \<le> 15"
  using length_dec_byte [of "ip4 ! 0"] length_dec_byte [of "ip4 ! 1"] length_dec_byte [of "ip4 ! 2"]
    length_dec_byte [of "ip4 ! 3"] by (simp add: dotted_def)

lemma length_IP_String:
  assumes "ip_ok ip"
  shows "length (IP_String ip) \<le> 40"
proof (cases "To4 ip")
  case (Some ip4)
  then show ?thesis using length_dotted [OF To4_length [OF Some]] by (simp add: IP_String_def)
next
  case None
  show ?thesis
  proof (cases "length ip = 16")
    case True
    define gs e where "gs = groups ip" and "e = zero_run gs 0 (0, 0)"
    have gs: "length gs = 8" "\<forall>g \<in> set gs. g < 65536" using groups_bytes [of ip 8] True by (simp_all add: gs_def)
    have z: "zeros_at gs (fst e, snd e)" using zero_run_zeros [of gs 0 gs "(0, 0)"] by (simp add: e_def zeros_at_def)
    have "length (v6_text gs 0 (if snd e - fst e \<le> 1 then (0, 0) else e)) \<le> 40"
    proof (cases "snd e - fst e \<le> 1")
      case False
      have "v6_text gs 0 e = hexes (take (fst e) gs) @ [58, 58] @ hexes (drop (snd e) gs)"
        using z False v6_text_ellipsis [of "fst e" "snd e" gs] by (simp add: zeros_at_def)
      moreover have "length (hexes (take (fst e) gs)) \<le> 5 * fst e" "length (hexes (drop (snd e) gs)) \<le> 5 * (8 - snd e)"
        using length_hexes [of "take (fst e) gs"] length_hexes [of "drop (snd e) gs"] gs z
        by (auto simp: zeros_at_def dest: in_set_takeD in_set_dropD)
      moreover have "fst e + 2 \<le> snd e" "snd e \<le> 8" using z False gs(1) by (auto simp: zeros_at_def)
      then have "5 * fst e + 2 + 5 * (8 - snd e) \<le> 40" by linarith
      ultimately show ?thesis using False by simp
    qed (use length_hexes [OF gs(2)] gs(1) in \<open>simp add: v6_text_plain\<close>)
    then show ?thesis using None True by (auto simp: IP_String_def Let_def gs_def e_def)
  qed (use None assms in \<open>auto simp: IP_String_def ip_ok_def To4_def\<close>)
qed

lemma length_IP_MarshalText: "IP_MarshalText ip = Some t \<Longrightarrow> length t \<le> 40"
  using length_IP_String [of ip] by (auto simp: IP_MarshalText_def ip_ok_def split: if_splits)

end
