(* ===== verification/Go_Json.thy ===== *)
theory Go_Json
  imports Go_IP_Text
begin

text \<open>
  The values package encoding/json writes: strings, arrays and objects.
\<close>

section \<open>JSON values\<close>

definition json_string :: "bytes \<Rightarrow> bytes" where
  "json_string bs = bytes_of [CHR 0x22] @ bs @ bytes_of [CHR 0x22]"

fun comma_sep :: "bytes list \<Rightarrow> bytes" where
  "comma_sep [] = []"
| "comma_sep [x] = x"
| "comma_sep (x # y # ys) = x @ bytes_of '','' @ comma_sep (y # ys)"

definition json_array :: "bytes list \<Rightarrow> bytes" where
  "json_array vs = bytes_of ''['' @ comma_sep vs @ bytes_of '']''"

definition json_field :: "string \<Rightarrow> bytes \<Rightarrow> bytes" where
  "json_field name v = json_string (bytes_of name) @ bytes_of '':'' @ v"

definition json_object :: "bytes list \<Rightarrow> bytes" where
  "json_object fields = bytes_of [CHR 0x7B] @ comma_sep fields @ bytes_of [CHR 0x7D]"

lemma length_comma_sep: "length (comma_sep vs) = sum_list (map length vs) + (length vs - 1)"
  by (induction vs rule: comma_sep.induct) auto

lemma length_json [simp]:
  "length (json_string bs) = length bs + 2"
  "length (json_array vs) = sum_list (map length vs) + (length vs - 1) + 2"
  "length (json_field name v) = length name + 3 + length v"
  "length (json_object fs) = sum_list (map length fs) + (length fs - 1) + 2"
  by (simp_all add: json_string_def json_array_def json_field_def json_object_def length_comma_sep)

end
