(* ===== verification/Go_Json_Decode.thy ===== *)
theory Go_Json_Decode
  imports Go_Json
begin

text \<open>
  The decoding half of package encoding/json, as far as the discovery protocol and the node database
  use it: the grammar of JSON texts and the assignment of the members of an object to the fields of a
  struct. Strings are kept as UTF-8 bytes; bytes that
  are not valid UTF-8 are kept as they are (package json replaces them), which makes no difference
  here, since no field name and no address contains anything but ASCII.
\<close>

section \<open>The grammar\<close>

datatype json = JNull | JBool bool | JNum bytes | JStr bytes | JArr "json list"
  | JObj "(bytes \<times> bytes \<times> json) list"

text \<open>A member of an object carries its name, the text of its value and the value.\<close>

definition is_ws :: "byte \<Rightarrow> bool" where "is_ws b \<longleftrightarrow> b = 32 \<or> b = 9 \<or> b = 10 \<or> b = 13"

definition skip_ws :: "bytes \<Rightarrow> bytes" where "skip_ws = dropWhile is_ws"

text \<open>Escapes: the four hexadecimal digits after \<^verbatim>\<open>\u\<close>, and a code point as UTF-8.\<close>

definition hex4 :: "bytes \<Rightarrow> nat option" where
  "hex4 bs = (if length bs < 4 then None else hex_nat (take 4 bs) 0)"

definition utf8 :: "nat \<Rightarrow> bytes" where
  "utf8 r =
     (if r < 0x80 then [of_nat r]
      else if r < 0x800 then [of_nat (0xC0 + r div 64), of_nat (0x80 + r mod 64)]
      else if r < 0x10000 then
        [of_nat (0xE0 + r div 4096), of_nat (0x80 + r div 64 mod 64), of_nat (0x80 + r mod 64)]
      else [of_nat (0xF0 + r div 262144), of_nat (0x80 + r div 4096 mod 64),
            of_nat (0x80 + r div 64 mod 64), of_nat (0x80 + r mod 64)])"

definition low_surrogate :: "bytes \<Rightarrow> nat option" where
  "low_surrogate bs =
     (if take 2 bs = [92, 117]
      then case hex4 (drop 2 bs) of Some r \<Rightarrow> (if 0xDC00 \<le> r \<and> r < 0xE000 then Some r else None) | None \<Rightarrow> None
      else None)"

definition escape :: "byte \<Rightarrow> byte option" where
  "escape c =
     (if c = 34 \<or> c = 92 \<or> c = 47 then Some c
      else if c = 98 then Some 8 else if c = 102 then Some 12 else if c = 110 then Some 10
      else if c = 114 then Some 13 else if c = 116 then Some 9 else None)"

abbreviation put :: "bytes \<Rightarrow> (bytes \<times> bytes) option \<Rightarrow> (bytes \<times> bytes) option" where
  "put s \<equiv> map_option (\<lambda>(t, rest). (s @ t, rest))"

text \<open>The rest of a string after its opening quote: its contents and what follows the closing one.\<close>

fun str_body :: "bytes \<Rightarrow> (bytes \<times> bytes) option" where
  "str_body [] = None"
| "str_body (b # bs) =
     (if b = 34 then Some ([], bs)
      else if b < 32 then None
      else if b \<noteq> 92 then put [b] (str_body bs)
      else case bs of
        [] \<Rightarrow> None
      | c # bs' \<Rightarrow>
          if c = 117 then
            (case hex4 bs' of
               None \<Rightarrow> None
             | Some r \<Rightarrow>
                 if 0xD800 \<le> r \<and> r < 0xE000 then
                   (case (r < 0xDC00, low_surrogate (drop 4 bs')) of
                      (True, Some r2) \<Rightarrow>
                        put (utf8 (0x10000 + (r - 0xD800) * 1024 + (r2 - 0xDC00))) (str_body (drop 10 bs'))
                    | _ \<Rightarrow> put (utf8 0xFFFD) (str_body (drop 4 bs')))
                 else put (utf8 r) (str_body (drop 4 bs')))
          else case escape c of None \<Rightarrow> None | Some e \<Rightarrow> put [e] (str_body bs'))"

declare str_body.simps [simp del]

definition num_int :: "bytes \<Rightarrow> (bytes \<times> bytes) option" where
  "num_int bs =
     (let ds = takeWhile is_digit bs in
      if ds = [] then None
      else if hd ds = 48 then Some ([48], tl bs)
      else Some (ds, drop (length ds) bs))"

definition num_frac :: "bytes \<Rightarrow> (bytes \<times> bytes) option" where
  "num_frac bs =
     (case bs of
        b # bs' \<Rightarrow>
          if b = 46 then let ds = takeWhile is_digit bs' in
            if ds = [] then None else Some (46 # ds, drop (length ds) bs')
          else Some ([], bs)
      | [] \<Rightarrow> Some ([], []))"

definition num_exp :: "bytes \<Rightarrow> (bytes \<times> bytes) option" where
  "num_exp bs =
     (case bs of
        b # bs' \<Rightarrow>
          if b = 101 \<or> b = 69 then
            let sign = takeWhile (\<lambda>c. c = 43 \<or> c = 45) (take 1 bs');
                r = drop (length sign) bs';
                ds = takeWhile is_digit r
            in if ds = [] then None else Some (b # sign @ ds, drop (length ds) r)
          else Some ([], bs)
      | [] \<Rightarrow> Some ([], []))"

definition jnumber :: "bytes \<Rightarrow> (bytes \<times> bytes) option" where
  "jnumber bs =
     (let neg = takeWhile (\<lambda>c. c = 45) (take 1 bs) in
      case num_int (drop (length neg) bs) of None \<Rightarrow> None
      | Some (i, r1) \<Rightarrow>
          (case num_frac r1 of None \<Rightarrow> None
           | Some (f, r2) \<Rightarrow>
               (case num_exp r2 of None \<Rightarrow> None | Some (e, r3) \<Rightarrow> Some (neg @ i @ f @ e, r3))))"

text \<open>Values, the elements of an array and the members of an object; the first argument bounds the recursion.\<close>

definition literal :: "string \<Rightarrow> json \<Rightarrow> bytes \<Rightarrow> (json \<times> bytes) option" where
  "literal name v bs =
     (if take (length name) bs = bytes_of name then Some (v, drop (length name) bs) else None)"

fun jvalue :: "nat \<Rightarrow> bytes \<Rightarrow> (json \<times> bytes) option"
  and jelems :: "nat \<Rightarrow> bytes \<Rightarrow> (json list \<times> bytes) option"
  and jmembers :: "nat \<Rightarrow> bytes \<Rightarrow> ((bytes \<times> bytes \<times> json) list \<times> bytes) option" where
  "jvalue 0 bs = None"
| "jvalue (Suc n) [] = None"
| "jvalue (Suc n) (c # r) =
     (if c = 123 then
        (let r1 = skip_ws r in
         if take 1 r1 = [125] then Some (JObj [], tl r1)
         else map_option (\<lambda>(ms, rest). (JObj ms, rest)) (jmembers n r1))
      else if c = 91 then
        (let r1 = skip_ws r in
         if take 1 r1 = [93] then Some (JArr [], tl r1)
         else map_option (\<lambda>(vs, rest). (JArr vs, rest)) (jelems n r1))
      else if c = 34 then map_option (\<lambda>(s, rest). (JStr s, rest)) (str_body r)
      else if c = 110 then literal ''null'' JNull (c # r)
      else if c = 116 then literal ''true'' (JBool True) (c # r)
      else if c = 102 then literal ''false'' (JBool False) (c # r)
      else map_option (\<lambda>(s, rest). (JNum s, rest)) (jnumber (c # r)))"
| "jelems 0 bs = None"
| "jelems (Suc n) bs =
     (case jvalue n bs of None \<Rightarrow> None
      | Some (v, r) \<Rightarrow>
          (case skip_ws r of [] \<Rightarrow> None
           | c # r1 \<Rightarrow>
               if c = 93 then Some ([v], r1)
               else if c = 44 then map_option (\<lambda>(vs, rest). (v # vs, rest)) (jelems n (skip_ws r1))
               else None))"
| "jmembers 0 bs = None"
| "jmembers (Suc n) bs =
     (case bs of [] \<Rightarrow> None
      | q # bs' \<Rightarrow>
          if q \<noteq> 34 then None else
          (case str_body bs' of None \<Rightarrow> None
           | Some (name, r) \<Rightarrow>
               (case skip_ws r of [] \<Rightarrow> None
                | c # r1 \<Rightarrow>
                    if c \<noteq> 58 then None else
                    (let r2 = skip_ws r1 in
                     case jvalue n r2 of None \<Rightarrow> None
                     | Some (v, r3) \<Rightarrow>
                         (let m = (name, take (length r2 - length r3) r2, v) in
                          case skip_ws r3 of [] \<Rightarrow> None
                          | c1 # r4 \<Rightarrow>
                              if c1 = 125 then Some ([m], r4)
                              else if c1 = 44 then map_option (\<lambda>(ms, rest). (m # ms, rest)) (jmembers n (skip_ws r4))
                              else None)))))"

declare jvalue.simps [simp del] jelems.simps [simp del] jmembers.simps [simp del]

definition json_parse :: "bytes \<Rightarrow> json option" where
  "json_parse bs =
     (case jvalue (2 * length bs + 2) (skip_ws bs) of None \<Rightarrow> None
      | Some (v, r) \<Rightarrow> if skip_ws r = [] then Some v else None)"

section \<open>Structs\<close>

text \<open>
  A decoder assigns a value, given with its text, to a variable. The flag tells whether a value did
  not fit its type: package json notes that and carries on, and the whole call fails in the end. The
  decoder of a type of the sources may panic.
\<close>

type_synonym 's decoder = "bytes \<Rightarrow> json \<Rightarrow> 's \<Rightarrow> (unit, 's \<times> bool) res"

text \<open>
  A member goes to the field of its name, or else to the first field with this name up to case, where
  the Kelvin sign and the long s count as k and s.
\<close>

fun fold_name :: "bytes \<Rightarrow> bytes" where
  "fold_name [] = []"
| "fold_name (b # bs) =
     (if b = 0xE2 \<and> take 2 bs = [0x84, 0xAA] then 107 # fold_name (drop 2 bs)
      else if b = 0xC5 \<and> take 1 bs = [0xBF] then 115 # fold_name (drop 1 bs)
      else if 65 \<le> b \<and> b \<le> 90 then (b + 32) # fold_name bs
      else b # fold_name bs)"

declare fold_name.simps [simp del]

definition find_field :: "(string \<times> 's decoder) list \<Rightarrow> bytes \<Rightarrow> 's decoder option" where
  "find_field fields name =
     (case find (\<lambda>(f, _). bytes_of f = name) fields of
        Some (_, d) \<Rightarrow> Some d
      | None \<Rightarrow> map_option snd (find (\<lambda>(f, _). fold_name (bytes_of f) = fold_name name) fields))"

fun dec_members :: "(string \<times> 's decoder) list \<Rightarrow> (bytes \<times> bytes \<times> json) list \<Rightarrow> 's \<Rightarrow> (unit, 's \<times> bool) res" where
  "dec_members fields [] s = Ok (s, True)"
| "dec_members fields ((name, raw, v) # ms) s =
     (case find_field fields name of
        None \<Rightarrow> dec_members fields ms s
      | Some d \<Rightarrow>
          res_bind (d raw v s) (\<lambda>(s1, ok1).
            res_bind (dec_members fields ms s1) (\<lambda>(s2, ok2). Ok (s2, ok1 \<and> ok2))))"

definition dec_struct :: "(string \<times> 's decoder) list \<Rightarrow> 's decoder" where
  "dec_struct fields raw v s =
     (case v of JObj ms \<Rightarrow> dec_members fields ms s | JNull \<Rightarrow> Ok (s, True) | _ \<Rightarrow> Ok (s, False))"

text \<open>A decoder for a part of a variable: how to read the part and how to store it back.\<close>

definition dec_part :: "('s \<Rightarrow> 'a) \<Rightarrow> ('a \<Rightarrow> 's \<Rightarrow> 's) \<Rightarrow> 'a decoder \<Rightarrow> 's decoder" where
  "dec_part rd wr d raw v s = res_bind (d raw v (rd s)) (\<lambda>(a, ok). Ok (wr a s, ok))"

definition json_Unmarshal :: "'s decoder \<Rightarrow> bytes \<Rightarrow> 's \<Rightarrow> (unit, 's) res" where
  "json_Unmarshal d bs s =
     (case json_parse bs of None \<Rightarrow> Err ()
      | Some v \<Rightarrow> res_bind (d bs v s) (\<lambda>(s1, ok). if ok then Ok s1 else Err ()))"

section \<open>Raw encoding\<close>

text \<open>
  common/rawencode: a value whose type has an encoding of its own, here \<^verbatim>\<open>own\<close>, is encoded by it, any other by encoding/json. The types
  of the program have none.
\<close>

definition rawencode_Encode :: "('a \<Rightarrow> bytes option) option \<Rightarrow> ('a \<Rightarrow> bytes option) \<Rightarrow> 'a \<Rightarrow> bytes option" where
  "rawencode_Encode own Marshal en = (case own of None \<Rightarrow> Marshal en | Some enc \<Rightarrow> enc en)"

definition rawencode_EncodeByLen :: "('a \<Rightarrow> bytes option) option \<Rightarrow> ('a \<Rightarrow> bytes option) \<Rightarrow> 'a \<Rightarrow> bytes option" where
  "rawencode_EncodeByLen own Marshal en = (case own of None \<Rightarrow> Marshal en | Some enc \<Rightarrow> enc en)"

definition rawencode_Decode :: "(bytes \<Rightarrow> 's \<Rightarrow> (unit, 's) res) option \<Rightarrow> 's decoder \<Rightarrow> bytes \<Rightarrow> 's \<Rightarrow> (unit, 's) res" where
  "rawencode_Decode own d bs en = (case own of None \<Rightarrow> json_Unmarshal d bs en | Some decode \<Rightarrow> decode bs en)"

lemma rawencode_json [simp]: "rawencode_Encode None f = f" "rawencode_Decode None d = json_Unmarshal d"
  by (simp_all add: fun_eq_iff rawencode_Encode_def rawencode_Decode_def)

section \<open>Numbers and byte arrays\<close>

definition dec_uint :: "'a::len word decoder" where
  "dec_uint raw v s =
     (case v of
        JNum lit \<Rightarrow>
          (case dec_nat lit 0 of
             Some n \<Rightarrow> if n < 2 ^ LENGTH('a) then Ok (of_nat n, True) else Ok (s, False)
           | None \<Rightarrow> Ok (s, False))
      | JNull \<Rightarrow> Ok (s, True)
      | _ \<Rightarrow> Ok (s, False))"

definition dec_int64 :: "int decoder" where
  "dec_int64 raw v s =
     (case v of
        JNum lit \<Rightarrow>
          (let neg = (take 1 lit = [45]) in
           case dec_nat (if neg then tl lit else lit) 0 of
             Some n \<Rightarrow>
               if n < 2 ^ 63 \<or> neg \<and> n = 2 ^ 63 then Ok (if neg then - int n else int n, True) else Ok (s, False)
           | None \<Rightarrow> Ok (s, False))
      | JNull \<Rightarrow> Ok (s, True)
      | _ \<Rightarrow> Ok (s, False))"

text \<open>
  An array of bytes: superfluous elements are skipped, missing ones become zero.
\<close>

fun dec_bytes :: "json list \<Rightarrow> bytes \<Rightarrow> bytes \<times> bool" where
  "dec_bytes vs [] = ([], True)"
| "dec_bytes [] (b # bs) = (replicate (Suc (length bs)) 0, True)"
| "dec_bytes (v # vs) (b # bs) =
     (let r = (case dec_uint [] v b of Ok x \<Rightarrow> x | _ \<Rightarrow> (b, False)); rest = dec_bytes vs bs
      in (fst r # fst rest, snd r \<and> snd rest))"

definition dec_byte_array :: "bytes decoder" where
  "dec_byte_array raw v s =
     (case v of JArr vs \<Rightarrow> Ok (dec_bytes vs s) | JNull \<Rightarrow> Ok (s, True) | _ \<Rightarrow> Ok (s, False))"

text \<open>A slice of structs; every element starts as a zero value.\<close>

fun dec_list :: "'a decoder \<Rightarrow> 'a \<Rightarrow> json list \<Rightarrow> (unit, 'a list \<times> bool) res" where
  "dec_list d zero [] = Ok ([], True)"
| "dec_list d zero (v # vs) =
     res_bind (d [] v zero) (\<lambda>(x, ok1).
       res_bind (dec_list d zero vs) (\<lambda>(xs, ok2). Ok (x # xs, ok1 \<and> ok2)))"

definition dec_slice :: "'a decoder \<Rightarrow> 'a \<Rightarrow> 'a list decoder" where
  "dec_slice d zero raw v s =
     (case v of JArr vs \<Rightarrow> dec_list d zero vs | JNull \<Rightarrow> Ok ([], True) | _ \<Rightarrow> Ok (s, False))"

section \<open>Addresses\<close>

text \<open>\<^verbatim>\<open>UnmarshalText\<close>: only strings and null are accepted, the empty string and null give the nil address.\<close>

definition dec_ip :: "bytes decoder" where
  "dec_ip raw v s =
     (case v of
        JStr t \<Rightarrow>
          if t = [] then Ok ([], True)
          else (case ParseIP t of Some ip \<Rightarrow> Ok (ip, True) | None \<Rightarrow> Ok (s, False))
      | JNull \<Rightarrow> Ok ([], True)
      | _ \<Rightarrow> Ok (s, False))"

section \<open>Numbers read back\<close>

text \<open>A value is followed by nothing, a comma or a closing bracket.\<close>

definition follow_ok :: "bytes \<Rightarrow> bool" where
  "follow_ok rest \<longleftrightarrow> rest = [] \<or> hd rest \<in> {44, 93, 125}"

lemma follow_not_digit: "follow_ok rest \<Longrightarrow> takeWhile is_digit rest = []"
  by (cases rest) (auto simp: follow_ok_def is_digit_def)

lemma num_int_dec: "follow_ok rest \<Longrightarrow> num_int (dec n @ rest) = Some (dec n, rest)"
proof -
  assume f: "follow_ok rest"
  have tw: "takeWhile is_digit (dec n @ rest) = dec n"
    using dec_digits [of n] follow_not_digit [OF f]
    by (simp add: takeWhile_append2 list_all_iff)
  show ?thesis
  proof (cases "n = 0")
    case True
    with tw show ?thesis by (simp add: num_int_def)
  next
    case False
    with tw dec_nonempty dec_hd show ?thesis by (simp add: num_int_def)
  qed
qed

lemma num_tail: "follow_ok rest \<Longrightarrow> num_frac rest = Some ([], rest)" "follow_ok rest \<Longrightarrow> num_exp rest = Some ([], rest)"
  by (auto simp: num_frac_def num_exp_def follow_ok_def split: list.splits)

lemma dec_first: "\<exists>d ds. dec n = d # ds \<and> is_digit d"
  using dec_nonempty [of n] dec_digits [of n] by (cases "dec n") auto

lemma jnumber_dec: "follow_ok rest \<Longrightarrow> jnumber (dec n @ rest) = Some (dec n, rest)"
proof -
  assume f: "follow_ok rest"
  obtain d ds where d: "dec n = d # ds" "is_digit d" using dec_first by blast
  then have "takeWhile (\<lambda>c. c = 45) (take 1 (dec n @ rest)) = []" by (auto simp: is_digit_def)
  with num_int_dec [OF f, of n] num_tail [OF f] show ?thesis by (simp add: jnumber_def)
qed

section \<open>What was written is parsed\<close>

definition plain :: "bytes \<Rightarrow> bool" where
  "plain s \<longleftrightarrow> list_all (\<lambda>b. 32 \<le> b \<and> b \<noteq> 34 \<and> b \<noteq> 92) s"

lemma plain_simps [simp]:
  "plain []" "plain (b # s) \<longleftrightarrow> 32 \<le> b \<and> b \<noteq> 34 \<and> b \<noteq> 92 \<and> plain s" "plain (s @ t) \<longleftrightarrow> plain s \<and> plain t"
  by (simp_all add: plain_def)

lemma plain_dec [simp]: "plain (dec n)"
proof -
  have "32 \<le> b \<and> b \<noteq> 34 \<and> b \<noteq> 92" if "is_digit b" for b
    using that order.trans [of 32 48 b] by (auto simp: is_digit_def)
  with dec_digits [of n] show ?thesis by (auto simp: plain_def list_all_iff)
qed

lemma str_body_plain: "plain s \<Longrightarrow> str_body (s @ 34 # rest) = Some (s, rest)"
  by (induction s) (simp_all add: str_body.simps not_less)

definition parses :: "bytes \<Rightarrow> json \<Rightarrow> bool" where
  "parses raw v \<longleftrightarrow>
     raw \<noteq> [] \<and> \<not> is_ws (hd raw) \<and> hd raw \<noteq> 93 \<and>
     (\<forall>n rest. 2 * length raw \<le> n \<longrightarrow> follow_ok rest \<longrightarrow> jvalue n (raw @ rest) = Some (v, rest))"

lemma parsesD: "parses raw v \<Longrightarrow> 2 * length raw \<le> n \<Longrightarrow> follow_ok rest \<Longrightarrow> jvalue n (raw @ rest) = Some (v, rest)"
  by (simp add: parses_def)

lemma skip_ws_head: "s \<noteq> [] \<Longrightarrow> \<not> is_ws (hd s) \<Longrightarrow> skip_ws s = s"
  by (cases s) (simp_all add: skip_ws_def)

lemma skip_ws_parses: "parses raw v \<Longrightarrow> skip_ws (raw @ rest) = raw @ rest"
  by (rule skip_ws_head) (simp_all add: parses_def hd_append)

lemma skip_ws_Cons [simp]: "\<not> is_ws b \<Longrightarrow> skip_ws (b # s) = b # s"
  by (simp add: skip_ws_def)

lemma ws_marks [simp]: "\<not> is_ws 34" "\<not> is_ws 44" "\<not> is_ws 58" "\<not> is_ws 93" "\<not> is_ws 125" "\<not> is_ws 91" "\<not> is_ws 123"
  by (simp_all add: is_ws_def)

lemma parses_dec: "parses (dec n) (JNum (dec n))"
proof -
  obtain d ds where d: "dec n = d # ds" "is_digit d" using dec_first by blast
  then have ne: "d \<noteq> 123" "d \<noteq> 91" "d \<noteq> 34" "d \<noteq> 110" "d \<noteq> 116" "d \<noteq> 102" "\<not> is_ws d" "d \<noteq> 93"
    by (auto simp: is_digit_def is_ws_def)
  have "jvalue m (dec n @ rest) = Some (JNum (dec n), rest)" if m: "2 * length (dec n) \<le> m" "follow_ok rest" for m rest
  proof -
    obtain k where "m = Suc k" using m(1) d by (cases m) auto
    with ne jnumber_dec [OF m(2), of n] d show ?thesis by (simp add: jvalue.simps)
  qed
  with d ne show ?thesis by (simp add: parses_def)
qed

lemma parses_string: "plain s \<Longrightarrow> parses (json_string s) (JStr s)"
proof -
  assume s: "plain s"
  have "jvalue m (json_string s @ rest) = Some (JStr s, rest)" if m: "2 * length (json_string s) \<le> m" for m rest
  proof -
    obtain k where "m = Suc k" using m by (cases m) auto
    with str_body_plain [OF s, of rest] show ?thesis by (simp add: json_string_def bytes_of_def jvalue.simps)
  qed
  then show ?thesis by (simp add: parses_def json_string_def bytes_of_def)
qed

lemma parses_null: "parses (bytes_of ''null'') JNull"
proof -
  have "jvalue m (bytes_of ''null'' @ rest) = Some (JNull, rest)" if m: "2 * length (bytes_of ''null'') \<le> m" for m rest
  proof -
    obtain k where "m = Suc k" using m by (cases m) auto
    then show ?thesis by (simp add: bytes_of_def jvalue.simps literal_def)
  qed
  then show ?thesis by (simp add: parses_def bytes_of_def is_ws_def)
qed

lemma jelems_step:
  assumes "parses raw v" "2 * length raw \<le> n"
  shows "jelems (Suc n) (raw @ 93 # rest) = Some ([v], rest)"
    and "skip_ws rest = rest \<Longrightarrow> jelems n rest = Some (vs, rest') \<Longrightarrow> jelems (Suc n) (raw @ 44 # rest) = Some (v # vs, rest')"
  using parsesD [OF assms, of "93 # rest"] parsesD [OF assms, of "44 # rest"]
  by (simp_all add: jelems.simps follow_ok_def)

lemma jelems_comma_sep:
  "list_all2 parses raws vs \<Longrightarrow> raws \<noteq> [] \<Longrightarrow> 2 * length (comma_sep raws) + 1 \<le> n \<Longrightarrow>
   jelems n (comma_sep raws @ 93 # rest) = Some (vs, rest) \<and> skip_ws (comma_sep raws @ 93 # rest) = comma_sep raws @ 93 # rest"
proof (induction raws arbitrary: vs n rule: comma_sep.induct)
  case (2 x)
  then obtain v k where v: "vs = [v]" "parses x v" "n = Suc k" "2 * length x \<le> k"
    by (cases n) (auto simp: list_all2_Cons1)
  with jelems_step(1) [OF v(2,4)] skip_ws_parses [OF v(2)] show ?case by simp
next
  case (3 x y ys)
  then obtain v ws k where v: "vs = v # ws" "parses x v" "list_all2 parses (y # ys) ws" "n = Suc k" "2 * length x \<le> k"
    "2 * length (comma_sep (y # ys)) + 1 \<le> k"
    by (cases n) (auto simp: list_all2_Cons1)
  from 3(1) [OF v(3) _ v(6)] jelems_step(2) [OF v(2,5), of "comma_sep (y # ys) @ 93 # rest"] skip_ws_parses [OF v(2)] v(1,4)
  show ?case by (simp add: bytes_of_def)
qed simp

lemma parses_hd: "parses raw v \<Longrightarrow> raw \<noteq> [] \<and> hd raw \<noteq> 93"
  by (simp add: parses_def)

lemma comma_sep_hd: "raws \<noteq> [] \<Longrightarrow> hd raws \<noteq> [] \<Longrightarrow> take 1 (comma_sep raws @ rest) = [hd (hd raws)]"
  by (induction raws rule: comma_sep.induct) (auto simp: neq_Nil_conv)

lemma parses_array:
  assumes "list_all2 parses raws vs"
  shows "parses (json_array raws) (JArr vs)"
proof -
  have "jvalue m (json_array raws @ rest) = Some (JArr vs, rest)" if m: "2 * length (json_array raws) \<le> m" for m rest
  proof (cases raws)
    case Nil
    with assms m show ?thesis by (cases m) (simp_all add: json_array_def bytes_of_def jvalue.simps)
  next
    case (Cons r rs)
    then obtain v where "parses r v" using assms by (auto simp: list_all2_Cons1)
    then have hd: "take 1 (comma_sep raws @ 93 # rest) = [hd r]" "hd r \<noteq> 93"
      using comma_sep_hd [of raws "93 # rest"] parses_hd Cons by auto
    obtain k where k: "m = Suc k" "2 * length (comma_sep raws) + 1 \<le> k"
      using m by (cases m) (auto simp: json_array_def)
    show ?thesis
      using jelems_comma_sep [OF assms _ k(2), of rest] Cons hd k(1)
      by (simp add: json_array_def bytes_of_def jvalue.simps)
  qed
  then show ?thesis by (simp add: parses_def json_array_def bytes_of_def)
qed

text \<open>Objects: names are plain, every member carries the text of its value.\<close>

abbreviation fields_raw :: "(string \<times> bytes \<times> json) list \<Rightarrow> bytes list" where
  "fields_raw fs \<equiv> map (\<lambda>(name, raw, v). json_field name raw) fs"

abbreviation fields_val :: "(string \<times> bytes \<times> json) list \<Rightarrow> (bytes \<times> bytes \<times> json) list" where
  "fields_val fs \<equiv> map (\<lambda>(name, raw, v). (bytes_of name, raw, v)) fs"

definition field_ok :: "string \<times> bytes \<times> json \<Rightarrow> bool" where
  "field_ok f \<longleftrightarrow> plain (bytes_of (fst f)) \<and> parses (fst (snd f)) (snd (snd f))"

lemma json_field_shape: "json_field name raw @ s = 34 # bytes_of name @ 34 # 58 # raw @ s"
  by (simp add: json_field_def json_string_def bytes_of_def)

lemma jmembers_step:
  assumes "plain (bytes_of name)" "parses raw v" "2 * length raw \<le> n"
  shows "jmembers (Suc n) (json_field name raw @ 125 # rest) = Some ([(bytes_of name, raw, v)], rest)"
    and "skip_ws rest = rest \<Longrightarrow> jmembers n rest = Some (ms, rest') \<Longrightarrow>
      jmembers (Suc n) (json_field name raw @ 44 # rest) = Some ((bytes_of name, raw, v) # ms, rest')"
  using parsesD [OF assms(2,3), of "125 # rest"] parsesD [OF assms(2,3), of "44 # rest"]
    skip_ws_parses [OF assms(2)] str_body_plain [OF assms(1)]
  by (simp_all add: json_field_shape jmembers.simps follow_ok_def)

lemma jmembers_comma_sep:
  "list_all field_ok fs \<Longrightarrow> fs \<noteq> [] \<Longrightarrow> 2 * length (comma_sep (fields_raw fs)) + 1 \<le> n \<Longrightarrow>
   jmembers n (comma_sep (fields_raw fs) @ 125 # rest) = Some (fields_val fs, rest)"
proof (induction fs arbitrary: n)
  case (Cons f fs)
  obtain name raw v where f: "f = (name, raw, v)" by (cases f)
  with Cons.prems have ok: "plain (bytes_of name)" "parses raw v" by (simp_all add: field_ok_def)
  show ?case
  proof (cases fs)
    case Nil
    then obtain k where "n = Suc k" "2 * length raw \<le> k" using Cons.prems f by (cases n) auto
    with jmembers_step(1) [OF ok] Nil f show ?thesis by simp
  next
    case Nil': (Cons g gs)
    then obtain k where k: "n = Suc k" "2 * length raw \<le> k" "2 * length (comma_sep (fields_raw fs)) + 1 \<le> k"
      using Cons.prems f by (cases n) auto
    have ws: "skip_ws (comma_sep (fields_raw fs) @ 125 # rest) = comma_sep (fields_raw fs) @ 125 # rest"
    proof (rule skip_ws_head)
      have "take 1 (comma_sep (fields_raw fs) @ 125 # rest) = [34]"
        using comma_sep_hd [of "fields_raw fs"] Nil' by (simp add: json_field_def json_string_def bytes_of_def split: prod.splits)
      then show "\<not> is_ws (hd (comma_sep (fields_raw fs) @ 125 # rest))"
        by (cases "comma_sep (fields_raw fs) @ 125 # rest") auto
    qed simp
    show ?thesis
      using jmembers_step(2) [OF ok k(2) ws Cons.IH [OF _ _ k(3)]] Cons.prems Nil' f k(1)
      by (simp add: bytes_of_def)
  qed
qed simp

lemma parses_object:
  assumes "list_all field_ok fs" "fs \<noteq> []"
  shows "parses (json_object (fields_raw fs)) (JObj (fields_val fs))"
proof -
  have "jvalue m (json_object (fields_raw fs) @ rest) = Some (JObj (fields_val fs), rest)"
    if m: "2 * length (json_object (fields_raw fs)) \<le> m" for m rest
  proof -
    have "take 1 (comma_sep (fields_raw fs) @ 125 # rest) = [34]"
      using comma_sep_hd [of "fields_raw fs"] assms(2)
      by (cases fs) (auto simp: json_field_def json_string_def bytes_of_def split: prod.splits)
    then have hd: "comma_sep (fields_raw fs) @ 125 # rest \<noteq> []" "take 1 (comma_sep (fields_raw fs) @ 125 # rest) \<noteq> [125]"
      "skip_ws (comma_sep (fields_raw fs) @ 125 # rest) = comma_sep (fields_raw fs) @ 125 # rest"
      by (cases "comma_sep (fields_raw fs) @ 125 # rest"; simp)+
    obtain k where k: "m = Suc k" "2 * length (comma_sep (fields_raw fs)) + 1 \<le> k"
      using m by (cases m) (auto simp: json_object_def)
    show ?thesis
      using jmembers_comma_sep [OF assms k(2), of rest] hd k(1)
      by (simp add: json_object_def bytes_of_def jvalue.simps)
  qed
  then show ?thesis by (simp add: parses_def json_object_def bytes_of_def is_ws_def)
qed

lemma json_parse_parses: "parses raw v \<Longrightarrow> json_parse raw = Some v"
  using skip_ws_parses [of raw v "[]"] parsesD [of raw v "2 * length raw + 2" "[]"]
  by (simp add: json_parse_def follow_ok_def skip_ws_def)

section \<open>The bound on the recursion is enough\<close>

lemma length_skip_ws: "length (skip_ws s) \<le> length s"
  by (simp add: skip_ws_def length_dropWhile_le)

lemma put_Some: "put s x = Some (t, r) \<Longrightarrow> \<exists>t'. x = Some (t', r)"
  by auto

lemma str_body_cases:
  assumes "str_body bs = Some (t, r)"
  shows "(\<exists>b. bs = b # r) \<or> (\<exists>k t'. 0 < k \<and> bs \<noteq> [] \<and> str_body (drop k bs) = Some (t', r))"
proof -
  obtain b bs' where bs: "bs = b # bs'" using assms by (cases bs) (simp_all add: str_body.simps)
  have rec: ?thesis if "put u (str_body (drop k bs')) = Some (t, r)" for u k
    using put_Some [OF that] unfolding bs by (intro disjI2 exI [of _ "Suc k"]) simp
  show ?thesis
  proof (cases "b = 34 \<or> b < 32 \<or> b \<noteq> 92")
    case True
    then show ?thesis using assms rec [of "[b]" 0] unfolding bs str_body.simps(2) by (auto split: if_splits)
  next
    case False
    then obtain c cs where bs': "bs' = c # cs"
      and c: "c = 117 \<or> (\<exists>e. put [e] (str_body cs) = Some (t, r))"
      "c = 117 \<Longrightarrow> \<exists>u k. put u (str_body (drop k cs)) = Some (t, r)"
      using assms unfolding bs str_body.simps(2)
      by (cases bs') (simp_all split: option.splits if_splits bool.splits prod.splits; blast)+
    then obtain u k where "put u (str_body (drop k cs)) = Some (t, r)" by (metis drop0)
    then show ?thesis using rec [of u "Suc k"] bs' by simp
  qed
qed

lemma str_body_shorter: "str_body bs = Some (t, r) \<Longrightarrow> length r < length bs"
proof (induction bs arbitrary: t rule: length_induct)
  case (1 bs)
  from str_body_cases [OF 1(2)] consider b where "bs = b # r"
    | k t' where "0 < k" "bs \<noteq> []" "str_body (drop k bs) = Some (t', r)" by blast
  then show ?case
  proof cases
    case 2
    then have "length (drop k bs) < length bs" by (cases bs) auto
    with 1(1) 2(3) have "length r < length (drop k bs)" by blast
    then show ?thesis by simp
  qed simp
qed

lemma num_shorter:
  "num_int bs = Some (i, r) \<Longrightarrow> length r < length bs"
  "num_frac bs = Some (i, r) \<Longrightarrow> length r \<le> length bs"
  "num_exp bs = Some (i, r) \<Longrightarrow> length r \<le> length bs"
  by (cases bs; auto simp: num_int_def num_frac_def num_exp_def Let_def split: if_splits)+

lemma jnumber_shorter: "jnumber bs = Some (t, r) \<Longrightarrow> length r < length bs"
proof -
  assume "jnumber bs = Some (t, r)"
  then obtain k i r1 f' r2 e where
    n: "num_int (drop k bs) = Some (i, r1)" "num_frac r1 = Some (f', r2)" "num_exp r2 = Some (e, r)"
    unfolding jnumber_def Let_def by (simp split: option.splits prod.splits)
  from num_shorter(1) [OF n(1)] num_shorter(2) [OF n(2)] num_shorter(3) [OF n(3)] show ?thesis by simp
qed

lemma literal_shorter: "literal (c # name) v bs = Some (w, r) \<Longrightarrow> length r < length bs"
  by (cases bs) (auto simp: literal_def bytes_of_def split: if_splits)

lemma jvalue_cases:
  assumes "jvalue (Suc n) bs = Some (v, r)"
  obtains c s where "bs = c # s" "r = tl (skip_ws s)"
    | c s ms where "bs = c # s" "jmembers n (skip_ws s) = Some (ms, r)"
    | c s vs where "bs = c # s" "jelems n (skip_ws s) = Some (vs, r)"
    | "length r < length bs"
proof (cases bs)
  case (Cons c s)
  show ?thesis
    using assms that str_body_shorter [of s] jnumber_shorter [of "c # s"] literal_shorter [of _ _ _ "c # s"]
    unfolding Cons jvalue.simps Let_def by (auto split: if_splits)
qed (use assms in \<open>simp add: jvalue.simps\<close>)

lemma jelems_cases:
  assumes "jelems (Suc n) bs = Some (vs, r)"
  obtains v s c s1 where "jvalue n bs = Some (v, s)" "skip_ws s = c # s1"
    "r = s1 \<or> (\<exists>ws. jelems n (skip_ws s1) = Some (ws, r))"
  using assms unfolding jelems.simps by (auto split: option.splits prod.splits list.splits if_splits)

lemma jmembers_cases:
  assumes "jmembers (Suc n) bs = Some (ms, r)"
  obtains q bs' name s c s1 v s2 c1 s3 where "bs = q # bs'" "str_body bs' = Some (name, s)" "skip_ws s = c # s1"
    "jvalue n (skip_ws s1) = Some (v, s2)" "skip_ws s2 = c1 # s3"
    "r = s3 \<or> (\<exists>ws. jmembers n (skip_ws s3) = Some (ws, r))"
  using assms unfolding jmembers.simps Let_def by (auto split: option.splits prod.splits list.splits if_splits)

lemma skip_ws_Cons_length: "skip_ws s = c # t \<Longrightarrow> length t < length s"
  using length_skip_ws [of s] by simp

lemma shorter:
  "(\<forall>bs v r. jvalue n bs = Some (v, r) \<longrightarrow> length r < length bs) \<and>
   (\<forall>bs vs r. jelems n bs = Some (vs, r) \<longrightarrow> length r < length bs) \<and>
   (\<forall>bs ms r. jmembers n bs = Some (ms, r) \<longrightarrow> length r < length bs)"
proof (induction n)
  case (Suc n)
  then have v: "\<And>bs v r. jvalue n bs = Some (v, r) \<Longrightarrow> length r < length bs"
    and e: "\<And>bs vs r. jelems n bs = Some (vs, r) \<Longrightarrow> length r < length bs"
    and m: "\<And>bs ms r. jmembers n bs = Some (ms, r) \<Longrightarrow> length r < length bs" by blast+
  have "length r < length bs" if "jvalue (Suc n) bs = Some (x, r)" for bs x r
    using that
  proof (cases rule: jvalue_cases)
    case (1 c s)
    then show ?thesis using length_skip_ws [of s] by simp
  next
    case (2 c s ms)
    then show ?thesis using m [OF 2(2)] length_skip_ws [of s] by simp
  next
    case (3 c s vs)
    then show ?thesis using e [OF 3(2)] length_skip_ws [of s] by simp
  qed
  moreover have "length r < length bs" if "jelems (Suc n) bs = Some (x, r)" for bs x r
    using that
  proof (cases rule: jelems_cases)
    case (1 w s c s1)
    have "length r \<le> length s1" using 1(3) e [of "skip_ws s1"] length_skip_ws [of s1] by fastforce
    then show ?thesis using v [OF 1(1)] skip_ws_Cons_length [OF 1(2)] by simp
  qed
  moreover have "length r < length bs" if "jmembers (Suc n) bs = Some (x, r)" for bs x r
    using that
  proof (cases rule: jmembers_cases)
    case (1 q bs' name s c s1 w s2 c1 s3)
    have "length r \<le> length s3" using 1(6) m [of "skip_ws s3"] length_skip_ws [of s3] by fastforce
    then show ?thesis
      using str_body_shorter [OF 1(2)] skip_ws_Cons_length [OF 1(3)] v [OF 1(4)] length_skip_ws [of s1]
        skip_ws_Cons_length [OF 1(5)] 1(1) by simp
  qed
  ultimately show ?case by blast
qed (simp add: jvalue.simps jelems.simps jmembers.simps)

lemma jvalue_fuel:
  "(\<forall>bs. 2 * length bs + 1 \<le> n \<longrightarrow> jvalue (Suc n) bs = jvalue n bs) \<and>
   (\<forall>bs. 2 * length bs + 2 \<le> n \<longrightarrow> jelems (Suc n) bs = jelems n bs) \<and>
   (\<forall>bs. 2 * length bs + 2 \<le> n \<longrightarrow> jmembers (Suc n) bs = jmembers n bs)"
proof (induction n)
  case (Suc n)
  then have v: "\<And>bs. 2 * length bs + 1 \<le> n \<Longrightarrow> jvalue (Suc n) bs = jvalue n bs"
    and e: "\<And>bs. 2 * length bs + 2 \<le> n \<Longrightarrow> jelems (Suc n) bs = jelems n bs"
    and m: "\<And>bs. 2 * length bs + 2 \<le> n \<Longrightarrow> jmembers (Suc n) bs = jmembers n bs" by blast+
  have "jvalue (Suc (Suc n)) bs = jvalue (Suc n) bs" if bs: "2 * length bs + 1 \<le> Suc n" for bs
  proof (cases bs)
    case (Cons c s)
    then have "2 * length (skip_ws s) + 2 \<le> n" using bs length_skip_ws [of s] by simp
    from e [OF this] m [OF this] show ?thesis unfolding Cons jvalue.simps Let_def by presburger
  qed (simp add: jvalue.simps)
  moreover have "jelems (Suc (Suc n)) bs = jelems (Suc n) bs" if bs: "2 * length bs + 2 \<le> Suc n" for bs
  proof -
    have "jelems (Suc n) (skip_ws s1) = jelems n (skip_ws s1)"
      if "jvalue n bs = Some (x, s)" "skip_ws s = c # s1" for x s c s1
    proof (rule e)
      have "length s < length bs" using that(1) shorter by blast
      then show "2 * length (skip_ws s1) + 2 \<le> n"
        using bs skip_ws_Cons_length [OF that(2)] length_skip_ws [of s1] by simp
    qed
    then show ?thesis using v [of bs] bs
      unfolding jelems.simps(2) [of "Suc n"] jelems.simps(2) [of n] by (simp split: option.split list.split)
  qed
  moreover have "jmembers (Suc (Suc n)) bs = jmembers (Suc n) bs" if bs: "2 * length bs + 2 \<le> Suc n" for bs
  proof (cases bs)
    case (Cons q bs')
    have len: "length s1 + 2 \<le> length bs'" if "str_body bs' = Some (name, s)" "skip_ws s = c # s1" for name s c s1
      using str_body_shorter [OF that(1)] skip_ws_Cons_length [OF that(2)] by simp
    have "jvalue (Suc n) (skip_ws s1) = jvalue n (skip_ws s1)"
      if "str_body bs' = Some (name, s)" "skip_ws s = c # s1" for name s c s1
      using len [OF that] length_skip_ws [of s1] bs Cons by (intro v) simp
    moreover have "jmembers (Suc n) (skip_ws s3) = jmembers n (skip_ws s3)"
      if a: "str_body bs' = Some (name, s)" "skip_ws s = c # s1"
        and b: "jvalue n (skip_ws s1) = Some (x, s2)" "skip_ws s2 = c1 # s3" for name s c s1 x s2 c1 s3
    proof (rule m)
      have "length s2 < length (skip_ws s1)" using b(1) shorter by blast
      then show "2 * length (skip_ws s3) + 2 \<le> n"
        using len [OF a] length_skip_ws [of s1] skip_ws_Cons_length [OF b(2)] length_skip_ws [of s3] bs Cons by simp
    qed
    ultimately show ?thesis
      unfolding Cons jmembers.simps(2) [of "Suc n"] jmembers.simps(2) [of n] Let_def
      by (simp split: option.split list.split)
  qed (simp add: jmembers.simps)
  ultimately show ?case by blast
qed simp

lemma json_parse_fuel: "2 * length bs + 2 \<le> n \<Longrightarrow> jvalue n (skip_ws bs) = jvalue (2 * length bs + 2) (skip_ws bs)"
proof (induction n rule: dec_induct)
  case (step n)
  then show ?case using jvalue_fuel [of n] length_skip_ws [of bs] by simp
qed simp

section \<open>Addresses read back\<close>

lemma plain_IP_String:
  assumes "ip_ok ip" "ip \<noteq> []"
  shows "plain (IP_String ip)"
proof (cases "To4 ip")
  case (Some ip4)
  then show ?thesis by (simp add: IP_String_def dotted_def bytes_of_def)
next
  case None
  have "length ip = 16" using assms None by (auto simp: ip_ok_def To4_def)
  from ParseIP_v6(2) [OF this None] have "\<forall>c \<in> set (IP_String ip). is_hex c \<or> c = 58" .
  moreover have "32 \<le> c \<and> c \<noteq> 34 \<and> c \<noteq> 92" if "is_hex c \<or> c = 58" for c
    using that order.trans [of 32 48 c] order.trans [of 32 97 c] order.trans [of 32 65 c]
    by (auto simp: is_hex_def fromHexChar_def split: if_splits)
  ultimately show ?thesis by (simp add: plain_def list_all_iff)
qed

lemma dec_ip_roundtrip:
  assumes "ip_ok ip"
  obtains t where "IP_MarshalText ip = Some t" "plain t" "\<And>raw s. dec_ip raw (JStr t) s = Ok (normal_ip ip, True)"
proof (cases "ip = []")
  case True
  then show ?thesis using that [of "[]"] by (simp add: IP_MarshalText_def dec_ip_def normal_ip_def To16_def)
next
  case False
  have "ParseIP [] = None" by (simp add: ParseIP_def)
  then have "IP_String ip \<noteq> []" using ParseIP_String [OF assms False] by auto
  moreover have "length ip = 4 \<or> length ip = 16" using assms False by (auto simp: ip_ok_def)
  ultimately show ?thesis
    using that [of "IP_String ip"] plain_IP_String [OF assms False] ParseIP_String [OF assms False] False
    by (auto simp: IP_MarshalText_def dec_ip_def)
qed

section \<open>Numbers and byte arrays read back\<close>

lemma dec_uint_dec: "dec_uint raw (JNum (dec (unat w))) s = Ok (w, True)" for w s :: "'a::len word"
  using unsigned_less [of w] by (simp add: dec_uint_def)

lemma dec_int64_nat: "n < 2 ^ 63 \<Longrightarrow> dec_int64 raw (JNum (dec n)) s = Ok (int n, True)"
proof -
  assume n: "n < 2 ^ 63"
  obtain d ds where d: "dec n = d # ds" "is_digit d" using dec_first by blast
  then have "take 1 (dec n) \<noteq> [45]" by (auto simp: is_digit_def)
  with n show ?thesis by (simp add: dec_int64_def)
qed

lemma dec_bytes_dec: "length bs = length s \<Longrightarrow> dec_bytes (map (\<lambda>b. JNum (dec (unat b))) bs) s = (bs, True)"
  by (induction bs s rule: list_induct2) (simp_all add: dec_uint_dec)

end
