(* ===== verification/Packet.thy ===== *)
theory Packet
  imports Rpc Go_Json_Decode
begin

text \<open>
  Encoding and decoding of discovery packets (discover/udp.go, common/rawencode): a type byte, the
  sender's identifier, one length byte and the JSON form of the packet. Encoding writes out what
  encoding/json produces for the four packet structs, decoding reads it with the decoders of their
  fields.
\<close>

datatype packet_error = JsonErr | PacketTooLarge | ShortPacket | UnknownType byte

section \<open>The JSON form\<close>

definition json_uint16 :: "uint16 \<Rightarrow> bytes" where "json_uint16 w = dec (unat w)"
definition json_uint64 :: "uint64 \<Rightarrow> bytes" where "json_uint64 w = dec (unat w)"

text \<open>A \<^verbatim>\<open>NodeId\<close> is an array, not a slice, so it becomes an array of numbers.\<close>

definition json_id :: "nodeid \<Rightarrow> bytes" where
  "json_id i = json_array (map (\<lambda>b. dec (unat b)) (id_bytes i))"

definition json_ip :: "bytes \<Rightarrow> bytes option" where
  "json_ip ip = map_option json_string (IP_MarshalText ip)"

definition json_endpoint :: "rpcEndpoint \<Rightarrow> bytes option" where
  "json_endpoint ep =
     map_option (\<lambda>ip. json_object [json_field ''IP'' ip, json_field ''UDP'' (json_uint16 (ep_UDP ep)),
         json_field ''TCP'' (json_uint16 (ep_TCP ep))])
       (json_ip (case ep_IP ep of None \<Rightarrow> [] | Some ip \<Rightarrow> ip))"

definition json_rpcNode :: "rpcNode \<Rightarrow> bytes option" where
  "json_rpcNode rn =
     map_option (\<lambda>ip. json_object [json_field ''IP'' ip, json_field ''UDP'' (json_uint16 (rn_UDP rn)),
         json_field ''TCP'' (json_uint16 (rn_TCP rn)), json_field ''ID'' (json_id (rn_ID rn))])
       (json_ip (rn_IP rn))"

fun json_packet :: "packet \<Rightarrow> bytes option" where
  "json_packet (Ping v from_ep to_ep e) =
     (case (json_endpoint from_ep, json_endpoint to_ep) of
        (Some f, Some t) \<Rightarrow>
          Some (json_object [json_field ''Version'' (dec_int v), json_field ''From'' f, json_field ''To'' t,
            json_field ''Expiration'' (json_uint64 e)])
      | _ \<Rightarrow> None)"
| "json_packet (Pong to_ep e) =
     map_option (\<lambda>t. json_object [json_field ''To'' t, json_field ''Expiration'' (json_uint64 e)])
       (json_endpoint to_ep)"
| "json_packet (Findnode target e) =
     Some (json_object [json_field ''Target'' (json_id target), json_field ''Expiration'' (json_uint64 e)])"
| "json_packet (Neighbors rns e) =
     map_option (\<lambda>vs. json_object [json_field ''Nodes'' (if rns = [] then bytes_of ''null'' else json_array vs),
         json_field ''Expiration'' (json_uint64 e)])
       (all_some (map json_rpcNode rns))"

text \<open>The decoders of the structs of discover/types.go.\<close>

definition dec_id :: "nodeid decoder" where
  "dec_id = dec_part id_bytes (\<lambda>bs _. id_of bs) dec_byte_array"

definition ip_slice :: "bytes option \<Rightarrow> bytes" where
  "ip_slice ip = (case ip of None \<Rightarrow> [] | Some bs \<Rightarrow> bs)"

definition slice_ip :: "bytes \<Rightarrow> bytes option" where
  "slice_ip bs = (if bs = [] then None else Some bs)"

definition dec_endpoint :: "rpcEndpoint decoder" where
  "dec_endpoint = dec_struct
     [(''IP'', dec_part (\<lambda>ep. ip_slice (ep_IP ep)) (\<lambda>ip ep. ep\<lparr>ep_IP := slice_ip ip\<rparr>) dec_ip),
      (''UDP'', dec_part ep_UDP (\<lambda>p ep. ep\<lparr>ep_UDP := p\<rparr>) dec_uint),
      (''TCP'', dec_part ep_TCP (\<lambda>p ep. ep\<lparr>ep_TCP := p\<rparr>) dec_uint)]"

definition dec_rpcNode :: "rpcNode decoder" where
  "dec_rpcNode = dec_struct
     [(''IP'', dec_part rn_IP (\<lambda>ip rn. rn\<lparr>rn_IP := ip\<rparr>) dec_ip),
      (''UDP'', dec_part rn_UDP (\<lambda>p rn. rn\<lparr>rn_UDP := p\<rparr>) dec_uint),
      (''TCP'', dec_part rn_TCP (\<lambda>p rn. rn\<lparr>rn_TCP := p\<rparr>) dec_uint),
      (''ID'', dec_part rn_ID (\<lambda>i rn. rn\<lparr>rn_ID := i\<rparr>) dec_id)]"

definition zero_endpoint :: rpcEndpoint where
  "zero_endpoint = \<lparr>ep_IP = None, ep_UDP = 0, ep_TCP = 0\<rparr>"

definition zero_rpcNode :: rpcNode where
  "zero_rpcNode = \<lparr>rn_IP = [], rn_UDP = 0, rn_TCP = 0, rn_ID = id_of []\<rparr>"

definition dec_ping :: "(int \<times> rpcEndpoint \<times> rpcEndpoint \<times> uint64) decoder" where
  "dec_ping = dec_struct
     [(''Version'', dec_part (\<lambda>(v, f, t, e). v) (\<lambda>v (_, f, t, e). (v, f, t, e)) dec_int64),
      (''From'', dec_part (\<lambda>(v, f, t, e). f) (\<lambda>f (v, _, t, e). (v, f, t, e)) dec_endpoint),
      (''To'', dec_part (\<lambda>(v, f, t, e). t) (\<lambda>t (v, f, _, e). (v, f, t, e)) dec_endpoint),
      (''Expiration'', dec_part (\<lambda>(v, f, t, e). e) (\<lambda>e (v, f, t, _). (v, f, t, e)) dec_uint)]"

definition dec_pong :: "(rpcEndpoint \<times> uint64) decoder" where
  "dec_pong = dec_struct
     [(''To'', dec_part fst (\<lambda>t (_, e). (t, e)) dec_endpoint),
      (''Expiration'', dec_part snd (\<lambda>e (t, _). (t, e)) dec_uint)]"

definition dec_findnode :: "(nodeid \<times> uint64) decoder" where
  "dec_findnode = dec_struct
     [(''Target'', dec_part fst (\<lambda>t (_, e). (t, e)) dec_id),
      (''Expiration'', dec_part snd (\<lambda>e (t, _). (t, e)) dec_uint)]"

definition dec_neighbors :: "(rpcNode list \<times> uint64) decoder" where
  "dec_neighbors = dec_struct
     [(''Nodes'', dec_part fst (\<lambda>ns (_, e). (ns, e)) (dec_slice dec_rpcNode zero_rpcNode)),
      (''Expiration'', dec_part snd (\<lambda>e (ns, _). (ns, e)) dec_uint)]"

text \<open>The \<^verbatim>\<open>switch\<close> of \<^verbatim>\<open>decodePacket\<close>: a zero packet of the type, then \<^verbatim>\<open>rawencode.Decode\<close>.\<close>

definition unmarshal :: "byte \<Rightarrow> bytes \<Rightarrow> (packet_error, packet) res" where
  "unmarshal ptype data =
     (let out = (\<lambda>r. case r of Ok p \<Rightarrow> Ok p | Err _ \<Rightarrow> Err JsonErr | Panic \<Rightarrow> Panic) in
      if ptype = pingPacket then
        out (res_bind (rawencode_Decode None dec_ping data (0, zero_endpoint, zero_endpoint, 0))
          (\<lambda>(v, f, t, e). Ok (Ping v f t e)))
      else if ptype = pongPacket then
        out (res_bind (rawencode_Decode None dec_pong data (zero_endpoint, 0)) (\<lambda>(t, e). Ok (Pong t e)))
      else if ptype = findnodePacket then
        out (res_bind (rawencode_Decode None dec_findnode data (id_of [], 0)) (\<lambda>(t, e). Ok (Findnode t e)))
      else if ptype = neighborsPacket then
        out (res_bind (rawencode_Decode None dec_neighbors data ([], 0)) (\<lambda>(ns, e). Ok (Neighbors ns e)))
      else Err (UnknownType ptype))"

section \<open>Encoding and decoding\<close>

definition encodePacket :: "nodeid \<Rightarrow> packet \<Rightarrow> (packet_error, bytes) res" where
  "encodePacket self req =
     (case rawencode_Encode None json_packet req of None \<Rightarrow> Err JsonErr
      | Some bs \<Rightarrow>
          let bsLen = of_nat (length bs) :: uint32 in
          if drop_bit 8 bsLen > 0 then Err PacketTooLarge
          else Ok (packet_type req # id_bytes self @ [of_nat (length bs)] @ bs))"

record packetHead =
  ph_mType :: byte
  ph_id :: nodeid
  ph_dataLen :: byte

text \<open>
  \<^verbatim>\<open>decodePacketHead\<close> reads byte by byte until it has \<^verbatim>\<open>nodeIdLen + 2\<close> of them; the rest of the input
  stays in the reader.
\<close>

fun read_head :: "nat \<Rightarrow> bytes \<Rightarrow> bytes \<Rightarrow> (packet_error, bytes \<times> bytes) res" where
  "read_head 0 acc s = Ok (acc, s)"
| "read_head (Suc k) acc [] = Err ShortPacket"
| "read_head (Suc k) acc (b # s) = read_head k (acc @ [b]) s"

definition decodePacketHead :: "bytes \<Rightarrow> (packet_error, packetHead \<times> bytes) res" where
  "decodePacketHead s =
     res_bind (read_head 66 [] s) (\<lambda>(hd_buf, rest).
       res_bind (index_at hd_buf 0) (\<lambda>t.
       res_bind (index_at hd_buf 65) (\<lambda>n.
         Ok (\<lparr>ph_mType = t, ph_id = id_of (take 64 (drop 1 hd_buf)), ph_dataLen = n\<rparr>, rest))))"

text \<open>
  \<^verbatim>\<open>Read\<close> of a bytes.Buffer into a slice of the announced length: an empty buffer is an error, a short one
  leaves the tail of the slice zero.
\<close>

definition decodePacket :: "bytes \<Rightarrow> (packet_error, packet \<times> nodeid) res" where
  "decodePacket s =
     res_bind (decodePacketHead s) (\<lambda>(h, rest).
       if rest = [] \<and> ph_dataLen h \<noteq> 0 then Err ShortPacket
       else
         res_bind (unmarshal (ph_mType h) (go_copy (replicate (unat (ph_dataLen h)) 0) rest)) (\<lambda>req.
           Ok (req, ph_id h)))"

section \<open>Lengths\<close>

lemma read_head_eq: "read_head k acc s = (if k \<le> length s then Ok (acc @ take k s, drop k s) else Err ShortPacket)"
  by (induction k acc s rule: read_head.induct) auto

lemma too_large_iff: "n < 2 ^ 32 \<Longrightarrow> 0 < drop_bit 8 (of_nat n :: uint32) \<longleftrightarrow> 256 \<le> n"
proof -
  assume "n < 2 ^ 32"
  then have u: "unat (of_nat n :: uint32) = n" by (simp add: unat_of_nat)
  have "0 < drop_bit 8 (of_nat n :: uint32) \<longleftrightarrow> 0 < unat (drop_bit 8 (of_nat n :: uint32))"
    by (simp add: word_greater_zero_iff unat_gt_0)
  also have "\<dots> \<longleftrightarrow> 0 < drop_bit 8 n"
    using \<open>n < 2 ^ 32\<close> by (simp add: unsigned_drop_bit_eq u take_bit_nat_eq_self)
  also have "\<dots> \<longleftrightarrow> 256 \<le> n" by (simp add: drop_bit_eq_div) linarith
  finally show ?thesis .
qed

lemma length_json_id: "length (json_id i) = sum_list (map (\<lambda>b. length (dec (unat b))) (id_bytes i)) + 65"
  by (simp add: json_id_def comp_def)

lemma length_json_id_ge: "129 \<le> length (json_id i)"
proof -
  have "length xs \<le> sum_list (map (\<lambda>b. length (dec (unat b))) xs)" for xs :: bytes
  proof (induction xs)
    case (Cons b xs)
    then show ?case using length_dec_ge [of "unat b"] by simp
  qed simp
  from this [of "id_bytes i"] show ?thesis by (simp add: length_json_id)
qed

lemma length_json_rpcNode: "json_rpcNode rn = Some v \<Longrightarrow> 150 \<le> length v"
  using length_json_id_ge [of "rn_ID rn"] length_dec_ge [of "unat (rn_UDP rn)"]
  by (auto simp: json_rpcNode_def json_ip_def json_uint16_def)

lemma all_some_lengths:
  "all_some (map f xs) = Some vs \<Longrightarrow> \<forall>x v. f x = Some v \<longrightarrow> k \<le> length v \<Longrightarrow>
   length vs = length xs \<and> k * length xs \<le> sum_list (map length vs)"
proof (induction xs arbitrary: vs)
  case (Cons x xs)
  then obtain v ws where v: "f x = Some v" "all_some (map f xs) = Some ws" "vs = v # ws"
    by (cases "f x") auto
  with Cons.IH [OF v(2) Cons.prems(2)] Cons.prems(2) have "length ws = length xs"
    "k * length xs \<le> sum_list (map length ws)" "k \<le> length v" by auto
  then show ?case by (simp add: v(3))
qed simp

lemma json_neighbors_length:
  assumes "json_packet (Neighbors rns e) = Some bs"
  shows "150 * length rns \<le> length bs"
proof -
  obtain vs where vs: "all_some (map json_rpcNode rns) = Some vs"
    and bs: "bs = json_object [json_field ''Nodes'' (if rns = [] then bytes_of ''null'' else json_array vs),
         json_field ''Expiration'' (json_uint64 e)]"
    using assms by auto
  have "150 * length rns \<le> sum_list (map length vs)"
    using all_some_lengths [OF vs, of 150] length_json_rpcNode by blast
  then show ?thesis by (simp add: bs)
qed

lemma encodePacket_length:
  assumes "encodePacket self req = Ok out" "json_packet req = Some bs" "length bs < 2 ^ 32"
  shows "length bs < 256" "length out = 66 + length bs"
proof -
  show "length bs < 256"
  proof (rule ccontr)
    assume "\<not> length bs < 256"
    then have "0 < drop_bit 8 (of_nat (length bs) :: uint32)" using too_large_iff [OF assms(3)] by simp
    then show False using assms(1,2) by (simp add: encodePacket_def Let_def)
  qed
  show "length out = 66 + length bs"
    using assms(1,2) by (auto simp: encodePacket_def Let_def split: if_splits)
qed

section \<open>Reading back\<close>

text \<open>What a packet looks like to its receiver: addresses have their 16-byte form.\<close>

definition normal_endpoint :: "rpcEndpoint \<Rightarrow> rpcEndpoint" where
  "normal_endpoint ep = ep\<lparr>ep_IP := slice_ip (normal_ip (ip_slice (ep_IP ep)))\<rparr>"

definition normal_rpcNode :: "rpcNode \<Rightarrow> rpcNode" where
  "normal_rpcNode rn = rn\<lparr>rn_IP := normal_ip (rn_IP rn)\<rparr>"

fun normal_packet :: "packet \<Rightarrow> packet" where
  "normal_packet (Ping v f t e) = Ping v (normal_endpoint f) (normal_endpoint t) e"
| "normal_packet (Pong t e) = Pong (normal_endpoint t) e"
| "normal_packet (Findnode i e) = Findnode i e"
| "normal_packet (Neighbors rns e) = Neighbors (map normal_rpcNode rns) e"

fun packet_ok :: "packet \<Rightarrow> bool" where
  "packet_ok (Ping v f t e) \<longleftrightarrow> ip_ok (ip_slice (ep_IP f)) \<and> ip_ok (ip_slice (ep_IP t)) \<and> 0 \<le> v \<and> v < 2 ^ 63"
| "packet_ok (Pong t e) \<longleftrightarrow> ip_ok (ip_slice (ep_IP t))"
| "packet_ok (Findnode i e) \<longleftrightarrow> True"
| "packet_ok (Neighbors rns e) \<longleftrightarrow> list_all (\<lambda>rn. ip_ok (rn_IP rn)) rns"

lemma plain_names [simp]:
  "plain (bytes_of ''IP'')" "plain (bytes_of ''UDP'')" "plain (bytes_of ''TCP'')" "plain (bytes_of ''ID'')"
  "plain (bytes_of ''Version'')" "plain (bytes_of ''From'')" "plain (bytes_of ''To'')"
  "plain (bytes_of ''Expiration'')" "plain (bytes_of ''Target'')" "plain (bytes_of ''Nodes'')"
  by (simp_all add: bytes_of_def)

lemmas dec_simps = dec_struct_def dec_part_def find_field_def

lemma json_endpoint_reads:
  assumes "ip_ok (ip_slice (ep_IP ep))"
  obtains raw v where "json_endpoint ep = Some raw" "parses raw v"
    "\<And>r. dec_endpoint r v zero_endpoint = Ok (normal_endpoint ep, True)"
proof -
  obtain t where t: "IP_MarshalText (ip_slice (ep_IP ep)) = Some t" "plain t"
    and d: "\<And>raw s. dec_ip raw (JStr t) s = Ok (normal_ip (ip_slice (ep_IP ep)), True)"
    using dec_ip_roundtrip [OF assms] by blast
  let ?fs = "[(''IP'', json_string t, JStr t), (''UDP'', dec (unat (ep_UDP ep)), JNum (dec (unat (ep_UDP ep)))),
    (''TCP'', dec (unat (ep_TCP ep)), JNum (dec (unat (ep_TCP ep))))]"
  have "json_endpoint ep = Some (json_object (fields_raw ?fs))"
    using t(1) by (simp add: json_endpoint_def json_ip_def json_uint16_def ip_slice_def)
  moreover have "parses (json_object (fields_raw ?fs)) (JObj (fields_val ?fs))"
    by (rule parses_object) (simp_all add: field_ok_def parses_string t(2) parses_dec)
  moreover have "dec_endpoint r (JObj (fields_val ?fs)) zero_endpoint = Ok (normal_endpoint ep, True)" for r
    by (simp add: dec_endpoint_def dec_simps d dec_uint_dec zero_endpoint_def normal_endpoint_def)
  ultimately show ?thesis by (rule that)
qed

lemma parses_id: "parses (json_id i) (JArr (map (\<lambda>b. JNum (dec (unat b))) (id_bytes i)))"
  unfolding json_id_def by (rule parses_array) (simp add: list_all2_conv_all_nth parses_dec)

lemma dec_id_reads: "dec_id r (JArr (map (\<lambda>b. JNum (dec (unat b))) (id_bytes i))) i0 = Ok (i, True)"
  by (simp add: dec_id_def dec_part_def dec_byte_array_def dec_bytes_dec)

lemma json_rpcNode_reads:
  assumes "ip_ok (rn_IP rn)"
  obtains raw v where "json_rpcNode rn = Some raw" "parses raw v"
    "\<And>r. dec_rpcNode r v zero_rpcNode = Ok (normal_rpcNode rn, True)"
proof -
  obtain t where t: "IP_MarshalText (rn_IP rn) = Some t" "plain t"
    and d: "\<And>raw s. dec_ip raw (JStr t) s = Ok (normal_ip (rn_IP rn), True)"
    using dec_ip_roundtrip [OF assms] by blast
  let ?fs = "[(''IP'', json_string t, JStr t), (''UDP'', dec (unat (rn_UDP rn)), JNum (dec (unat (rn_UDP rn)))),
    (''TCP'', dec (unat (rn_TCP rn)), JNum (dec (unat (rn_TCP rn)))),
    (''ID'', json_id (rn_ID rn), JArr (map (\<lambda>b. JNum (dec (unat b))) (id_bytes (rn_ID rn))))]"
  have "json_rpcNode rn = Some (json_object (fields_raw ?fs))"
    using t(1) by (simp add: json_rpcNode_def json_ip_def json_uint16_def)
  moreover have "parses (json_object (fields_raw ?fs)) (JObj (fields_val ?fs))"
    by (rule parses_object) (simp_all add: field_ok_def parses_string t(2) parses_dec parses_id)
  moreover have "dec_rpcNode r (JObj (fields_val ?fs)) zero_rpcNode = Ok (normal_rpcNode rn, True)" for r
    by (simp add: dec_rpcNode_def dec_simps d dec_uint_dec dec_id_reads zero_rpcNode_def normal_rpcNode_def)
  ultimately show ?thesis by (rule that)
qed

lemma json_nodes_read:
  "list_all (\<lambda>rn. ip_ok (rn_IP rn)) rns \<Longrightarrow>
   \<exists>raws vs. all_some (map json_rpcNode rns) = Some raws \<and> list_all2 parses raws vs \<and>
     dec_list dec_rpcNode zero_rpcNode vs = Ok (map normal_rpcNode rns, True)"
proof (induction rns)
  case (Cons rn rns)
  then obtain raws vs where IH: "all_some (map json_rpcNode rns) = Some raws" "list_all2 parses raws vs"
    "dec_list dec_rpcNode zero_rpcNode vs = Ok (map normal_rpcNode rns, True)" by auto
  from Cons.prems have "ip_ok (rn_IP rn)" by simp
  from json_rpcNode_reads [OF this] obtain raw v where "json_rpcNode rn = Some raw" "parses raw v"
    "\<And>r. dec_rpcNode r v zero_rpcNode = Ok (normal_rpcNode rn, True)" by blast
  with IH show ?case by (intro exI [of _ "raw # raws"] exI [of _ "v # vs"]) simp
qed simp

text \<open>An object with two fields, the second of them the expiration.\<close>

lemma parses_two:
  assumes "parses raw v" "plain (bytes_of name)"
  shows "parses (json_object [json_field name raw, json_field ''Expiration'' (json_uint64 e)])
    (JObj [(bytes_of name, raw, v), (bytes_of ''Expiration'', dec (unat e), JNum (dec (unat e)))])"
  using parses_object [of "[(name, raw, v), (''Expiration'', dec (unat e), JNum (dec (unat e)))]"] assms
  by (simp add: field_ok_def parses_dec json_uint64_def)

lemma json_Unmarshal_parses:
  "parses raw v \<Longrightarrow> d raw v s = Ok (x, True) \<Longrightarrow> json_Unmarshal d raw s = Ok x"
  by (simp add: json_Unmarshal_def json_parse_parses)

lemma unmarshal_types [simp]:
  "unmarshal pingPacket data = (case json_Unmarshal dec_ping data (0, zero_endpoint, zero_endpoint, 0) of
     Ok (v, f, t, e) \<Rightarrow> Ok (Ping v f t e) | Err _ \<Rightarrow> Err JsonErr | Panic \<Rightarrow> Panic)"
  "unmarshal pongPacket data = (case json_Unmarshal dec_pong data (zero_endpoint, 0) of
     Ok (t, e) \<Rightarrow> Ok (Pong t e) | Err _ \<Rightarrow> Err JsonErr | Panic \<Rightarrow> Panic)"
  "unmarshal findnodePacket data = (case json_Unmarshal dec_findnode data (id_of [], 0) of
     Ok (t, e) \<Rightarrow> Ok (Findnode t e) | Err _ \<Rightarrow> Err JsonErr | Panic \<Rightarrow> Panic)"
  "unmarshal neighborsPacket data = (case json_Unmarshal dec_neighbors data ([], 0) of
     Ok (ns, e) \<Rightarrow> Ok (Neighbors ns e) | Err _ \<Rightarrow> Err JsonErr | Panic \<Rightarrow> Panic)"
  by (auto simp: unmarshal_def packet_types split: res.split)

lemma ping_reads:
  assumes "ip_ok (ip_slice (ep_IP f))" "ip_ok (ip_slice (ep_IP t))" "0 \<le> v" "v < 2 ^ 63"
  shows "\<exists>bs. json_packet (Ping v f t e) = Some bs \<and> unmarshal pingPacket bs = Ok (normal_packet (Ping v f t e))"
proof -
  obtain rf jf where f: "json_endpoint f = Some rf" "parses rf jf"
    "\<And>r. dec_endpoint r jf zero_endpoint = Ok (normal_endpoint f, True)" using json_endpoint_reads [OF assms(1)] by blast
  obtain rt jt where t: "json_endpoint t = Some rt" "parses rt jt"
    "\<And>r. dec_endpoint r jt zero_endpoint = Ok (normal_endpoint t, True)" using json_endpoint_reads [OF assms(2)] by blast
  let ?fs = "[(''Version'', dec (nat v), JNum (dec (nat v))), (''From'', rf, jf), (''To'', rt, jt),
    (''Expiration'', dec (unat e), JNum (dec (unat e)))]"
  have p: "parses (json_object (fields_raw ?fs)) (JObj (fields_val ?fs))"
    by (rule parses_object) (simp_all add: field_ok_def parses_dec f(2) t(2))
  have v: "dec_int64 r (JNum (dec (nat v))) s = Ok (v, True)" for r s
    using dec_int64_nat [of "nat v"] assms(3,4) by (simp add: nat_less_iff)
  have "dec_ping r (JObj (fields_val ?fs)) (0, zero_endpoint, zero_endpoint, 0) =
      Ok ((v, normal_endpoint f, normal_endpoint t, e), True)" for r
    by (simp add: dec_ping_def dec_simps v f(3) t(3) dec_uint_dec)
  from json_Unmarshal_parses [OF p, of dec_ping, OF this]
  have "unmarshal pingPacket (json_object (fields_raw ?fs)) = Ok (normal_packet (Ping v f t e))" by simp
  moreover have "json_packet (Ping v f t e) = Some (json_object (fields_raw ?fs))"
    using assms(3) by (simp add: f(1) t(1) dec_int_def json_uint64_def)
  ultimately show ?thesis by blast
qed

lemma pong_reads:
  assumes "ip_ok (ip_slice (ep_IP t))"
  shows "\<exists>bs. json_packet (Pong t e) = Some bs \<and> unmarshal pongPacket bs = Ok (normal_packet (Pong t e))"
proof -
  obtain raw v where t: "json_endpoint t = Some raw" "parses raw v"
    "\<And>r. dec_endpoint r v zero_endpoint = Ok (normal_endpoint t, True)" using json_endpoint_reads [OF assms] by blast
  have "dec_pong r (JObj [(bytes_of ''To'', raw, v), (bytes_of ''Expiration'', dec (unat e), JNum (dec (unat e)))])
      (zero_endpoint, 0) = Ok ((normal_endpoint t, e), True)" for r
    by (simp add: dec_pong_def dec_simps t(3) dec_uint_dec)
  from json_Unmarshal_parses [OF parses_two [OF t(2) plain_names(7), of e], of dec_pong, OF this] t(1) show ?thesis by simp
qed

lemma findnode_reads:
  "\<exists>bs. json_packet (Findnode i e) = Some bs \<and> unmarshal findnodePacket bs = Ok (Findnode i e)"
proof -
  have "dec_findnode r (JObj [(bytes_of ''Target'', json_id i, JArr (map (\<lambda>b. JNum (dec (unat b))) (id_bytes i))),
      (bytes_of ''Expiration'', dec (unat e), JNum (dec (unat e)))]) (id_of [], 0) = Ok ((i, e), True)" for r
    by (simp add: dec_findnode_def dec_simps dec_id_reads dec_uint_dec)
  from json_Unmarshal_parses [OF parses_two [OF parses_id [of i] plain_names(9), of e], of dec_findnode, OF this] show ?thesis by simp
qed

lemma neighbors_reads:
  assumes "list_all (\<lambda>rn. ip_ok (rn_IP rn)) rns"
  shows "\<exists>bs. json_packet (Neighbors rns e) = Some bs \<and>
    unmarshal neighborsPacket bs = Ok (normal_packet (Neighbors rns e))"
proof -
  obtain raws vs where r: "all_some (map json_rpcNode rns) = Some raws" "list_all2 parses raws vs"
    "dec_list dec_rpcNode zero_rpcNode vs = Ok (map normal_rpcNode rns, True)" using json_nodes_read [OF assms] by blast
  define raw v where "raw = (if rns = [] then bytes_of ''null'' else json_array raws)"
    and "v = (if rns = [] then JNull else JArr vs)"
  have p: "parses raw v" by (simp add: raw_def v_def parses_null parses_array [OF r(2)])
  have "dec_neighbors r (JObj [(bytes_of ''Nodes'', raw, v), (bytes_of ''Expiration'', dec (unat e), JNum (dec (unat e)))])
      ([], 0) = Ok ((map normal_rpcNode rns, e), True)" for r
    by (cases "rns = []") (simp_all add: dec_neighbors_def dec_simps dec_slice_def v_def r(3) dec_uint_dec)
  from json_Unmarshal_parses [OF parses_two [OF p plain_names(10), of e], of dec_neighbors, OF this]
  show ?thesis using r(1) by (simp add: raw_def)
qed

lemma packet_reads:
  assumes "packet_ok req"
  shows "\<exists>bs. json_packet req = Some bs \<and> unmarshal (packet_type req) bs = Ok (normal_packet req)"
proof (cases req)
  case (Ping v f t e)
  with assms show ?thesis using ping_reads [of f t v e] by (simp del: json_packet.simps unmarshal_types)
next
  case (Pong t e)
  with assms show ?thesis using pong_reads [of t e] by (simp del: json_packet.simps unmarshal_types)
next
  case (Findnode i e)
  then show ?thesis using findnode_reads [of i e] by (simp del: json_packet.simps unmarshal_types)
next
  case (Neighbors rns e)
  with assms show ?thesis using neighbors_reads [of rns e] by (simp del: json_packet.simps unmarshal_types)
qed

lemma decodePacket_frame:
  assumes "length bs < 256" "bs \<noteq> []"
  shows "decodePacket ((t # id_bytes self @ [of_nat (length bs)] @ bs) @ junk) =
    res_bind (unmarshal t bs) (\<lambda>req. Ok (req, self))"
proof -
  let ?out = "t # id_bytes self @ [of_nat (length bs)] @ bs"
  have len: "unat (of_nat (length bs) :: byte) = length bs" using assms(1) by (simp add: unat_of_nat)
  have "take 66 (?out @ junk) = t # id_bytes self @ [of_nat (length bs)]" "drop 66 (?out @ junk) = bs @ junk"
    by simp_all
  then have hd: "decodePacketHead (?out @ junk) =
      Ok (\<lparr>ph_mType = t, ph_id = self, ph_dataLen = of_nat (length bs)\<rparr>, bs @ junk)"
    by (simp add: decodePacketHead_def read_head_eq index_at_def nth_append)
  have "go_copy (replicate (length bs) 0) (bs @ junk) = bs" by (simp add: go_copy_def)
  then show ?thesis unfolding decodePacket_def hd using len assms(2) by simp
qed

section \<open>Sizes\<close>

lemma length_dec_uint16: "length (dec (unat (w :: uint16))) \<le> 5"
proof -
  have "unat w < 65536" using unsigned_less [of w] by simp
  then have "unat w < 10 ^ 5" by simp
  then show ?thesis by (rule length_dec_less) simp
qed

lemma length_dec_uint64: "length (dec (unat (w :: uint64))) \<le> 20"
proof -
  have "unat w < 2 ^ 64" by (rule order.strict_trans2 [OF unsigned_less]) simp
  then have "unat w < 10 ^ 20" by simp
  then show ?thesis by (rule length_dec_less) simp
qed

lemma length_json_endpoint:
  assumes "json_endpoint ep = Some raw"
  shows "length raw \<le> 73"
proof -
  obtain t where t: "IP_MarshalText (ip_slice (ep_IP ep)) = Some t"
    and raw: "length raw = length t + length (dec (unat (ep_UDP ep))) + length (dec (unat (ep_TCP ep))) + 23"
    using assms by (auto simp: json_endpoint_def json_ip_def json_uint16_def ip_slice_def)
  have "length t \<le> 40" by (rule length_IP_MarshalText [OF t])
  then show ?thesis using raw length_dec_uint16 [of "ep_UDP ep"] length_dec_uint16 [of "ep_TCP ep"] by simp
qed

lemma encodePacket_oversized:
  assumes "json_packet req = Some bs" "256 \<le> length bs" "length bs < 2 ^ 32"
  shows "encodePacket self req = Err PacketTooLarge"
proof -
  have "0 < drop_bit 8 (of_nat (length bs) :: uint32)" using assms(2) too_large_iff [OF assms(3)] by simp
  then show ?thesis by (simp add: encodePacket_def assms(1))
qed

lemma length_json_id_le: "length (json_id i) \<le> 257"
proof -
  have "sum_list (map (\<lambda>b. length (dec (unat b))) xs) \<le> 3 * length xs" for xs :: bytes
  proof (induction xs)
    case (Cons b xs)
    then show ?case using length_dec_byte [of b] by simp
  qed simp
  from this [of "id_bytes i"] show ?thesis by (simp add: length_json_id)
qed

lemma length_dec_int63: "0 \<le> v \<Longrightarrow> v < 2 ^ 63 \<Longrightarrow> length (dec_int v) \<le> 19"
  using length_dec_less [of "nat v" 19] by (simp add: dec_int_def nat_less_iff)

lemma control_packet_small:
  assumes "packet_ok req" "packet_type req \<in> {pingPacket, pongPacket}" "json_packet req = Some bs"
  shows "length bs < 256"
proof (cases req)
  case (Ping v f t e)
  then obtain rf rt where r: "json_endpoint f = Some rf" "json_endpoint t = Some rt"
    and bs: "length bs = length rf + length rt + length (dec_int v) + length (dec (unat e)) + 40"
    using assms(3) by (auto simp: json_uint64_def split: option.splits)
  then show ?thesis
    using length_json_endpoint [OF r(1)] length_json_endpoint [OF r(2)] length_dec_int63 [of v] length_dec_uint64 [of e]
      assms(1) Ping by simp
next
  case (Pong t e)
  then obtain rt where r: "json_endpoint t = Some rt" and bs: "length bs = length rt + length (dec (unat e)) + 21"
    using assms(3) by (auto simp: json_uint64_def)
  then show ?thesis using length_json_endpoint [OF r] length_dec_uint64 [of e] assms(1) Pong by simp
qed (use assms(2) in \<open>simp_all add: packet_types\<close>)

lemma encode_decode:
  assumes "packet_ok req" "\<forall>bs. json_packet req = Some bs \<longrightarrow> length bs < 2 ^ 32"
  shows "(case encodePacket self req of
            Ok out \<Rightarrow> length out \<le> 321 \<and> decodePacket (out @ junk) = Ok (normal_packet req, self)
          | Err e \<Rightarrow> e = PacketTooLarge \<and> packet_type req \<notin> {pingPacket, pongPacket}
          | Panic \<Rightarrow> False)"
proof -
  obtain bs where bs: "json_packet req = Some bs" "unmarshal (packet_type req) bs = Ok (normal_packet req)"
    using packet_reads [OF assms(1)] by blast
  have small: "length bs < 2 ^ 32" using assms(2) bs(1) by blast
  show ?thesis
  proof (cases "length bs < 256")
    case True
    have "json_parse [] = None" by (simp add: json_parse_def skip_ws_def numeral_2_eq_2 jvalue.simps)
    then have "bs \<noteq> []" using bs(2) by (cases req) (auto simp: json_Unmarshal_def)
    with decodePacket_frame [OF True] bs(2) have
      "decodePacket ((packet_type req # id_bytes self @ [of_nat (length bs)] @ bs) @ junk) = Ok (normal_packet req, self)"
      by simp
    then show ?thesis using True bs(1) too_large_iff [OF small] by (simp add: encodePacket_def Let_def)
  next
    case False
    then show ?thesis
      using encodePacket_oversized [OF bs(1) _ small] control_packet_small [OF assms(1) _ bs(1)] by auto
  qed
qed

section \<open>The properties\<close>

text \<open>
  C7: Encoding and decoding agree. A packet whose addresses are IPv4 or IPv6 addresses or nil
  is either too large for the length byte and refused, or encoded in at most 321 bytes, which fit the
  1280-byte buffer of the read loop and which, even with other bytes behind them, are decoded to the
  sender's identifier and the packet with its addresses in 16-byte form. Pings and pongs are never
  refused.
\<close>

theorem packet_roundtrip:
  assumes "packet_ok req" "\<forall>bs. json_packet req = Some bs \<longrightarrow> length bs < 2 ^ 32"
  shows "(case encodePacket self req of
            Ok out \<Rightarrow> length out \<le> 321 \<and> decodePacket (out @ junk) = Ok (normal_packet req, self)
          | Err e \<Rightarrow> e = PacketTooLarge \<and> packet_type req \<notin> {pingPacket, pongPacket}
          | Panic \<Rightarrow> False)"
  by (rule encode_decode [OF assms])

definition demo_ping :: packet where
  "demo_ping = Ping 4 \<lparr>ep_IP = Some [127, 0, 0, 1], ep_UDP = 9001, ep_TCP = 9001\<rparr>
     \<lparr>ep_IP = Some [10, 0, 0, 2], ep_UDP = 9002, ep_TCP = 0\<rparr> 1700000000"

theorem packet_roundtrip_witness:
  "\<exists>out. encodePacket (id_of [1]) demo_ping = Ok out \<and>
    decodePacket (out @ [0]) = Ok (Ping 4 \<lparr>ep_IP = Some [0, 0, 0, 0, 0, 0, 0, 0, 0, 0, 255, 255, 127, 0, 0, 1],
       ep_UDP = 9001, ep_TCP = 9001\<rparr>
      \<lparr>ep_IP = Some [0, 0, 0, 0, 0, 0, 0, 0, 0, 0, 255, 255, 10, 0, 0, 2], ep_UDP = 9002, ep_TCP = 0\<rparr> 1700000000, id_of [1])"
proof -
  have v4: "packet_ok demo_ping" by (simp add: demo_ping_def ip_ok_def ip_slice_def To4_def)
  moreover have "\<forall>bs. json_packet demo_ping = Some bs \<longrightarrow> length bs < 2 ^ 32"
    using control_packet_small [OF v4] by (auto simp: demo_ping_def simp del: json_packet.simps)
  ultimately show ?thesis
    using packet_roundtrip [of demo_ping "[0]" "id_of [1]"]
    by (auto simp: demo_ping_def normal_endpoint_def ip_slice_def slice_ip_def normal_ip_def To16_def v4InV6Prefix_def
        split: res.splits)
qed

text \<open>
  A neighbors packet with two or more nodes can never be sent: identifiers become arrays of
  64 numbers, so that the JSON form exceeds the 255 bytes the length byte can express, and encoding
  fails (the JSON form is assumed to be shorter than the 4 GiB at which the 32-bit length wraps).
\<close>

theorem two_neighbors_never_fit:
  assumes "2 \<le> length rns" "\<forall>bs. json_packet (Neighbors rns e) = Some bs \<longrightarrow> length bs < 2 ^ 32"
  shows "encodePacket self (Neighbors rns e) = Err JsonErr \<or>
         encodePacket self (Neighbors rns e) = Err PacketTooLarge"
proof (cases "json_packet (Neighbors rns e)")
  case None
  then show ?thesis by (simp add: encodePacket_def del: json_packet.simps)
next
  case (Some bs)
  then have "256 \<le> length bs" "length bs < 2 ^ 32"
    using json_neighbors_length [OF Some] assms by auto
  from encodePacket_oversized [OF Some this] show ?thesis by simp
qed

definition demo_rpcNode :: rpcNode where
  "demo_rpcNode = \<lparr>rn_IP = [10, 0, 0, 1], rn_UDP = 9001, rn_TCP = 9001, rn_ID = id_of [5]\<rparr>"

theorem two_neighbors_never_fit_witness:
  "encodePacket (id_of [1]) (Neighbors [demo_rpcNode, demo_rpcNode] 9) = Err PacketTooLarge"
proof -
  have ip: "json_ip [10, 0, 0, 1] = Some (json_string (dotted [10, 0, 0, 1]))"
    by (simp add: json_ip_def IP_MarshalText_def IP_String_def To4_def)
  have "length (dotted [10, 0, 0, 1]) \<le> 15"
    using length_dec_byte [of 10] length_dec_byte [of 0] length_dec_byte [of 1] by (simp add: dotted_def)
  moreover have "length (dec 9001) \<le> 4" "length (dec 9) \<le> 1"
    using length_dec_less [of 9001 4] length_dec_less [of 9 1] by simp_all
  ultimately have "length bs < 2 ^ 32"
    if "json_packet (Neighbors [demo_rpcNode, demo_rpcNode] 9) = Some bs" for bs
    using that length_json_id_le [of "id_of [5]"]
    by (auto simp: demo_rpcNode_def json_rpcNode_def ip json_uint16_def json_uint64_def)
  moreover have "json_packet (Neighbors [demo_rpcNode, demo_rpcNode] 9) \<noteq> None"
    by (simp add: demo_rpcNode_def json_rpcNode_def ip)
  then have "encodePacket (id_of [1]) (Neighbors [demo_rpcNode, demo_rpcNode] 9) \<noteq> Err JsonErr"
    by (auto simp: encodePacket_def Let_def simp del: json_packet.simps split: if_splits)
  ultimately show ?thesis
    using two_neighbors_never_fit [of "[demo_rpcNode, demo_rpcNode]" 9 "id_of [1]"] by simp
qed

text \<open>
  Which findnode requests can be sent at all, exactly: those whose target has few enough decimal
  digits. With the ten-digit time stamps of today the 64 bytes of the target may have 155 digits
  together, out of 64 to 192.
\<close>

theorem findnode_fits_iff_few_digits:
  "(\<exists>out. encodePacket self (Findnode target e) = Ok out) \<longleftrightarrow>
   sum_list (map (\<lambda>b. length (dec (unat b))) (id_bytes target)) + length (dec (unat e)) \<le> 165"
proof -
  define bs where "bs = json_object [json_field ''Target'' (json_id target), json_field ''Expiration'' (json_uint64 e)]"
  have js: "json_packet (Findnode target e) = Some bs" by (simp add: bs_def)
  have len: "length bs = sum_list (map (\<lambda>b. length (dec (unat b))) (id_bytes target)) + length (dec (unat e)) + 90"
    by (simp add: bs_def length_json_id json_uint64_def)
  have "unat e < 2 ^ 64" by (rule order.strict_trans2 [OF unsigned_less]) simp
  then have "unat e < 10 ^ 20" by simp
  then have "length (dec (unat e)) \<le> 20" by (rule length_dec_less) simp
  then have small: "length bs < 2 ^ 32" using length_json_id_le [of target] by (simp add: len length_json_id)
  show ?thesis
  proof (cases "256 \<le> length bs")
    case True
    then show ?thesis using encodePacket_oversized [OF js True small, of self] len by auto
  next
    case False
    then have "\<not> 0 < drop_bit 8 (of_nat (length bs) :: uint32)" using too_large_iff [OF small] by simp
    then show ?thesis
      using False len js by (simp add: encodePacket_def Let_def del: json_packet.simps)
  qed
qed

end
