(* ===== verification/Storage.thy ===== *)
theory Storage
  imports Go_Binary "HOL-Library.List_Lexorder" "HOL-Library.Sublist"
begin

text \<open>
  storage/badger/badger.go: the key-value store over the badger engine. The engine is not part of
  the sources; it is an argument, a record of its operations, and \<^verbatim>\<open>engine_laws\<close> collects what its
  documentation promises: a successful write is read back and changes nothing else, a batch is the
  sequence of its operations, and an iterator visits the stored keys in ascending order. A write can
  fail (\<^verbatim>\<open>None\<close>).
\<close>

record 'db engine =
  eng_get :: "'db \<Rightarrow> bytes \<Rightarrow> bytes option"
  eng_set :: "bytes \<Rightarrow> bytes \<Rightarrow> 'db \<Rightarrow> 'db option"
  eng_del :: "bytes \<Rightarrow> 'db \<Rightarrow> 'db option"
  eng_keys :: "'db \<Rightarrow> bytes list"
  eng_flush :: "(bytes \<times> bytes option) list \<Rightarrow> 'db \<Rightarrow> 'db option"
  eng_empty :: 'db

definition engine_laws :: "'db engine \<Rightarrow> bool" where
  "engine_laws E \<longleftrightarrow>
     (\<forall>k v db db'. eng_set E k v db = Some db' \<longrightarrow> eng_get E db' = (eng_get E db)(k \<mapsto> v)) \<and>
     (\<forall>k db db'. eng_del E k db = Some db' \<longrightarrow> eng_get E db' = (eng_get E db)(k := None)) \<and>
     (\<forall>db. set (eng_keys E db) = dom (eng_get E db) \<and> sorted (eng_keys E db) \<and> distinct (eng_keys E db)) \<and>
     (\<forall>ops db db'. eng_flush E ops db = Some db' \<longrightarrow>
        eng_get E db' = fold (\<lambda>(k, v) m. m(k := v)) ops (eng_get E db)) \<and>
     eng_get E (eng_empty E) = Map.empty"

text \<open>An engine on which no write fails.\<close>

definition reliable :: "'db engine \<Rightarrow> bool" where
  "reliable E \<longleftrightarrow> (\<forall>k v db. eng_set E k v db \<noteq> None \<and> eng_del E k db \<noteq> None)"

record 'db storage =
  st_engine :: "'db engine"
  st_db :: 'db
  st_version :: uint32

datatype storage_error = WriteErr | ReadErr | RemoveErr | CallbackErr

section \<open>Reading and writing\<close>

definition GetData :: "bytes \<Rightarrow> 'db storage \<Rightarrow> bytes option" where
  "GetData key S = eng_get (st_engine S) (st_db S) key"

definition SetData :: "bytes \<Rightarrow> bytes \<Rightarrow> ('db storage, storage_error, unit) prog" where
  "SetData key val S =
     (case eng_set (st_engine S) key val (st_db S) of None \<Rightarrow> (S, Err WriteErr)
      | Some db \<Rightarrow> (S\<lparr>st_db := db\<rparr>, Ok ()))"

definition DelData :: "bytes \<Rightarrow> ('db storage, storage_error, unit) prog" where
  "DelData key S =
     (case eng_del (st_engine S) key (st_db S) of None \<Rightarrow> (S, Err WriteErr)
      | Some db \<Rightarrow> (S\<lparr>st_db := db\<rparr>, Ok ()))"

definition Get :: "string \<Rightarrow> 'db storage \<Rightarrow> bytes option" where
  "Get key = GetData (bytes_of key)"

definition Set :: "string \<Rightarrow> bytes \<Rightarrow> ('db storage, storage_error, unit) prog" where
  "Set key = SetData (bytes_of key)"

definition Del :: "string \<Rightarrow> ('db storage, storage_error, unit) prog" where
  "Del key = DelData (bytes_of key)"

definition GetVersion :: "'db storage \<Rightarrow> uint32" where
  "GetVersion S = st_version S"

text \<open>Write batches collect operations until they are committed; clearing and counting panic.\<close>

type_synonym batch = "(bytes \<times> bytes option) list"

definition NewWriteBatch :: batch where
  "NewWriteBatch = []"

definition batch_Put :: "bytes \<Rightarrow> bytes \<Rightarrow> batch \<Rightarrow> batch" where
  "batch_Put key val b = b @ [(key, Some val)]"

definition batch_Delete :: "bytes \<Rightarrow> batch \<Rightarrow> batch" where
  "batch_Delete key b = b @ [(key, None)]"

definition batch_Clear :: "batch \<Rightarrow> (unit, batch) res" where
  "batch_Clear b = Panic"

definition batch_Count :: "batch \<Rightarrow> (unit, int) res" where
  "batch_Count b = Panic"

definition CommitWriteBatch :: "batch \<Rightarrow> ('db storage, storage_error, unit) prog" where
  "CommitWriteBatch b S =
     (case eng_flush (st_engine S) b (st_db S) of None \<Rightarrow> (S, Err WriteErr)
      | Some db \<Rightarrow> (S\<lparr>st_db := db\<rparr>, Ok ()))"

section \<open>Opening\<close>

definition versionKey :: bytes where "versionKey = bytes_of ''version''"

text \<open>
  What the file system answers: whether the database opens and closes, and whether \<^verbatim>\<open>os.RemoveAll\<close> succeeds.
\<close>

record files =
  fs_opens :: bool
  fs_closes :: bool
  fs_removes :: bool

text \<open>
  \<^verbatim>\<open>NewByVersion\<close> on the contents \<^verbatim>\<open>db\<close> of the directory. A value that is missing or empty reads as a nil
  slice. The call repeats itself on the emptied directory; \<^verbatim>\<open>fuel\<close> bounds the repetitions.
\<close>

fun NewByVersion :: "nat \<Rightarrow> files \<Rightarrow> 'db engine \<Rightarrow> uint32 \<Rightarrow> 'db \<Rightarrow> (storage_error, 'db storage) res option" where
  "NewByVersion 0 fs E version db = None"
| "NewByVersion (Suc fuel) fs E version db =
     (if \<not> fs_opens fs then Some Panic
      else
        let S = \<lparr>st_engine = E, st_db = db, st_version = version\<rparr>;
            currentVer = put_uint32_le version;
            gotVersion = (case GetData versionKey S of None \<Rightarrow> [] | Some v \<Rightarrow> v)
        in if gotVersion = [] then
             (case SetData versionKey currentVer S of
                (S1, Ok _) \<Rightarrow> Some (Ok S1)
              | (_, Err e) \<Rightarrow> if fs_closes fs then Some (Err e) else Some Panic
              | (_, Panic) \<Rightarrow> Some Panic)
           else if gotVersion \<noteq> currentVer then
             (if \<not> fs_closes fs then Some Panic
              else if \<not> fs_removes fs then Some (Err RemoveErr)
              else NewByVersion fuel fs E version (eng_empty E))
           else Some (Ok S))"

definition New :: "nat \<Rightarrow> files \<Rightarrow> 'db engine \<Rightarrow> 'db \<Rightarrow> (storage_error, 'db storage) res option" where
  "New fuel fs E db =
     (case NewByVersion fuel fs E 0 db of
        Some (Err e) \<Rightarrow> Some Panic
      | r \<Rightarrow> r)"

section \<open>Iterating\<close>

text \<open>
  An iteration runs over the keys its transaction saw when it started. The value of each key is
  read, which may fail; the callback threads a state of the caller, and its first error ends the
  iteration.
\<close>

fun for_items :: "(bytes \<Rightarrow> bytes option) \<Rightarrow> (bytes \<Rightarrow> bytes \<Rightarrow> ('s, storage_error, unit) prog) \<Rightarrow> bytes list \<Rightarrow>
    ('s, storage_error, unit) prog" where
  "for_items read fn [] = ret ()"
| "for_items read fn (k # ks) =
     (case read k of
        None \<Rightarrow> fail ReadErr
      | Some v \<Rightarrow> prog_bind (fn k v) (\<lambda>_. for_items read fn ks))"

abbreviation keys_of :: "'db storage \<Rightarrow> bytes list" where
  "keys_of S \<equiv> eng_keys (st_engine S) (st_db S)"

abbreviation contents :: "'db storage \<Rightarrow> bytes \<Rightarrow> bytes option" where
  "contents S \<equiv> eng_get (st_engine S) (st_db S)"

definition ForeachData :: "(bytes \<Rightarrow> bytes \<Rightarrow> ('s, storage_error, unit) prog) \<Rightarrow> 'db storage \<Rightarrow>
    ('s, storage_error, unit) prog" where
  "ForeachData fn S = for_items (contents S) fn (keys_of S)"

definition Foreach :: "(string \<Rightarrow> bytes \<Rightarrow> ('s, storage_error, unit) prog) \<Rightarrow> 'db storage \<Rightarrow>
    ('s, storage_error, unit) prog" where
  "Foreach fn = ForeachData (\<lambda>k v. fn (str_of k) v)"

text \<open>The variants whose callback returns nothing panic when a value cannot be read.\<close>

definition panic_on_error :: "('s, storage_error, unit) prog \<Rightarrow> ('s, storage_error, unit) prog" where
  "panic_on_error m s = (case m s of (s1, Err e) \<Rightarrow> (s1, Panic) | r \<Rightarrow> r)"

definition For :: "(bytes \<Rightarrow> bytes \<Rightarrow> 's \<Rightarrow> 's) \<Rightarrow> 'db storage \<Rightarrow> ('s, storage_error, unit) prog" where
  "For fn S = panic_on_error (for_items (contents S) (\<lambda>k v s. (fn k v s, Ok ())) (keys_of S))"

fun for_index :: "int \<Rightarrow> int \<Rightarrow> (bytes \<Rightarrow> bytes option) \<Rightarrow> (int \<Rightarrow> bytes \<Rightarrow> bytes \<Rightarrow> 's \<Rightarrow> 's) \<Rightarrow> bytes list \<Rightarrow>
    ('s, storage_error, unit) prog" where
  "for_index start i read fn [] s = (s, Ok ())"
| "for_index start i read fn (k # ks) s =
     (if i < start then for_index start i read fn ks s
      else case read k of
        None \<Rightarrow> (s, Err ReadErr)
      | Some v \<Rightarrow> for_index start (i + 1) read fn ks (fn i k v s))"

definition ForIndex :: "(int \<Rightarrow> bytes \<Rightarrow> bytes \<Rightarrow> 's \<Rightarrow> 's) \<Rightarrow> 'db storage \<Rightarrow> ('s, storage_error, unit) prog" where
  "ForIndex fn S = panic_on_error (for_index 0 0 (contents S) fn (keys_of S))"

text \<open>\<^verbatim>\<open>ForIndexStar\<close> does not advance its counter for the items it skips.\<close>

definition ForIndexStar :: "int \<Rightarrow> (int \<Rightarrow> bytes \<Rightarrow> bytes \<Rightarrow> 's \<Rightarrow> 's) \<Rightarrow> 'db storage \<Rightarrow> ('s, storage_error, unit) prog" where
  "ForIndexStar start fn S = panic_on_error (for_index start 0 (contents S) fn (keys_of S))"

text \<open>\<^verbatim>\<open>Seek\<close> goes to the first key that is not below the prefix, \<^verbatim>\<open>ValidForPrefix\<close> ends the loop.\<close>

definition prefix_keys :: "bytes \<Rightarrow> bytes list \<Rightarrow> bytes list" where
  "prefix_keys p ks = takeWhile (prefix p) (dropWhile (\<lambda>k. k < p) ks)"

definition PrefixForeachData :: "bytes \<Rightarrow> (bytes \<Rightarrow> bytes \<Rightarrow> ('s, storage_error, unit) prog) \<Rightarrow> 'db storage \<Rightarrow>
    ('s, storage_error, unit) prog" where
  "PrefixForeachData p fn S = for_items (contents S) fn (prefix_keys p (keys_of S))"

definition PrefixForeach :: "string \<Rightarrow> (string \<Rightarrow> bytes \<Rightarrow> ('s, storage_error, unit) prog) \<Rightarrow> 'db storage \<Rightarrow>
    ('s, storage_error, unit) prog" where
  "PrefixForeach p fn = PrefixForeachData (bytes_of p) (\<lambda>k v. fn (str_of k) v)"

text \<open>
  An iterator: the keys still ahead, the item \<^verbatim>\<open>Next\<close> saw last, and how its transaction reads values.
  \<^verbatim>\<open>Val\<close> answers a value that cannot be read with nil.
\<close>

record iterator =
  it_rest :: "bytes list"
  it_current :: "bytes option"
  it_read :: "bytes \<Rightarrow> bytes option"

definition NewIterator :: "'db storage \<Rightarrow> iterator" where
  "NewIterator S = \<lparr>it_rest = keys_of S, it_current = None, it_read = contents S\<rparr>"

definition it_Next :: "iterator \<Rightarrow> bool \<times> iterator" where
  "it_Next it =
     (case it_rest it of [] \<Rightarrow> (False, it)
      | k # ks \<Rightarrow> (True, it\<lparr>it_rest := ks, it_current := Some k\<rparr>))"

definition it_Key :: "iterator \<Rightarrow> (unit, bytes) res" where
  "it_Key it = (case it_current it of None \<Rightarrow> Panic | Some k \<Rightarrow> Ok k)"

definition it_Val :: "iterator \<Rightarrow> (unit, bytes) res" where
  "it_Val it =
     (case it_current it of None \<Rightarrow> Panic
      | Some k \<Rightarrow> Ok (case it_read it k of None \<Rightarrow> [] | Some v \<Rightarrow> v))"

section \<open>The laws of a store\<close>

text \<open>
  What the node database relies on: reading, writing and deleting a key, and the list of keys. A
  failed write leaves the store as it is.
\<close>

locale kv_store =
  fixes ok :: "'s \<Rightarrow> bool" and get :: "bytes \<Rightarrow> 's \<Rightarrow> bytes option"
    and put :: "bytes \<Rightarrow> bytes \<Rightarrow> 's \<Rightarrow> 's" and del :: "bytes \<Rightarrow> 's \<Rightarrow> 's" and keys :: "'s \<Rightarrow> bytes list"
  assumes get_put: "ok s \<Longrightarrow> get k (put k' v s) = (if k = k' then Some v else get k s)"
    and get_del: "ok s \<Longrightarrow> get k (del k' s) = (if k = k' then None else get k s)"
    and put_ok: "ok s \<Longrightarrow> ok (put k' v s)"
    and del_ok: "ok s \<Longrightarrow> ok (del k' s)"
    and set_keys: "ok s \<Longrightarrow> k \<in> set (keys s) \<longleftrightarrow> get k s \<noteq> None"
    and keys_sorted: "ok s \<Longrightarrow> sorted (keys s) \<and> distinct (keys s)"
begin

lemma dels_ok: "ok s \<Longrightarrow> ok (fold del ks s)"
  by (induction ks arbitrary: s) (simp_all add: del_ok)

lemma get_dels: "ok s \<Longrightarrow> get k (fold del ks s) = (if k \<in> set ks then None else get k s)"
  by (induction ks arbitrary: s) (simp_all add: get_del del_ok)

text \<open>Deleting the keys of a set as they are listed leaves the other keys.\<close>

lemma get_del_filtered:
  "ok s \<Longrightarrow> get k (fold del (filter P (keys s)) s) = (if P k then None else get k s)"
  using set_keys [of s k] by (auto simp: get_dels)

end

definition store_ok :: "'db storage \<Rightarrow> bool" where
  "store_ok S \<longleftrightarrow> engine_laws (st_engine S) \<and> reliable (st_engine S)"

abbreviation put_data :: "bytes \<Rightarrow> bytes \<Rightarrow> 'db storage \<Rightarrow> 'db storage" where
  "put_data k v S \<equiv> fst (SetData k v S)"

abbreviation del_data :: "bytes \<Rightarrow> 'db storage \<Rightarrow> 'db storage" where
  "del_data k S \<equiv> fst (DelData k S)"

lemma SetData_reliable:
  assumes "store_ok S"
  obtains db where "SetData k v S = (S\<lparr>st_db := db\<rparr>, Ok ())" "eng_get (st_engine S) db = (contents S)(k \<mapsto> v)"
proof -
  obtain db where db: "eng_set (st_engine S) k v (st_db S) = Some db"
    using assms unfolding store_ok_def reliable_def by blast
  moreover have "eng_get (st_engine S) db = (contents S)(k \<mapsto> v)"
    using assms db unfolding store_ok_def engine_laws_def by blast
  ultimately show ?thesis using that by (simp add: SetData_def)
qed

lemma DelData_reliable:
  assumes "store_ok S"
  obtains db where "DelData k S = (S\<lparr>st_db := db\<rparr>, Ok ())" "eng_get (st_engine S) db = (contents S)(k := None)"
proof -
  obtain db where db: "eng_del (st_engine S) k (st_db S) = Some db"
    using assms unfolding store_ok_def reliable_def by blast
  moreover have "eng_get (st_engine S) db = (contents S)(k := None)"
    using assms db unfolding store_ok_def engine_laws_def by blast
  ultimately show ?thesis using that by (simp add: DelData_def)
qed

lemma store_writes:
  assumes "store_ok S"
  shows "SetData k v S = (put_data k v S, Ok ())" "DelData k S = (del_data k S, Ok ())"
  using SetData_reliable [OF assms, of k v] DelData_reliable [OF assms, of k] by (metis fst_conv)+

interpretation storage: kv_store store_ok GetData put_data del_data keys_of
proof
  fix S :: "'db storage" and k k' v :: bytes
  assume ok: "store_ok S"
  obtain db where put: "SetData k' v S = (S\<lparr>st_db := db\<rparr>, Ok ())" "eng_get (st_engine S) db = (contents S)(k' \<mapsto> v)"
    using SetData_reliable [OF ok] .
  obtain db' where del: "DelData k' S = (S\<lparr>st_db := db'\<rparr>, Ok ())" "eng_get (st_engine S) db' = (contents S)(k' := None)"
    using DelData_reliable [OF ok] .
  show "GetData k (put_data k' v S) = (if k = k' then Some v else GetData k S)"
    and "GetData k (del_data k' S) = (if k = k' then None else GetData k S)"
    by (simp_all add: put del GetData_def)
  show "store_ok (put_data k' v S)" "store_ok (del_data k' S)" using ok by (simp_all add: put del store_ok_def)
  show "k \<in> set (keys_of S) \<longleftrightarrow> GetData k S \<noteq> None" "sorted (keys_of S) \<and> distinct (keys_of S)"
    using ok by (auto simp: store_ok_def engine_laws_def GetData_def)
qed

section \<open>A prefix scan is a filter\<close>

lemma prefix_le: "prefix p k \<Longrightarrow> p \<le> (k :: bytes)"
proof (induction p arbitrary: k)
  case (Cons x p)
  then show ?case by (cases k) auto
qed simp

lemma prefix_gap: "p \<le> k \<Longrightarrow> k \<le> k' \<Longrightarrow> prefix p k' \<Longrightarrow> prefix p (k :: bytes)"
proof (induction p arbitrary: k k')
  case (Cons x p)
  then obtain y ys z zs where "k = y # ys" "k' = z # zs" by (cases k; cases k') auto
  with Cons show ?case by auto
qed simp

lemma prefix_keys_filter:
  assumes "sorted ks"
  shows "prefix_keys p ks = filter (prefix p) ks"
  using assms
proof (induction ks)
  case (Cons k ks)
  then have IH: "prefix_keys p ks = filter (prefix p) ks" by simp
  consider "k < p" | "p \<le> k" "prefix p k" | "p \<le> k" "\<not> prefix p k" by fastforce
  then show ?case
  proof cases
    case 1
    then have "\<not> prefix p k" using prefix_le [of p k] by auto
    with 1 IH show ?thesis by (simp add: prefix_keys_def)
  next
    case 2
    have "dropWhile (\<lambda>k. k < p) ks = ks"
      using Cons.prems 2(1) by (cases ks) (auto dest: order.trans)
    with 2 IH show ?thesis by (simp add: prefix_keys_def)
  next
    case 3
    have "\<not> prefix p k'" if "k' \<in> set ks" for k'
      using 3 prefix_gap [of p k k'] Cons.prems that by auto
    with 3 show ?thesis by (auto simp: prefix_keys_def filter_empty_conv)
  qed
qed (simp add: prefix_keys_def)

lemma for_items_read: "\<forall>k \<in> set ks. read k = read' k \<Longrightarrow> for_items read fn ks = for_items read' fn ks"
  by (induction ks) (auto split: option.split)

lemma PrefixForeachData_filter:
  "store_ok S \<Longrightarrow> PrefixForeachData p fn S = for_items (contents S) fn (filter (prefix p) (keys_of S))"
  using storage.keys_sorted [of S] by (simp add: PrefixForeachData_def prefix_keys_filter)

section \<open>An engine with these laws\<close>

text \<open>The store as a list of pairs, newest first: the laws can be met, and the examples below run on it.\<close>

definition list_engine :: "(bytes \<times> bytes) list engine" where
  "list_engine =
     \<lparr>eng_get = map_of, eng_set = (\<lambda>k v db. Some ((k, v) # db)),
      eng_del = (\<lambda>k db. Some (filter (\<lambda>(x, _). x \<noteq> k) db)),
      eng_keys = (\<lambda>db. sort (remdups (map fst db))),
      eng_flush = (\<lambda>ops db. Some (fold (\<lambda>(k, v) db. case v of Some x \<Rightarrow> (k, x) # db
         | None \<Rightarrow> filter (\<lambda>(x, _). x \<noteq> k) db) ops db)),
      eng_empty = []\<rparr>"

lemma map_of_filter_key: "map_of (filter (\<lambda>(x, _). x \<noteq> k) db) = (map_of db)(k := None)"
  by (induction db) auto

lemma map_of_flush:
  "map_of (fold (\<lambda>(k, v) db. case v of Some x \<Rightarrow> (k, x) # db | None \<Rightarrow> filter (\<lambda>(x, _). x \<noteq> k) db) ops db) =
   fold (\<lambda>(k, v) m. m(k := v)) ops (map_of db)"
  by (induction ops arbitrary: db) (auto simp: map_of_filter_key split: option.split)

lemma list_engine_ok: "engine_laws list_engine" "reliable list_engine"
  by (simp_all add: engine_laws_def reliable_def list_engine_def map_of_filter_key map_of_flush dom_map_of_conv_image_fst)

section \<open>Opening and index loops\<close>

lemma NewByVersion_no_version:
  assumes "engine_laws E" "reliable E" "fs_opens fs" "eng_get E db versionKey \<in> {None, Some []}"
  shows "\<exists>S. NewByVersion (Suc fuel) fs E version db = Some (Ok S) \<and> st_engine S = E \<and> st_version S = version \<and>
    contents S = (eng_get E db)(versionKey \<mapsto> put_uint32_le version)"
proof -
  let ?S = "\<lparr>st_engine = E, st_db = db, st_version = version\<rparr>"
  have "store_ok ?S" using assms by (simp add: store_ok_def)
  then obtain db' where "SetData versionKey (put_uint32_le version) ?S = (?S\<lparr>st_db := db'\<rparr>, Ok ())"
    "eng_get (st_engine ?S) db' = (contents ?S)(versionKey \<mapsto> put_uint32_le version)"
    by (rule SetData_reliable)
  then show ?thesis using assms(3,4) by (auto simp: GetData_def)
qed

text \<open>
  Opening a store by version ends with an opened store, within two rounds: the contents stay as they
  are when the recorded version is the requested one, the version is recorded when there is none, and
  with any other version everything is wiped and only the new version is recorded. Opening the result
  with the same version again changes nothing.
\<close>

theorem open_by_version:
  assumes "engine_laws E" "reliable E" "fs = \<lparr>fs_opens = True, fs_closes = True, fs_removes = True\<rparr>" "2 \<le> fuel"
  shows "\<exists>S. NewByVersion fuel fs E version db = Some (Ok S) \<and> GetVersion S = version \<and>
    contents S =
      (case eng_get E db versionKey of
         None \<Rightarrow> (eng_get E db)(versionKey \<mapsto> put_uint32_le version)
       | Some v \<Rightarrow>
           if v = [] then (eng_get E db)(versionKey \<mapsto> put_uint32_le version)
           else if v = put_uint32_le version then eng_get E db
           else [versionKey \<mapsto> put_uint32_le version]) \<and>
    NewByVersion fuel fs E version (st_db S) = Some (Ok S)"
proof -
  obtain f where fuel: "fuel = Suc (Suc f)" using assms(4) by (metis One_nat_def Suc_1 Suc_le_D le_SucE)
  have v: "put_uint32_le version \<noteq> []" by (simp add: put_uint32_le_def)
  have again: "NewByVersion fuel fs E version (st_db S) = Some (Ok S)"
    if "st_engine S = E" "st_version S = version" "contents S versionKey = Some (put_uint32_le version)" for S
    using that v assms(3) fuel by (auto simp: GetData_def intro: storage.equality)
  consider "eng_get E db versionKey \<in> {None, Some []}" | "eng_get E db versionKey = Some (put_uint32_le version)"
    | w where "eng_get E db versionKey = Some w" "w \<noteq> []" "w \<noteq> put_uint32_le version" by (cases "eng_get E db versionKey") auto
  then show ?thesis
  proof cases
    case 1
    from NewByVersion_no_version [OF assms(1,2) _ 1, of fs "Suc f" version] obtain S where
      S: "NewByVersion fuel fs E version db = Some (Ok S)" "st_engine S = E" "st_version S = version"
      "contents S = (eng_get E db)(versionKey \<mapsto> put_uint32_le version)" using assms(3) fuel by auto
    with 1 again [OF S(2,3)] show ?thesis by (intro exI [of _ S]) (auto simp: GetVersion_def)
  next
    case 2
    then show ?thesis using assms(3) fuel v by (auto simp: GetData_def GetVersion_def)
  next
    case 3
    have "eng_get E (eng_empty E) = Map.empty" using assms(1) by (simp add: engine_laws_def)
    then obtain S where S: "NewByVersion (Suc f) fs E version (eng_empty E) = Some (Ok S)" "st_engine S = E"
      "st_version S = version" "contents S = [versionKey \<mapsto> put_uint32_le version]"
      using NewByVersion_no_version [OF assms(1,2), of fs "eng_empty E" f version] assms(3) by auto
    have "NewByVersion fuel fs E version db = Some (Ok S)"
      using 3 S(1) assms(3) fuel by (simp add: GetData_def Let_def)
    with 3 S again [OF S(2,3)] show ?thesis by (intro exI [of _ S]) (simp add: GetVersion_def)
  qed
qed

theorem open_by_version_witness:
  "\<exists>S. NewByVersion 2 \<lparr>fs_opens = True, fs_closes = True, fs_removes = True\<rparr> list_engine 7
      [(versionKey, put_uint32_le 6), ([1], [2])] = Some (Ok S) \<and>
    contents S = [versionKey \<mapsto> put_uint32_le 7]"
proof -
  have "put_uint32_le 6 \<noteq> []" "put_uint32_le 6 \<noteq> put_uint32_le 7" by (simp_all add: put_uint32_le_def)
  then show ?thesis
    using open_by_version [OF list_engine_ok refl, of 2 7 "[(versionKey, put_uint32_le 6), ([1], [2])]"]
    by (auto simp: list_engine_def)
qed

lemma for_index_stuck: "i < start \<Longrightarrow> for_index start i read fn ks s = (s, Ok ())"
  by (induction ks) simp_all

text \<open>
  \<^verbatim>\<open>ForIndexStar\<close> with a positive start never calls its callback, however many items are stored: the
  counter it compares with the start is only advanced behind the comparison. With a start of zero or
  less it is \<^verbatim>\<open>ForIndex\<close>.
\<close>

theorem index_start_skips_all:
  "ForIndexStar start fn S s = (if 0 < start then (s, Ok ()) else ForIndex fn S s)"
proof (cases "0 < start")
  case True
  then show ?thesis by (simp add: ForIndexStar_def panic_on_error_def for_index_stuck)
next
  case False
  have "for_index start i read fn ks s = for_index 0 i read fn ks s" if "0 \<le> i" for i read ks s
    using that False by (induction ks arbitrary: i s) (auto split: option.split)
  then show ?thesis using False by (simp add: ForIndexStar_def ForIndex_def panic_on_error_def)
qed

text \<open>
  A committed batch leaves what the single writes and deletions in its order would leave.
\<close>

fun single :: "bytes \<times> bytes option \<Rightarrow> 'db storage \<Rightarrow> 'db storage" where
  "single (k, Some v) S = put_data k v S"
| "single (k, None) S = del_data k S"

lemma single_contents: "store_ok S \<Longrightarrow> contents (single (k, v) S) = (contents S)(k := v) \<and> store_ok (single (k, v) S)"
  using storage.get_put [of S] storage.get_del [of S] storage.put_ok [of S k] storage.del_ok [of S k]
  by (cases v) (auto simp: GetData_def)

lemma commit_is_sequence:
  assumes "store_ok S" "CommitWriteBatch b S = (S1, Ok ())"
  shows "contents S1 = contents (fold single b S)"
proof -
  have "contents S1 = fold (\<lambda>(k, v) m. m(k := v)) b (contents S)"
    using assms by (auto simp: CommitWriteBatch_def store_ok_def engine_laws_def split: option.splits)
  also have "\<dots> = contents (fold single b S)"
    using assms(1)
  proof (induction b arbitrary: S)
    case (Cons op b)
    obtain k v where op: "op = (k, v)" by (cases op)
    from single_contents [OF Cons.prems, of k v]
    have sc: "contents (single (k, v) S) = (contents S)(k := v)" "store_ok (single (k, v) S)" by blast+
    show ?case using Cons.IH [OF sc(2)] unfolding op sc(1) by simp
  qed simp
  finally show ?thesis .
qed

end
