(* ===== verification/Go_Varint.thy ===== *)
theory Go_Varint
  imports Prelude
begin

text \<open>
  The variable-length integers of package encoding/binary, with which the node database stores its
  counters and times. The 64-bit values are read as numbers: no step of either direction leaves the
  range of 64 bits.
\<close>

fun PutUvarint :: "nat \<Rightarrow> bytes" where
  "PutUvarint x = (if x < 128 then [of_nat x] else of_nat (x mod 128 + 128) # PutUvarint (x div 128))"

declare PutUvarint.simps [simp del]

text \<open>The value and the number of bytes read; zero bytes for a truncated input, negative for an overflow.\<close>

fun Uvarint :: "nat \<Rightarrow> nat \<Rightarrow> bytes \<Rightarrow> nat \<times> int" where
  "Uvarint i x [] = (0, 0)"
| "Uvarint i x (b # bs) =
     (if i = 10 then (0, - (int i + 1))
      else if b < 0x80 then
        (if i = 9 \<and> b > 1 then (0, - (int i + 1)) else (x + unat b * 128 ^ i, int i + 1))
      else Uvarint (Suc i) (x + unat (b AND 0x7F) * 128 ^ i) bs)"

definition PutVarint :: "int \<Rightarrow> bytes" where
  "PutVarint x = PutUvarint (if x < 0 then nat (- 2 * x - 1) else nat (2 * x))"

definition Varint :: "bytes \<Rightarrow> int \<times> int" where
  "Varint buf =
     (let (ux, n) = Uvarint 0 0 buf;
          x = int (ux div 2)
      in (if odd ux then - x - 1 else x, n))"

lemma low_bits: "x < 128 \<Longrightarrow> unat ((of_nat (x + 128) :: byte) AND 0x7F) = x"
proof -
  assume x: "x < 128"
  have "(of_nat (x + 128) :: byte) AND 0x7F = take_bit 7 (of_nat (x + 128))"
    using take_bit_eq_mask [of 7 "of_nat (x + 128) :: byte"] by (simp add: mask_eq_exp_minus_1)
  then have "unat ((of_nat (x + 128) :: byte) AND 0x7F) = take_bit 7 (unat (of_nat (x + 128) :: byte))"
    by (simp only: unsigned_take_bit_eq)
  also have "\<dots> = x" using x unfolding unat_of_nat by (simp add: take_bit_eq_mod)
  finally show ?thesis .
qed

lemma byte_small: "x < 256 \<Longrightarrow> unat (of_nat x :: byte) = x"
  by (simp add: unat_of_nat)

lemma Uvarint_PutUvarint:
  "i \<le> 9 \<Longrightarrow> y * 128 ^ i < 2 ^ 64 \<Longrightarrow>
   Uvarint i x (PutUvarint y @ rest) = (x + y * 128 ^ i, int i + int (length (PutUvarint y)))"
proof (induction y arbitrary: i x rule: PutUvarint.induct)
  case (1 y)
  show ?case
  proof (cases "y < 128")
    case True
    then have u: "unat (of_nat y :: byte) = y" by (intro byte_small) simp
    have "(of_nat y :: byte) < 0x80" using True unfolding word_less_nat_alt u by simp
    moreover have "\<not> (i = 9 \<and> (of_nat y :: byte) > 1)"
    proof
      assume "i = 9 \<and> (of_nat y :: byte) > 1"
      then have "i = 9" "1 < y" unfolding word_less_nat_alt u by simp_all
      then show False using 1(3) by simp
    qed
    ultimately show ?thesis using True 1(2) u by (simp add: PutUvarint.simps [of y])
  next
    case False
    let ?b = "of_nat (y mod 128 + 128) :: byte"
    have "unat ?b = y mod 128 + 128" by (rule byte_small) (simp add: less_imp_le_nat)
    then have "\<not> ?b < 0x80" unfolding word_less_nat_alt by simp
    moreover have i: "i < 9"
    proof (rule ccontr)
      assume "\<not> i < 9"
      then have "i = 9" using 1(2) by simp
      then show False using 1(3) False by simp
    qed
    moreover have "y div 128 * 128 ^ Suc i < 2 ^ 64"
      using 1(3) by (rule order.strict_trans1 [rotated]) simp
    ultimately have "Uvarint i x (PutUvarint y @ rest) =
        (x + y mod 128 * 128 ^ i + y div 128 * 128 ^ Suc i, int (Suc i) + int (length (PutUvarint (y div 128))))"
      using 1(1) [OF False, of "Suc i"] False low_bits [of "y mod 128"]
      by (simp add: PutUvarint.simps [of y] del: of_nat_add)
    also have "y mod 128 * 128 ^ i + y div 128 * 128 ^ Suc i = (y div 128 * 128 + y mod 128) * 128 ^ i"
      by (simp only: power_Suc distrib_right mult.assoc add.commute)
    then have "x + y mod 128 * 128 ^ i + y div 128 * 128 ^ Suc i = x + y * 128 ^ i"
      by (simp only: div_mult_mod_eq add.assoc)
    finally show ?thesis using False by (simp add: PutUvarint.simps [of y])
  qed
qed

lemma PutUvarint_nonempty: "PutUvarint y \<noteq> []"
  by (subst PutUvarint.simps) simp

lemma length_PutUvarint: "y < 128 ^ k \<Longrightarrow> 0 < k \<Longrightarrow> length (PutUvarint y) \<le> k"
proof (induction k arbitrary: y)
  case (Suc k)
  show ?case
  proof (cases "y < 128")
    case True
    then show ?thesis by (simp add: PutUvarint.simps)
  next
    case False
    then have "y div 128 < 128 ^ k" "0 < k"
      using Suc.prems by (auto simp: less_mult_imp_div_less mult.commute intro: gr0I)
    from Suc.IH [OF this] False show ?thesis by (simp add: PutUvarint.simps [of y])
  qed
qed simp

text \<open>A signed 64-bit integer is read back, and fits a buffer of \<^verbatim>\<open>MaxVarintLen64\<close> bytes.\<close>

lemma Varint_PutVarint:
  assumes "- (2 ^ 63) \<le> x" "x < 2 ^ 63"
  shows "Varint (PutVarint x) = (x, int (length (PutVarint x)))" "0 < length (PutVarint x)" "length (PutVarint x) \<le> 10"
proof -
  let ?u = "if x < 0 then nat (- 2 * x - 1) else nat (2 * x)"
  have u: "?u < 2 ^ 64" using assms by (simp add: nat_less_iff)
  have "Uvarint 0 0 (PutVarint x) = (?u, int (length (PutVarint x)))"
    using Uvarint_PutUvarint [of 0 ?u 0 "[]"] u unfolding PutVarint_def by simp
  moreover have "(if odd ?u then - int (?u div 2) - 1 else int (?u div 2)) = x"
  proof (cases "x < 0")
    case True
    define k where "k = nat (- x - 1)"
    have k: "x = - int k - 1" using True by (simp add: k_def)
    have "nat (- 2 * x - 1) = Suc (2 * k)" unfolding k by simp
    then show ?thesis using True k by simp
  next
    case False
    then have "nat (2 * x) = 2 * nat x" by (simp add: nat_mult_distrib)
    then show ?thesis using False by simp
  qed
  ultimately show "Varint (PutVarint x) = (x, int (length (PutVarint x)))" by (simp add: Varint_def)
  show "0 < length (PutVarint x)" by (simp add: PutVarint_def PutUvarint_nonempty)
  have "?u < 128 ^ 10" using u by (rule order.strict_trans2) simp
  then show "length (PutVarint x) \<le> 10" unfolding PutVarint_def by (rule length_PutUvarint) simp
qed

end
