(* ===== verification/NodeDB.thy ===== *)
theory NodeDB
  imports Packet Storage Go_Varint
begin

text \<open>
  discover/nodedb.go: what the node remembers about other nodes between runs. Every fact about a
  node has a key of its own, made of a prefix, the identifier and a field name: the node itself in its
  JSON form, the times of the last ping and pong, and the count of failed queries.
\<close>

definition nodeDBNilNodeID :: nodeid where "nodeDBNilNodeID = id_of []"
definition nodeDBNodeExpiration :: time where "nodeDBNodeExpiration = 24 * 3600 * second"
definition nodeDBCleanupCycle :: time where "nodeDBCleanupCycle = 3600 * second"
definition nodeDBItemPrefix :: bytes where "nodeDBItemPrefix = bytes_of ''n:''"
definition nodeDBDiscoverRoot :: string where "nodeDBDiscoverRoot = '':discover''"
definition nodeDBDiscoverPing :: string where "nodeDBDiscoverPing = nodeDBDiscoverRoot @ '':lastping''"
definition nodeDBDiscoverPong :: string where "nodeDBDiscoverPong = nodeDBDiscoverRoot @ '':lastpong''"
definition nodeDBDiscoverFindFails :: string where "nodeDBDiscoverFindFails = nodeDBDiscoverRoot @ '':findfail''"

record 'db nodeDB =
  ndb_storage :: "'db storage"
  ndb_version :: uint32
  ndb_self :: nodeid
  ndb_quit :: bool
  ndb_runner :: bool
  ndb_seeder :: "iterator option"

text \<open>\<^verbatim>\<open>ndb_quit\<close> tells whether the channel \<^verbatim>\<open>quit\<close> is closed, \<^verbatim>\<open>ndb_runner\<close> whether the expiring goroutine was started.\<close>

datatype db_error = StorageErr storage_error | MarshalErr

definition newNodeDB :: "nat \<Rightarrow> files \<Rightarrow> 'db engine \<Rightarrow> uint32 \<Rightarrow> nodeid \<Rightarrow> 'db \<Rightarrow> (storage_error, 'db nodeDB) res option" where
  "newNodeDB fuel fs E version self db =
     map_option (\<lambda>r. res_bind r (\<lambda>S. Ok \<lparr>ndb_storage = S, ndb_version = version, ndb_self = self, ndb_quit = False,
         ndb_runner = False, ndb_seeder = None\<rparr>))
       (NewByVersion fuel fs E version db)"

text \<open>\<^verbatim>\<open>close\<close>: \<^verbatim>\<open>closes\<close> is whether the engine closes without an error; a second call closes \<^verbatim>\<open>quit\<close> twice.\<close>

definition db_close :: "bool \<Rightarrow> ('db nodeDB, db_error, unit) prog" where
  "db_close closes db =
     (if \<not> closes \<or> ndb_quit db then (db, Panic) else (db\<lparr>ndb_quit := True\<rparr>, Ok ()))"

section \<open>Keys\<close>

definition makeKey :: "nodeid \<Rightarrow> string \<Rightarrow> bytes" where
  "makeKey i fld =
     (if id_bytes i = id_bytes nodeDBNilNodeID then bytes_of fld
      else nodeDBItemPrefix @ id_bytes i @ bytes_of fld)"

text \<open>The slice expression panics on a key with the prefix but less than a whole identifier.\<close>

definition splitKey :: "bytes \<Rightarrow> (unit, nodeid \<times> string) res" where
  "splitKey key =
     (if take 2 key \<noteq> nodeDBItemPrefix then Ok (id_of [], str_of key)
      else
        let item = drop 2 key in
        if length item < 64 then Panic
        else Ok (id_of (take 64 item), str_of (drop 64 item)))"

section \<open>Nodes\<close>

definition json_node :: "node \<Rightarrow> bytes option" where
  "json_node n =
     map_option (\<lambda>ip. json_object [json_field ''IP'' ip, json_field ''TCP'' (json_uint16 (node_TCP n)),
         json_field ''UDP'' (json_uint16 (node_UDP n)), json_field ''ID'' (json_id (node_ID n)),
         json_field ''Hash'' (Hash_MarshalJSON (node_Hash n))])
       (json_ip (node_IP n))"

definition dec_hash :: "hash decoder" where
  "dec_hash raw v h = res_bind (Hash_UnmarshalJSON h raw) (\<lambda>h'. Ok (h', True))"

definition dec_node :: "node decoder" where
  "dec_node = dec_struct
     [(''IP'', dec_part node_IP (\<lambda>ip n. n\<lparr>node_IP := ip\<rparr>) dec_ip),
      (''TCP'', dec_part node_TCP (\<lambda>p n. n\<lparr>node_TCP := p\<rparr>) dec_uint),
      (''UDP'', dec_part node_UDP (\<lambda>p n. n\<lparr>node_UDP := p\<rparr>) dec_uint),
      (''ID'', dec_part node_ID (\<lambda>i n. n\<lparr>node_ID := i\<rparr>) dec_id),
      (''Hash'', dec_part node_Hash (\<lambda>h n. n\<lparr>node_Hash := h\<rparr>) dec_hash)]"

definition zero_node :: node where
  "zero_node = \<lparr>node_IP = [], node_TCP = 0, node_UDP = 0, node_ID = id_of [], node_Hash = hash_of []\<rparr>"

text \<open>\<^verbatim>\<open>node\<close>: \<^verbatim>\<open>Ok None\<close> is a nil result.\<close>

definition db_node :: "nodeid \<Rightarrow> 'db nodeDB \<Rightarrow> (db_error, node option) res" where
  "db_node i db =
     (case GetData (makeKey i nodeDBDiscoverRoot) (ndb_storage db) of
        None \<Rightarrow> Ok None
      | Some blob \<Rightarrow>
          (case rawencode_Decode None dec_node blob zero_node of
             Err _ \<Rightarrow> Ok None
           | Panic \<Rightarrow> Panic
           | Ok n \<Rightarrow> Ok (Some (n\<lparr>node_Hash := ByteHash256 (id_bytes (node_ID n))\<rparr>))))"

definition on_storage :: "('db storage, storage_error, 'a) prog \<Rightarrow> ('db nodeDB, db_error, 'a) prog" where
  "on_storage m db =
     (case m (ndb_storage db) of
        (S, Ok x) \<Rightarrow> (db\<lparr>ndb_storage := S\<rparr>, Ok x)
      | (S, Err e) \<Rightarrow> (db\<lparr>ndb_storage := S\<rparr>, Err (StorageErr e))
      | (S, Panic) \<Rightarrow> (db\<lparr>ndb_storage := S\<rparr>, Panic))"

definition updateNode :: "node \<Rightarrow> ('db nodeDB, db_error, unit) prog" where
  "updateNode n =
     (case rawencode_Encode None json_node n of None \<Rightarrow> fail MarshalErr
      | Some blob \<Rightarrow> on_storage (SetData (makeKey (node_ID n) nodeDBDiscoverRoot) blob))"

text \<open>The loop of \<^verbatim>\<open>deleteNode\<close> over its iterator; a failed deletion is skipped.\<close>

function delete_loop :: "nodeid \<Rightarrow> iterator \<Rightarrow> ('db nodeDB, db_error, unit) prog" where
  "delete_loop i it db =
     (case it_Next it of
        (False, _) \<Rightarrow> (db, Ok ())
      | (True, it') \<Rightarrow>
          (case it_Key it' of
             Ok k \<Rightarrow>
               if take 2 k \<noteq> nodeDBItemPrefix then delete_loop i it' db
               else
                 (case splitKey k of
                    Ok (nid, _) \<Rightarrow>
                      if id_bytes nid \<noteq> id_bytes i then delete_loop i it' db
                      else
                        (case on_storage (DelData k) db of
                           (db', Panic) \<Rightarrow> (db', Panic)
                         | (db', _) \<Rightarrow> delete_loop i it' db')
                  | _ \<Rightarrow> (db, Panic))
           | _ \<Rightarrow> (db, Panic)))"
  by pat_completeness auto
termination
  by (relation "measure (\<lambda>(_, it, _). length (it_rest it))") (auto simp: it_Next_def split: list.splits)

declare delete_loop.simps [simp del]

definition deleteNode :: "nodeid \<Rightarrow> ('db nodeDB, db_error, unit) prog" where
  "deleteNode i db = delete_loop i (NewIterator (ndb_storage db)) db"

section \<open>Counters and times\<close>

definition fetchInt64 :: "bytes \<Rightarrow> 'db nodeDB \<Rightarrow> int" where
  "fetchInt64 key db =
     (case GetData key (ndb_storage db) of None \<Rightarrow> 0
      | Some blob \<Rightarrow> let (val, rd) = Varint blob in if rd \<le> 0 then 0 else val)"

definition storeInt64 :: "bytes \<Rightarrow> int \<Rightarrow> ('db nodeDB, db_error, unit) prog" where
  "storeInt64 key n = on_storage (SetData key (PutVarint n))"

definition findFails :: "nodeid \<Rightarrow> 'db nodeDB \<Rightarrow> int" where
  "findFails i = fetchInt64 (makeKey i nodeDBDiscoverFindFails)"

definition updateFindFails :: "nodeid \<Rightarrow> int \<Rightarrow> ('db nodeDB, db_error, unit) prog" where
  "updateFindFails i fails = storeInt64 (makeKey i nodeDBDiscoverFindFails) fails"

definition lastPing :: "nodeid \<Rightarrow> 'db nodeDB \<Rightarrow> time" where
  "lastPing i db = unix_time (of_int (fetchInt64 (makeKey i nodeDBDiscoverPing) db))"

definition updateLastPing :: "nodeid \<Rightarrow> time \<Rightarrow> ('db nodeDB, db_error, unit) prog" where
  "updateLastPing i inst = storeInt64 (makeKey i nodeDBDiscoverPing) (inst div second)"

definition lastPong :: "nodeid \<Rightarrow> 'db nodeDB \<Rightarrow> time" where
  "lastPong i db = unix_time (of_int (fetchInt64 (makeKey i nodeDBDiscoverPong) db))"

definition updateLastPong :: "nodeid \<Rightarrow> time \<Rightarrow> ('db nodeDB, db_error, unit) prog" where
  "updateLastPong i inst = storeInt64 (makeKey i nodeDBDiscoverPong) (inst div second)"

section \<open>Expiring\<close>

text \<open>
  The callback of \<^verbatim>\<open>expireNodes\<close>. It never returns an error; the iteration runs over the snapshot of
  \<^verbatim>\<open>ForeachData\<close> while \<^verbatim>\<open>lastPong\<close> and \<^verbatim>\<open>deleteNode\<close> work on the current contents.
\<close>

definition expire_item :: "time \<Rightarrow> bytes \<Rightarrow> bytes \<Rightarrow> ('db nodeDB, storage_error, unit) prog" where
  "expire_item threshold k v db =
     (case splitKey k of
        Ok (i, fld) \<Rightarrow>
          if fld \<noteq> nodeDBDiscoverRoot then (db, Ok ())
          else if id_bytes i \<noteq> id_bytes (ndb_self db) \<and> lastPong i db > threshold then (db, Ok ())
          else (case deleteNode i db of (db', Panic) \<Rightarrow> (db', Panic) | (db', _) \<Rightarrow> (db', Ok ()))
      | _ \<Rightarrow> (db, Panic))"

definition expireNodes :: "time \<Rightarrow> ('db nodeDB, storage_error, unit) prog" where
  "expireNodes now db =
     (let threshold = now - nodeDBNodeExpiration in
      ForeachData (expire_item threshold) (ndb_storage db) db)"

definition ensureExpire :: "'db nodeDB \<Rightarrow> 'db nodeDB" where
  "ensureExpire db = db\<lparr>ndb_runner := True\<rparr>"

text \<open>One turn of the expiring goroutine: a tick, or the end when \<^verbatim>\<open>quit\<close> is closed.\<close>

datatype expire_event = Tick time | Quit

fun expire :: "expire_event list \<Rightarrow> ('db nodeDB, storage_error, unit) prog" where
  "expire [] db = (db, Ok ())"
| "expire (Quit # es) db = (db, Ok ())"
| "expire (Tick now # es) db =
     (case expireNodes now db of (db', Panic) \<Rightarrow> (db', Panic) | (db', _) \<Rightarrow> expire es db')"

section \<open>Seeds\<close>

function seeds_loop :: "nat \<Rightarrow> iterator \<Rightarrow> node list \<Rightarrow> 'db nodeDB \<Rightarrow> 'db nodeDB \<times> iterator \<times> (db_error, node list) res" where
  "seeds_loop n it nodes db =
     (if \<not> length nodes < n then (db, it, Ok nodes)
      else case it_Next it of
        (False, it') \<Rightarrow> (db, it', Ok nodes)
      | (True, it') \<Rightarrow>
          (case it_Key it' of
             Ok k \<Rightarrow>
               (case splitKey k of
                  Ok (i, fld) \<Rightarrow>
                    if fld \<noteq> nodeDBDiscoverRoot then seeds_loop n it' nodes db
                    else if id_bytes i = id_bytes (ndb_self db) then
                      (case deleteNode i db of
                         (db', Panic) \<Rightarrow> (db', it', Panic)
                       | (db', _) \<Rightarrow> seeds_loop n it' nodes db')
                    else
                      (case db_node i db of
                         Ok (Some nd) \<Rightarrow> seeds_loop n it' (nodes @ [nd]) db
                       | Ok None \<Rightarrow> seeds_loop n it' nodes db
                       | Err e \<Rightarrow> (db, it', Err e)
                       | Panic \<Rightarrow> (db, it', Panic))
                | _ \<Rightarrow> (db, it', Panic))
           | _ \<Rightarrow> (db, it', Panic)))"
  by pat_completeness auto
termination
  by (relation "measure (\<lambda>(_, it, _, _). length (it_rest it))") (auto simp: it_Next_def split: list.splits)

declare seeds_loop.simps [simp del]

definition querySeeds :: "nat \<Rightarrow> ('db nodeDB, db_error, node list) prog" where
  "querySeeds n db =
     (let it0 = (case ndb_seeder db of None \<Rightarrow> NewIterator (ndb_storage db) | Some it \<Rightarrow> it) in
      case seeds_loop n it0 [] db of
        (db', it, Ok nodes) \<Rightarrow>
          (db'\<lparr>ndb_seeder := (if nodes = [] then None else Some it)\<rparr>, Ok nodes)
      | (db', it, r) \<Rightarrow> (db'\<lparr>ndb_seeder := Some it\<rparr>, r))"

section \<open>The algebra of keys\<close>

lemma id_bytes_eq [simp]: "id_bytes i = id_bytes j \<longleftrightarrow> i = j"
  by (simp add: id_bytes_inject)

lemma nodeDBItemPrefix_bytes: "nodeDBItemPrefix = [110, 58]"
  by (simp add: nodeDBItemPrefix_def bytes_of_def)

text \<open>The keys that belong to a node.\<close>

definition owned :: "nodeid \<Rightarrow> bytes \<Rightarrow> bool" where
  "owned i k \<longleftrightarrow> take 2 k = nodeDBItemPrefix \<and> 66 \<le> length k \<and> take 64 (drop 2 k) = id_bytes i"

definition key_wf :: "bytes \<Rightarrow> bool" where
  "key_wf k \<longleftrightarrow> (take 2 k = nodeDBItemPrefix \<longrightarrow> (\<exists>i. i \<noteq> nodeDBNilNodeID \<and> owned i k))"

definition plain_field :: "string \<Rightarrow> bool" where
  "plain_field f \<longleftrightarrow> take 1 f = '':''"

lemma fields_plain [simp]:
  "plain_field nodeDBDiscoverRoot" "plain_field nodeDBDiscoverPing" "plain_field nodeDBDiscoverPong"
  "plain_field nodeDBDiscoverFindFails"
  by (simp_all add: plain_field_def nodeDBDiscoverRoot_def nodeDBDiscoverPing_def nodeDBDiscoverPong_def
      nodeDBDiscoverFindFails_def)

lemma fields_distinct [simp]:
  "nodeDBDiscoverPing \<noteq> nodeDBDiscoverRoot" "nodeDBDiscoverPong \<noteq> nodeDBDiscoverRoot"
  "nodeDBDiscoverFindFails \<noteq> nodeDBDiscoverRoot" "nodeDBDiscoverPing \<noteq> nodeDBDiscoverPong"
  "nodeDBDiscoverPing \<noteq> nodeDBDiscoverFindFails" "nodeDBDiscoverPong \<noteq> nodeDBDiscoverFindFails"
  by (simp_all add: nodeDBDiscoverRoot_def nodeDBDiscoverPing_def nodeDBDiscoverPong_def nodeDBDiscoverFindFails_def)

lemmas fields_distinct_sym [simp] = fields_distinct [symmetric]

lemma plain_field_no_prefix: "plain_field f \<Longrightarrow> take 2 (bytes_of f) \<noteq> nodeDBItemPrefix"
  by (cases f) (auto simp: plain_field_def nodeDBItemPrefix_bytes bytes_of_def)

lemma take_makeKey: "i \<noteq> nodeDBNilNodeID \<Longrightarrow> take 2 (makeKey i f) = nodeDBItemPrefix"
  by (simp add: makeKey_def nodeDBItemPrefix_bytes)

lemma owned_makeKey: "i \<noteq> nodeDBNilNodeID \<Longrightarrow> owned j (makeKey i f) \<longleftrightarrow> j = i"
  by (auto simp: owned_def makeKey_def nodeDBItemPrefix_bytes)

lemma not_owned_nil: "plain_field f \<Longrightarrow> \<not> owned j (makeKey nodeDBNilNodeID f)"
  using plain_field_no_prefix [of f] by (simp add: owned_def makeKey_def)

lemma owned_unique: "owned i k \<Longrightarrow> owned j k \<Longrightarrow> i = j"
  by (simp add: owned_def)

lemma owned_eq: "owned i k \<Longrightarrow> k = nodeDBItemPrefix @ id_bytes i @ drop 66 k"
proof -
  assume o: "owned i k"
  have "k = take 2 k @ take 64 (drop 2 k) @ drop 64 (drop 2 k)" by (simp only: append_take_drop_id)
  also have "drop 64 (drop 2 k) = drop 66 k" by simp
  finally show ?thesis using o by (simp add: owned_def)
qed

lemma key_wf_makeKey: "plain_field f \<Longrightarrow> key_wf (makeKey i f)"
  using plain_field_no_prefix [of f] owned_makeKey [of i i f]
  by (cases "i = nodeDBNilNodeID") (auto simp: key_wf_def makeKey_def)

lemma makeKey_eq:
  assumes "plain_field f" "plain_field g"
  shows "makeKey i f = makeKey j g \<longleftrightarrow> i = j \<and> f = g"
proof (cases "i = nodeDBNilNodeID \<longleftrightarrow> j = nodeDBNilNodeID")
  case True
  then show ?thesis by (auto simp: makeKey_def)
next
  case False
  have nil: "take 2 (makeKey nodeDBNilNodeID h) \<noteq> nodeDBItemPrefix" if "plain_field h" for h
    using plain_field_no_prefix [OF that] by (simp add: makeKey_def)
  from False have "makeKey i f \<noteq> makeKey j g"
    using nil [OF assms(1)] nil [OF assms(2)] take_makeKey [of i f] take_makeKey [of j g] by metis
  with False show ?thesis by auto
qed

lemma splitKey_owned: "owned i k \<Longrightarrow> splitKey k = Ok (i, str_of (drop 66 k))"
proof -
  assume "owned i k"
  then have k: "take 2 k = nodeDBItemPrefix" "66 \<le> length k" "take 64 (drop 2 k) = id_bytes i" by (simp_all add: owned_def)
  then have "\<not> length (drop 2 k) < 64" by simp
  with k show ?thesis by (simp add: splitKey_def Let_def)
qed

lemma splitKey_plain: "take 2 k \<noteq> nodeDBItemPrefix \<Longrightarrow> splitKey k = Ok (nodeDBNilNodeID, str_of k)"
  by (simp add: splitKey_def nodeDBNilNodeID_def)

lemma splitKey_makeKey:
  assumes "plain_field f"
  shows "splitKey (makeKey i f) = Ok (i, f)"
proof (cases "i = nodeDBNilNodeID")
  case True
  then show ?thesis using splitKey_plain [OF plain_field_no_prefix [OF assms]] by (simp add: makeKey_def)
next
  case False
  then have "owned i (makeKey i f)" by (simp add: owned_makeKey)
  moreover have "drop 66 (makeKey i f) = bytes_of f" using False by (simp add: makeKey_def nodeDBItemPrefix_bytes)
  ultimately show ?thesis by (simp add: splitKey_owned)
qed

lemma owned_root_key:
  "owned i k \<Longrightarrow> i \<noteq> nodeDBNilNodeID \<Longrightarrow> str_of (drop 66 k) = nodeDBDiscoverRoot \<longleftrightarrow> k = makeKey i nodeDBDiscoverRoot"
proof -
  assume o: "owned i k" and i: "i \<noteq> nodeDBNilNodeID"
  have "str_of (drop 66 k) = nodeDBDiscoverRoot \<longleftrightarrow> drop 66 k = bytes_of nodeDBDiscoverRoot"
    by (metis bytes_of_str_of str_of_bytes_of)
  also have "\<dots> \<longleftrightarrow> k = makeKey i nodeDBDiscoverRoot"
    using owned_eq [OF o] i by (auto simp: makeKey_def nodeDBItemPrefix_bytes)
  finally show ?thesis .
qed

section \<open>Well-formed databases\<close>

definition db_ok :: "'db nodeDB \<Rightarrow> bool" where
  "db_ok db \<longleftrightarrow> store_ok (ndb_storage db) \<and> (\<forall>k. GetData k (ndb_storage db) \<noteq> None \<longrightarrow> key_wf k)"

abbreviation got :: "bytes \<Rightarrow> 'db nodeDB \<Rightarrow> bytes option" where
  "got k db \<equiv> GetData k (ndb_storage db)"

lemma on_storage_Ok: "m (ndb_storage db) = (S, Ok x) \<Longrightarrow> on_storage m db = (db\<lparr>ndb_storage := S\<rparr>, Ok x)"
  by (simp add: on_storage_def)

lemma on_storage_Set:
  assumes "db_ok db" "key_wf k"
  shows "on_storage (SetData k v) db = (db\<lparr>ndb_storage := put_data k v (ndb_storage db)\<rparr>, Ok ())"
    and "db_ok (db\<lparr>ndb_storage := put_data k v (ndb_storage db)\<rparr>)"
    and "GetData k' (put_data k v (ndb_storage db)) = (if k' = k then Some v else got k' db)"
proof -
  have ok: "store_ok (ndb_storage db)" using assms(1) by (simp add: db_ok_def)
  show "on_storage (SetData k v) db = (db\<lparr>ndb_storage := put_data k v (ndb_storage db)\<rparr>, Ok ())"
    by (rule on_storage_Ok) (rule store_writes(1) [OF ok])
  show g: "GetData k' (put_data k v (ndb_storage db)) = (if k' = k then Some v else got k' db)" for k'
    by (rule storage.get_put [OF ok])
  show "db_ok (db\<lparr>ndb_storage := put_data k v (ndb_storage db)\<rparr>)"
    using assms storage.put_ok [OF ok] by (simp add: db_ok_def g)
qed

lemma on_storage_Del:
  assumes "db_ok db"
  shows "on_storage (DelData k) db = (db\<lparr>ndb_storage := del_data k (ndb_storage db)\<rparr>, Ok ())"
    and "db_ok (db\<lparr>ndb_storage := del_data k (ndb_storage db)\<rparr>)"
proof -
  have ok: "store_ok (ndb_storage db)" using assms(1) by (simp add: db_ok_def)
  show "on_storage (DelData k) db = (db\<lparr>ndb_storage := del_data k (ndb_storage db)\<rparr>, Ok ())"
    by (rule on_storage_Ok) (rule store_writes(2) [OF ok])
  show "db_ok (db\<lparr>ndb_storage := del_data k (ndb_storage db)\<rparr>)"
    using assms storage.del_ok [OF ok] by (simp add: db_ok_def storage.get_del [OF ok])
qed

text \<open>The loop of \<^verbatim>\<open>deleteNode\<close> deletes the owned ones among the keys ahead of its iterator.\<close>

lemma delete_loop_eq:
  assumes "db_ok db" "\<forall>k \<in> set ks. key_wf k"
  shows "delete_loop i \<lparr>it_rest = ks, it_current = c, it_read = rd\<rparr> db =
    (db\<lparr>ndb_storage := fold del_data (filter (owned i) ks) (ndb_storage db)\<rparr>, Ok ())"
  using assms
proof (induction ks arbitrary: db c)
  case Nil
  then show ?case by (subst delete_loop.simps) (simp add: it_Next_def)
next
  case (Cons k ks)
  let ?it = "\<lparr>it_rest = ks, it_current = Some k, it_read = rd\<rparr>"
  have nxt: "it_Next \<lparr>it_rest = k # ks, it_current = c, it_read = rd\<rparr> = (True, ?it)" "it_Key ?it = Ok k"
    by (simp_all add: it_Next_def it_Key_def)
  note step = delete_loop.simps [of i "\<lparr>it_rest = k # ks, it_current = c, it_read = rd\<rparr>" db, unfolded nxt]
  have wf: "\<forall>k \<in> set ks. key_wf k" using Cons.prems by simp
  show ?case
  proof (cases "take 2 k = nodeDBItemPrefix")
    case False
    then have "\<not> owned i k" by (simp add: owned_def)
    with False Cons.IH [OF Cons.prems(1) wf] show ?thesis unfolding step by (simp add: it_Key_def)
  next
    case True
    then obtain j where j: "owned j k" using Cons.prems(2) by (auto simp: key_wf_def)
    show ?thesis
    proof (cases "j = i")
      case True
      then show ?thesis
        using j \<open>take 2 k = nodeDBItemPrefix\<close> Cons.IH [OF on_storage_Del(2) [OF Cons.prems(1), of k] wf]
        unfolding step by (simp add: it_Key_def splitKey_owned [OF j] on_storage_Del(1) [OF Cons.prems(1)])
    next
      case False
      then have "\<not> owned i k" using j owned_unique by blast
      then show ?thesis
        using False \<open>take 2 k = nodeDBItemPrefix\<close> Cons.IH [OF Cons.prems(1) wf]
        unfolding step by (simp add: it_Key_def splitKey_owned [OF j])
    qed
  qed
qed

lemma db_ok_keys: "db_ok db \<Longrightarrow> \<forall>k \<in> set (keys_of (ndb_storage db)). key_wf k"
  using storage.set_keys [of "ndb_storage db"] by (auto simp: db_ok_def)

lemma deleteNode_ok:
  assumes "db_ok db"
  obtains S where "deleteNode i db = (db\<lparr>ndb_storage := S\<rparr>, Ok ())" "db_ok (db\<lparr>ndb_storage := S\<rparr>)"
    "\<And>k. GetData k S = (if owned i k then None else got k db)"
proof -
  have ok: "store_ok (ndb_storage db)" using assms(1) by (simp add: db_ok_def)
  define S where "S = fold del_data (filter (owned i) (keys_of (ndb_storage db))) (ndb_storage db)"
  have "deleteNode i db = (db\<lparr>ndb_storage := S\<rparr>, Ok ())"
    unfolding deleteNode_def NewIterator_def S_def by (rule delete_loop_eq [OF assms db_ok_keys [OF assms]])
  moreover have g: "GetData k S = (if owned i k then None else got k db)" for k
    unfolding S_def by (rule storage.get_del_filtered [OF ok])
  moreover have "db_ok (db\<lparr>ndb_storage := S\<rparr>)"
    using assms storage.dels_ok [OF ok] by (simp add: db_ok_def g) (simp add: S_def)
  ultimately show ?thesis using that by blast
qed

lemma splitKey_wf:
  assumes "key_wf k"
  obtains i f where "splitKey k = Ok (i, f)"
    "f = nodeDBDiscoverRoot \<longleftrightarrow> k = makeKey i nodeDBDiscoverRoot"
proof (cases "take 2 k = nodeDBItemPrefix")
  case True
  then obtain i where i: "owned i k" "i \<noteq> nodeDBNilNodeID" using assms by (auto simp: key_wf_def)
  show ?thesis by (rule that) (rule splitKey_owned [OF i(1)], rule owned_root_key [OF i])
next
  case False
  have "str_of k = nodeDBDiscoverRoot \<longleftrightarrow> k = makeKey nodeDBNilNodeID nodeDBDiscoverRoot"
    unfolding makeKey_def by (metis bytes_of_str_of str_of_bytes_of)
  then show ?thesis by (rule that [OF splitKey_plain [OF False]])
qed

lemma root_key_owner: "owned j (makeKey i f) \<Longrightarrow> plain_field f \<Longrightarrow> j = i"
  using owned_makeKey [of i j f] not_owned_nil [of f j] by (cases "i = nodeDBNilNodeID") auto

section \<open>What is stored is read back\<close>

lemma plain_hex_encode [simp]: "plain (hex_encode bs)"
proof -
  have "32 \<le> hextable n \<and> hextable n \<noteq> 34 \<and> hextable n \<noteq> 92" if "n < 16" for n
    using less_16_cases [OF that] by (auto simp: hextable_def)
  with nibbles_less show ?thesis by (induction bs) (simp_all add: hex_encode_def)
qed

lemma Hash_MarshalJSON_string: "Hash_MarshalJSON h = json_string (Hash_Hex h)"
  by (simp add: Hash_MarshalJSON_def json_string_def bytes_of_def)

lemma json_node_reads:
  assumes "ip_ok (node_IP n)"
  obtains blob where "json_node n = Some blob"
    "json_Unmarshal dec_node blob zero_node = Ok (n\<lparr>node_IP := normal_ip (node_IP n)\<rparr>)"
proof -
  obtain t where t: "IP_MarshalText (node_IP n) = Some t" "plain t"
    and d: "\<And>raw s. dec_ip raw (JStr t) s = Ok (normal_ip (node_IP n), True)"
    using dec_ip_roundtrip [OF assms] by blast
  let ?fs = "[(''IP'', json_string t, JStr t), (''TCP'', dec (unat (node_TCP n)), JNum (dec (unat (node_TCP n)))),
    (''UDP'', dec (unat (node_UDP n)), JNum (dec (unat (node_UDP n)))),
    (''ID'', json_id (node_ID n), JArr (map (\<lambda>b. JNum (dec (unat b))) (id_bytes (node_ID n)))),
    (''Hash'', Hash_MarshalJSON (node_Hash n), JStr (Hash_Hex (node_Hash n)))]"
  have "plain (bytes_of ''Hash'')" "plain (Hash_Hex (node_Hash n))"
    by (simp add: bytes_of_def) (simp add: Hash_Hex_def bytes_of_def)
  then have p: "parses (json_object (fields_raw ?fs)) (JObj (fields_val ?fs))"
    by (intro parses_object)
      (simp_all add: field_ok_def parses_string t(2) parses_dec parses_id Hash_MarshalJSON_string)
  have h: "dec_hash (Hash_MarshalJSON (node_Hash n)) v h0 = Ok (node_Hash n, True)" for v h0
    by (simp add: dec_hash_def Hash_JSON_roundtrip)
  have "dec_node r (JObj (fields_val ?fs)) zero_node = Ok (n\<lparr>node_IP := normal_ip (node_IP n)\<rparr>, True)" for r
    by (simp add: dec_node_def dec_simps d dec_uint_dec dec_id_reads h zero_node_def)
  from json_Unmarshal_parses [OF p, of dec_node, OF this]
  have "json_Unmarshal dec_node (json_object (fields_raw ?fs)) zero_node = Ok (n\<lparr>node_IP := normal_ip (node_IP n)\<rparr>)" .
  moreover have "json_node n = Some (json_object (fields_raw ?fs))"
    using t(1) by (simp add: json_node_def json_ip_def json_uint16_def)
  ultimately show ?thesis by (intro that)
qed

lemma fetch_other: "got k db' = got k db \<Longrightarrow> fetchInt64 k db' = fetchInt64 k db"
  by (simp add: fetchInt64_def)

lemma node_other: "got (makeKey i nodeDBDiscoverRoot) db' = got (makeKey i nodeDBDiscoverRoot) db \<Longrightarrow> db_node i db' = db_node i db"
  by (simp add: db_node_def)

lemma updateNode_writes:
  assumes "db_ok db" "ip_ok (node_IP n)"
  obtains db' blob where "updateNode n db = (db', Ok ())" "db_ok db'" "ndb_self db' = ndb_self db"
    "json_Unmarshal dec_node blob zero_node = Ok (n\<lparr>node_IP := normal_ip (node_IP n)\<rparr>)"
    "\<And>k. got k db' = (if k = makeKey (node_ID n) nodeDBDiscoverRoot then Some blob else got k db)"
proof -
  obtain blob where blob: "json_node n = Some blob"
    "json_Unmarshal dec_node blob zero_node = Ok (n\<lparr>node_IP := normal_ip (node_IP n)\<rparr>)"
    using json_node_reads [OF assms(2)] .
  let ?k = "makeKey (node_ID n) nodeDBDiscoverRoot"
  note set = on_storage_Set [OF assms(1) key_wf_makeKey [of nodeDBDiscoverRoot "node_ID n"]]
  show ?thesis
    by (rule that [of "db\<lparr>ndb_storage := put_data ?k blob (ndb_storage db)\<rparr>" blob])
      (use set blob in \<open>simp_all add: updateNode_def\<close>)
qed

lemma updateNode_stores:
  assumes "db_ok db" "ip_ok (node_IP n)" "node_Hash n = ByteHash256 (id_bytes (node_ID n))"
  shows "\<exists>db'. updateNode n db = (db', Ok ()) \<and> db_ok db' \<and>
    (\<forall>i. db_node i db' = (if i = node_ID n then Ok (Some (n\<lparr>node_IP := normal_ip (node_IP n)\<rparr>)) else db_node i db)) \<and>
    (\<forall>i. lastPing i db' = lastPing i db \<and> lastPong i db' = lastPong i db \<and> findFails i db' = findFails i db)"
proof -
  obtain db' blob where w: "updateNode n db = (db', Ok ())" "db_ok db'" "ndb_self db' = ndb_self db"
    "json_Unmarshal dec_node blob zero_node = Ok (n\<lparr>node_IP := normal_ip (node_IP n)\<rparr>)"
    and g: "\<And>k. got k db' = (if k = makeKey (node_ID n) nodeDBDiscoverRoot then Some blob else got k db)"
    by (rule updateNode_writes [OF assms(1,2)]) blast
  have "db_node i db' = (if i = node_ID n then Ok (Some (n\<lparr>node_IP := normal_ip (node_IP n)\<rparr>)) else db_node i db)" for i
    using g [of "makeKey i nodeDBDiscoverRoot"] w(4) assms(3) unfolding db_node_def by (simp add: makeKey_eq)
  moreover have "fetchInt64 (makeKey i f) db' = fetchInt64 (makeKey i f) db" if "plain_field f" "f \<noteq> nodeDBDiscoverRoot" for i f
    using g [of "makeKey i f"] that by (intro fetch_other) (simp add: makeKey_eq)
  then have "lastPing i db' = lastPing i db \<and> lastPong i db' = lastPong i db \<and> findFails i db' = findFails i db" for i
    by (simp add: lastPing_def lastPong_def findFails_def)
  ultimately show ?thesis using w(1,2) by blast
qed

lemma storeInt64_keeps:
  assumes "db_ok db" "plain_field f"
  obtains db' where "storeInt64 (makeKey i f) x db = (db', Ok ())" "db_ok db'" "got (makeKey i f) db' = Some (PutVarint x)"
    "\<And>k. k \<noteq> makeKey i f \<Longrightarrow> got k db' = got k db" "ndb_self db' = ndb_self db"
proof -
  let ?db = "db\<lparr>ndb_storage := put_data (makeKey i f) (PutVarint x) (ndb_storage db)\<rparr>"
  note set = on_storage_Set [OF assms(1) key_wf_makeKey [OF assms(2), of i], where v = "PutVarint x"]
  have "storeInt64 (makeKey i f) x db = (?db, Ok ())" using set(1) by (simp add: storeInt64_def)
  then show ?thesis using that [of ?db] set(2,3) by auto
qed

lemma storeInt64_fetch:
  assumes "db_ok db" "plain_field f" "- (2 ^ 63) \<le> x" "x < 2 ^ 63"
  obtains db' where "storeInt64 (makeKey i f) x db = (db', Ok ())" "db_ok db'" "fetchInt64 (makeKey i f) db' = x"
    "\<And>k. k \<noteq> makeKey i f \<Longrightarrow> got k db' = got k db" "ndb_self db' = ndb_self db"
proof -
  obtain db' where db': "storeInt64 (makeKey i f) x db = (db', Ok ())" "db_ok db'" "got (makeKey i f) db' = Some (PutVarint x)"
    "\<And>k. k \<noteq> makeKey i f \<Longrightarrow> got k db' = got k db" "ndb_self db' = ndb_self db"
    by (rule storeInt64_keeps [OF assms(1,2), of i x]) blast
  then have "fetchInt64 (makeKey i f) db' = x" using Varint_PutVarint [OF assms(3,4)] by (simp add: fetchInt64_def)
  with that db' show ?thesis by blast
qed

lemma unix_time_of_int: "0 \<le> x \<Longrightarrow> x < 2 ^ 62 \<Longrightarrow> unix_time (of_int x) = x * second"
proof -
  assume x: "0 \<le> x" "x < 2 ^ 62"
  then have u: "unat (of_int x :: uint64) = nat x"
    by (simp add: unat_eq_nat_uint uint_word_of_int take_bit_int_eq_self)
  then have "unat (of_int x :: uint64) < 2 ^ 62" using x by (simp add: nat_less_iff)
  from unix_time_sane [OF this] u x show ?thesis by simp
qed

lemma seconds_bounds:
  assumes "0 \<le> t" "t < 2 ^ 62 * second"
  shows "0 \<le> t div second" "t div second < 2 ^ 62" "- (2 ^ 63) \<le> t div second" "t div second < 2 ^ 63"
proof -
  show "0 \<le> t div second" "t div second < 2 ^ 62" using assms by (simp_all add: pos_imp_zdiv_nonneg_iff div_less_iff_less_mult)
  then show "- (2 ^ 63) \<le> t div second" "t div second < 2 ^ 63" by simp_all
qed

section \<open>Expiring\<close>

text \<open>What is left when the nodes of a set are gone.\<close>

definition removed :: "nodeid set \<Rightarrow> 'db nodeDB \<Rightarrow> 'db nodeDB \<Rightarrow> bool" where
  "removed D db db' \<longleftrightarrow>
     db_ok db' \<and> (\<exists>S. db' = db\<lparr>ndb_storage := S\<rparr>) \<and>
     (\<forall>k. got k db' = (if \<exists>i \<in> D. owned i k then None else got k db))"

definition stale :: "time \<Rightarrow> 'db nodeDB \<Rightarrow> nodeid \<Rightarrow> bool" where
  "stale threshold db i \<longleftrightarrow> i = ndb_self db \<or> lastPong i db \<le> threshold"

lemma removed_insert:
  assumes "removed D db db1" "deleteNode i db1 = (db2, r)"
  shows "r = Ok ()" "removed (insert i D) db db2"
proof -
  from assms(1) have ok: "db_ok db1" by (simp add: removed_def)
  obtain S where S: "deleteNode i db1 = (db1\<lparr>ndb_storage := S\<rparr>, Ok ())" "db_ok (db1\<lparr>ndb_storage := S\<rparr>)"
    "\<And>k. GetData k S = (if owned i k then None else got k db1)" using deleteNode_ok [OF ok] by blast
  then show "r = Ok ()" "removed (insert i D) db db2"
    using assms by (auto simp: removed_def)
qed

lemma expire_item_step:
  assumes "removed D db db1" "i \<notin> D" "k = makeKey i nodeDBDiscoverRoot"
  shows "\<exists>db2. expire_item threshold k v db1 = (db2, Ok ()) \<and>
    removed (if stale threshold db i then insert i D else D) db db2"
proof -
  let ?k = "makeKey i nodeDBDiscoverPong"
  have "\<not> (\<exists>j \<in> D. owned j ?k)" using assms(2) root_key_owner [OF _ fields_plain(3)] by blast
  moreover have "got ?k db1 = (if \<exists>j \<in> D. owned j ?k then None else got ?k db)"
    using assms(1) unfolding removed_def by blast
  ultimately have "got ?k db1 = got ?k db" by simp
  from fetch_other [OF this] have "lastPong i db1 = lastPong i db" by (simp add: lastPong_def)
  moreover obtain S where "db1 = db\<lparr>ndb_storage := S\<rparr>" using assms(1) unfolding removed_def by blast
  then have "ndb_self db1 = ndb_self db" by simp
  ultimately have st: "(i \<noteq> ndb_self db1 \<and> threshold < lastPong i db1) \<longleftrightarrow> \<not> stale threshold db i"
    unfolding stale_def by auto
  have sp: "splitKey k = Ok (i, nodeDBDiscoverRoot)" using assms(3) by (simp add: splitKey_makeKey)
  show ?thesis
  proof (cases "stale threshold db i")
    case True
    obtain db2 r where d: "deleteNode i db1 = (db2, r)" by (cases "deleteNode i db1")
    have r: "r = Ok ()" "removed (insert i D) db db2" using removed_insert [OF assms(1) d] by blast+
    have "expire_item threshold k v db1 = (db2, Ok ())" unfolding expire_item_def by (simp add: sp st True d r(1))
    with r(2) True show ?thesis by simp
  next
    case False
    then have "expire_item threshold k v db1 = (db1, Ok ())" unfolding expire_item_def by (simp add: sp st)
    with assms(1) False show ?thesis by simp
  qed
qed

lemma expire_item_other:
  assumes "key_wf k" "\<forall>i. k \<noteq> makeKey i nodeDBDiscoverRoot"
  shows "expire_item threshold k v db = (db, Ok ())"
proof -
  obtain i f where "splitKey k = Ok (i, f)" "f = nodeDBDiscoverRoot \<longleftrightarrow> k = makeKey i nodeDBDiscoverRoot"
    using splitKey_wf [OF assms(1)] .
  with assms(2) show ?thesis by (simp add: expire_item_def)
qed

lemma expire_items:
  assumes "\<forall>k \<in> set ks. key_wf k \<and> rd k \<noteq> None" "distinct ks" "removed D db db1"
    "\<forall>i \<in> D. makeKey i nodeDBDiscoverRoot \<notin> set ks"
  shows "\<exists>db2. for_items rd (expire_item threshold) ks db1 = (db2, Ok ()) \<and>
    removed (D \<union> {i. makeKey i nodeDBDiscoverRoot \<in> set ks \<and> stale threshold db i}) db db2"
  using assms
proof (induction ks arbitrary: D db1)
  case Nil
  then show ?case by (simp add: ret_def)
next
  case (Cons k ks)
  then obtain v where v: "rd k = Some v" by auto
  have ks: "\<forall>k \<in> set ks. key_wf k \<and> rd k \<noteq> None" "distinct ks" using Cons.prems by auto
  show ?case
  proof (cases "\<exists>i. k = makeKey i nodeDBDiscoverRoot")
    case True
    then obtain i where i: "k = makeKey i nodeDBDiscoverRoot" by blast
    let ?D = "if stale threshold db i then insert i D else D"
    have "i \<notin> D" using Cons.prems(4) i by auto
    then obtain db2 where db2: "expire_item threshold k v db1 = (db2, Ok ())" "removed ?D db db2"
      using expire_item_step [OF Cons.prems(3) _ i] by blast
    have "\<forall>j \<in> ?D. makeKey j nodeDBDiscoverRoot \<notin> set ks" using Cons.prems(2,4) i by auto
    from Cons.IH [OF ks db2(2) this] obtain db3 where
      "for_items rd (expire_item threshold) ks db2 = (db3, Ok ())"
      "removed (?D \<union> {j. makeKey j nodeDBDiscoverRoot \<in> set ks \<and> stale threshold db j}) db db3" by blast
    moreover have "?D \<union> {j. makeKey j nodeDBDiscoverRoot \<in> set ks \<and> stale threshold db j} =
        D \<union> {j. makeKey j nodeDBDiscoverRoot \<in> set (k # ks) \<and> stale threshold db j}"
      using i by (auto simp: makeKey_eq)
    ultimately show ?thesis using v db2(1) by (simp add: prog_bind_def)
  next
    case False
    have "key_wf k" using Cons.prems(1) by simp
    with False have e: "expire_item threshold k v db1 = (db1, Ok ())" by (intro expire_item_other) simp_all
    have "{j. makeKey j nodeDBDiscoverRoot \<in> set (k # ks) \<and> stale threshold db j} =
        {j. makeKey j nodeDBDiscoverRoot \<in> set ks \<and> stale threshold db j}" using False by auto
    with Cons.IH [OF ks Cons.prems(3)] Cons.prems(4) v e show ?thesis by (simp add: prog_bind_def)
  qed
qed

lemma expireNodes_removes:
  assumes "db_ok db"
  shows "\<exists>db'. expireNodes now db = (db', Ok ()) \<and> db_ok db' \<and> ndb_self db' = ndb_self db \<and>
    (\<forall>k. got k db' =
       (if \<exists>i. owned i k \<and> got (makeKey i nodeDBDiscoverRoot) db \<noteq> None \<and>
               (i = ndb_self db \<or> lastPong i db \<le> now - nodeDBNodeExpiration)
        then None else got k db))"
proof -
  let ?S = "ndb_storage db" and ?t = "now - nodeDBNodeExpiration"
  have ok: "store_ok ?S" using assms by (simp add: db_ok_def)
  have "\<forall>k \<in> set (keys_of ?S). key_wf k \<and> contents ?S k \<noteq> None"
    using db_ok_keys [OF assms] storage.set_keys [OF ok] by (auto simp: GetData_def)
  moreover have "removed {} db db" using assms by (auto simp: removed_def intro: exI [of _ ?S])
  ultimately obtain db' where db': "for_items (contents ?S) (expire_item ?t) (keys_of ?S) db = (db', Ok ())"
    "removed ({} \<union> {i. makeKey i nodeDBDiscoverRoot \<in> set (keys_of ?S) \<and> stale ?t db i}) db db'"
    using expire_items [of "keys_of ?S" "contents ?S" "{}" db db ?t] storage.keys_sorted [OF ok] by auto
  then have "expireNodes now db = (db', Ok ())" by (simp add: expireNodes_def ForeachData_def)
  moreover have "(\<exists>i \<in> {i. makeKey i nodeDBDiscoverRoot \<in> set (keys_of ?S) \<and> stale ?t db i}. owned i k) \<longleftrightarrow>
      (\<exists>i. owned i k \<and> got (makeKey i nodeDBDiscoverRoot) db \<noteq> None \<and> (i = ndb_self db \<or> lastPong i db \<le> ?t))" for k
    using storage.set_keys [OF ok] by (auto simp: stale_def)
  ultimately show ?thesis using db'(2) unfolding removed_def by (intro exI [of _ db']) auto
qed

text \<open>
  Expiring never fails and removes exactly the stale nodes: everything stored about a node goes when
  the node is recorded and either is the node itself or was not heard from for a day; everything else
  stays. Nothing stored under the nil identifier is ever removed.
\<close>

theorem expire_removes_exactly_stale:
  assumes "db_ok db"
  shows "\<exists>db'. expireNodes now db = (db', Ok ()) \<and> db_ok db' \<and>
    (\<forall>k. got k db' =
       (if \<exists>i. owned i k \<and> got (makeKey i nodeDBDiscoverRoot) db \<noteq> None \<and>
               (i = ndb_self db \<or> lastPong i db \<le> now - nodeDBNodeExpiration)
        then None else got k db))"
  using expireNodes_removes [OF assms] by blast

section \<open>Seeds\<close>

text \<open>A database that differs at most in having lost records about the node itself.\<close>

definition same_others :: "'db nodeDB \<Rightarrow> 'db nodeDB \<Rightarrow> bool" where
  "same_others db db' \<longleftrightarrow>
     db_ok db' \<and> ndb_self db' = ndb_self db \<and> (\<forall>k. got k db' = got k db \<or> owned (ndb_self db) k \<and> got k db' = None)"

lemma same_others_node: "same_others db db' \<Longrightarrow> i \<noteq> ndb_self db \<Longrightarrow> db_node i db' = db_node i db"
  using root_key_owner [of "ndb_self db" i nodeDBDiscoverRoot] by (intro node_other) (auto simp: same_others_def)

lemma same_others_refl: "db_ok db \<Longrightarrow> same_others db db"
  by (simp add: same_others_def)

lemma same_others_delete:
  assumes "same_others db db1"
  obtains db2 where "deleteNode (ndb_self db) db1 = (db2, Ok ())" "same_others db db2"
proof -
  have "db_ok db1" using assms by (simp add: same_others_def)
  from deleteNode_ok [OF this, of "ndb_self db"] obtain S where
    S: "deleteNode (ndb_self db) db1 = (db1\<lparr>ndb_storage := S\<rparr>, Ok ())" "db_ok (db1\<lparr>ndb_storage := S\<rparr>)"
    "\<And>k. GetData k S = (if owned (ndb_self db) k then None else got k db1)" by blast
  have "same_others db (db1\<lparr>ndb_storage := S\<rparr>)" using assms S(2,3) by (simp add: same_others_def) metis
  with S(1) that show ?thesis by blast
qed

definition good_seed :: "'db nodeDB \<Rightarrow> node \<Rightarrow> bool" where
  "good_seed db nd \<longleftrightarrow> (\<exists>i. i \<noteq> ndb_self db \<and> db_node i db = Ok (Some nd))"

text \<open>What the loop over the keys \<^verbatim>\<open>ks\<close> achieves when it starts with the seeds \<^verbatim>\<open>nodes\<close>.\<close>

definition seeds_post :: "nat \<Rightarrow> 'db nodeDB \<Rightarrow> bytes list \<Rightarrow> node list \<Rightarrow>
    'db nodeDB \<times> iterator \<times> (db_error, node list) res \<Rightarrow> bool" where
  "seeds_post n db ks nodes r \<longleftrightarrow>
     (\<exists>db2 it nodes'. r = (db2, it, Ok nodes') \<and> same_others db db2 \<and> length nodes' \<le> n \<and>
       (\<forall>nd \<in> set nodes'. good_seed db nd) \<and> length nodes \<le> length nodes' \<and>
       (nodes' = [] \<and> 0 < n \<longrightarrow>
          (\<forall>i. i \<noteq> ndb_self db \<and> makeKey i nodeDBDiscoverRoot \<in> set ks \<longrightarrow> db_node i db = Ok None)))"

lemma seeds_post_Cons:
  assumes "seeds_post n db ks nodes' r" "length nodes \<le> length nodes'"
    "\<And>i. i \<noteq> ndb_self db \<Longrightarrow> k = makeKey i nodeDBDiscoverRoot \<Longrightarrow> nodes' = [] \<Longrightarrow> db_node i db = Ok None"
  shows "seeds_post n db (k # ks) nodes r"
proof -
  obtain db2 it out where r: "r = (db2, it, Ok out)" "same_others db db2" "length out \<le> n"
    "\<forall>nd \<in> set out. good_seed db nd" "length nodes' \<le> length out"
    "out = [] \<and> 0 < n \<longrightarrow> (\<forall>i. i \<noteq> ndb_self db \<and> makeKey i nodeDBDiscoverRoot \<in> set ks \<longrightarrow> db_node i db = Ok None)"
    using assms(1) unfolding seeds_post_def by blast
  have "out = [] \<and> 0 < n \<longrightarrow>
      (\<forall>i. i \<noteq> ndb_self db \<and> makeKey i nodeDBDiscoverRoot \<in> set (k # ks) \<longrightarrow> db_node i db = Ok None)"
    using r(5,6) assms(3) by auto
  with r assms(2) show ?thesis unfolding seeds_post_def by (intro exI [of _ db2] exI [of _ it] exI [of _ out]) simp
qed

lemma db_node_cases: "db_node i db \<noteq> Panic \<Longrightarrow> (\<exists>nd. db_node i db = Ok (Some nd)) \<or> db_node i db = Ok None"
  by (auto simp: db_node_def split: option.splits res.splits)

lemma seeds_loop_ok:
  assumes "same_others db db1" "\<forall>k \<in> set ks. key_wf k" "\<forall>i. db_node i db \<noteq> Panic" "length nodes \<le> n"
    "\<forall>nd \<in> set nodes. good_seed db nd"
  shows "seeds_post n db ks nodes (seeds_loop n \<lparr>it_rest = ks, it_current = c, it_read = rd\<rparr> nodes db1)"
  using assms
proof (induction ks arbitrary: db1 nodes c)
  case Nil
  then show ?case by (subst seeds_loop.simps) (auto simp: it_Next_def seeds_post_def)
next
  case (Cons k ks)
  let ?it = "\<lparr>it_rest = ks, it_current = Some k, it_read = rd\<rparr>"
  have nxt: "it_Next \<lparr>it_rest = k # ks, it_current = c, it_read = rd\<rparr> = (True, ?it)" "it_Key ?it = Ok k"
    by (simp_all add: it_Next_def it_Key_def)
  note step = seeds_loop.simps [of n "\<lparr>it_rest = k # ks, it_current = c, it_read = rd\<rparr>" nodes db1, unfolded nxt]
  have wf: "\<forall>k \<in> set ks. key_wf k" "key_wf k" using Cons.prems(2) by simp_all
  have self: "ndb_self db1 = ndb_self db" using Cons.prems(1) by (simp add: same_others_def)
  obtain i f where sp: "splitKey k = Ok (i, f)" "f = nodeDBDiscoverRoot \<longleftrightarrow> k = makeKey i nodeDBDiscoverRoot"
    using splitKey_wf [OF wf(2)] .
  have only: "j = i \<and> f = nodeDBDiscoverRoot" if "k = makeKey j nodeDBDiscoverRoot" for j
    using sp(1) that by (simp add: splitKey_makeKey)
  consider "\<not> length nodes < n" | "length nodes < n" "f \<noteq> nodeDBDiscoverRoot"
    | "length nodes < n" "f = nodeDBDiscoverRoot" "i = ndb_self db"
    | "length nodes < n" "f = nodeDBDiscoverRoot" "i \<noteq> ndb_self db" by blast
  then show ?case
  proof cases
    case 1
    then show ?thesis using Cons.prems unfolding step by (auto simp: seeds_post_def)
  next
    case 2
    have "seeds_post n db (k # ks) nodes (seeds_loop n ?it nodes db1)"
      by (rule seeds_post_Cons [OF Cons.IH [OF Cons.prems(1) wf(1) Cons.prems(3-5)]]) (use only 2 in auto)
    with 2 show ?thesis unfolding step using sp(1) nxt(2) by simp
  next
    case 3
    obtain db2 where db2: "deleteNode (ndb_self db) db1 = (db2, Ok ())" "same_others db db2"
      using same_others_delete [OF Cons.prems(1)] .
    have "seeds_post n db (k # ks) nodes (seeds_loop n ?it nodes db2)"
      by (rule seeds_post_Cons [OF Cons.IH [OF db2(2) wf(1) Cons.prems(3-5)]]) (use only 3 in auto)
    with 3 show ?thesis unfolding step using self db2(1) sp(1) nxt(2) by simp
  next
    case 4
    note node = same_others_node [OF Cons.prems(1) 4(3)]
    consider nd where "db_node i db = Ok (Some nd)" | "db_node i db = Ok None" using db_node_cases Cons.prems(3) by blast
    then show ?thesis
    proof cases
      case (1 nd)
      then have "\<forall>x \<in> set (nodes @ [nd]). good_seed db x" using Cons.prems(5) 4(3) by (auto simp: good_seed_def)
      with Cons.IH [OF Cons.prems(1) wf(1) Cons.prems(3), of "nodes @ [nd]"] 4
      have "seeds_post n db ks (nodes @ [nd]) (seeds_loop n ?it (nodes @ [nd]) db1)" by simp
      from seeds_post_Cons [OF this, of nodes k] show ?thesis unfolding step
        using 4 self sp(1) nxt(2) node 1 by simp
    next
      case 2
      have "seeds_post n db (k # ks) nodes (seeds_loop n ?it nodes db1)"
        by (rule seeds_post_Cons [OF Cons.IH [OF Cons.prems(1) wf(1) Cons.prems(3-5)]]) (use only 2 in auto)
      with 4 show ?thesis unfolding step using self sp(1) nxt(2) node 2 by simp
    qed
  qed
qed

lemma querySeeds_result:
  assumes "db_ok db" "\<forall>i. db_node i db \<noteq> Panic" "ndb_seeder db = None"
  obtains db' nodes where "querySeeds n db = (db', Ok nodes)" "same_others db db'" "length nodes \<le> n"
    "\<forall>nd \<in> set nodes. good_seed db nd"
    "nodes = [] \<and> 0 < n \<longrightarrow> (\<forall>i. i \<noteq> ndb_self db \<longrightarrow> db_node i db = Ok None)"
proof -
  let ?S = "ndb_storage db"
  have "seeds_post n db (keys_of ?S) [] (seeds_loop n (NewIterator ?S) [] db)"
    unfolding NewIterator_def using seeds_loop_ok [OF same_others_refl [OF assms(1)] db_ok_keys [OF assms(1)] assms(2)] by simp
  then obtain db2 it nodes where l: "seeds_loop n (NewIterator ?S) [] db = (db2, it, Ok nodes)" "same_others db db2"
    "length nodes \<le> n" "\<forall>nd \<in> set nodes. good_seed db nd"
    "nodes = [] \<and> 0 < n \<longrightarrow>
       (\<forall>i. i \<noteq> ndb_self db \<and> makeKey i nodeDBDiscoverRoot \<in> set (keys_of ?S) \<longrightarrow> db_node i db = Ok None)"
    unfolding seeds_post_def by blast
  have "db_node i db = Ok None" if "makeKey i nodeDBDiscoverRoot \<notin> set (keys_of ?S)" for i
    using that storage.set_keys [of ?S] assms(1) by (simp add: db_node_def db_ok_def)
  with l(5) have "nodes = [] \<and> 0 < n \<longrightarrow> (\<forall>i. i \<noteq> ndb_self db \<longrightarrow> db_node i db = Ok None)" by blast
  moreover have "same_others db (db2\<lparr>ndb_seeder := it'\<rparr>)" for it'
    using l(2) by (simp add: same_others_def db_ok_def)
  moreover have "querySeeds n db = (db2\<lparr>ndb_seeder := if nodes = [] then None else Some it\<rparr>, Ok nodes)"
    using l(1) by (simp add: querySeeds_def assms(3))
  ultimately show ?thesis using that l(3,4) by blast
qed


section \<open>An example database\<close>

definition demo_db :: "(bytes \<times> bytes) list nodeDB" where
  "demo_db = \<lparr>ndb_storage = \<lparr>st_engine = list_engine, st_db = [], st_version = 4\<rparr>, ndb_version = 4,
     ndb_self = id_of [1], ndb_quit = False, ndb_runner = False, ndb_seeder = None\<rparr>"

lemma demo_db_ok: "db_ok demo_db"
  by (simp add: db_ok_def demo_db_def store_ok_def list_engine_ok GetData_def) (simp add: list_engine_def)

lemma demo_db_got: "got k demo_db = None"
  by (simp add: demo_db_def GetData_def list_engine_def)

definition demo_stale :: "(bytes \<times> bytes) list nodeDB" where
  "demo_stale = demo_db\<lparr>ndb_storage := \<lparr>st_engine = list_engine,
     st_db = [(makeKey (id_of [2]) nodeDBDiscoverRoot, [1]), (versionKey, [4])], st_version = 4\<rparr>\<rparr>"

lemma demo_stale_got: "got k demo_stale = (if k = makeKey (id_of [2]) nodeDBDiscoverRoot then Some [1]
    else if k = versionKey then Some [4] else None)"
  by (simp add: demo_stale_def GetData_def list_engine_def)

lemma demo_stale_ok: "db_ok demo_stale"
proof -
  have "key_wf versionKey" by (simp add: key_wf_def versionKey_def nodeDBItemPrefix_def bytes_of_def)
  then have "\<forall>k. got k demo_stale \<noteq> None \<longrightarrow> key_wf k" by (simp add: demo_stale_got key_wf_makeKey)
  moreover have "store_ok (ndb_storage demo_stale)" by (simp add: demo_stale_def store_ok_def list_engine_ok)
  ultimately show ?thesis unfolding db_ok_def by blast
qed

theorem expire_removes_exactly_stale_witness:
  "\<exists>db'. expireNodes (48 * 3600 * second) demo_stale = (db', Ok ()) \<and>
    got (makeKey (id_of [2]) nodeDBDiscoverRoot) db' = None \<and> got versionKey db' = Some [4]"
proof -
  have nil: "id_of [2] \<noteq> nodeDBNilNodeID"
    unfolding nodeid_eq_iff nodeDBNilNodeID_def by (simp add: array_of_def go_copy_def numeral_eq_Suc)
  have ne: "makeKey (id_of [2]) nodeDBDiscoverPong \<noteq> versionKey" "makeKey (id_of [2]) nodeDBDiscoverRoot \<noteq> versionKey"
    using take_makeKey [OF nil] by (auto simp: versionKey_def nodeDBItemPrefix_def bytes_of_def dest: arg_cong [where f = "take 2"])
  then have "lastPong (id_of [2]) demo_stale = 0"
    by (simp add: lastPong_def fetchInt64_def demo_stale_got makeKey_eq unix_time_of_int [of 0, simplified])
  then have "owned (id_of [2]) (makeKey (id_of [2]) nodeDBDiscoverRoot) \<and>
      got (makeKey (id_of [2]) nodeDBDiscoverRoot) demo_stale \<noteq> None \<and>
      (id_of [2] = ndb_self demo_stale \<or> lastPong (id_of [2]) demo_stale \<le> 48 * 3600 * second - nodeDBNodeExpiration)"
    using nil by (simp add: owned_makeKey demo_stale_got nodeDBNodeExpiration_def)
  moreover have "\<not> owned i versionKey" for i
    by (simp add: owned_def versionKey_def nodeDBItemPrefix_def bytes_of_def)
  ultimately show ?thesis
    using expire_removes_exactly_stale [OF demo_stale_ok, of "48 * 3600 * second"] ne by (metis (no_types, lifting) demo_stale_got)
qed


end
