(* ===== verification/Udp_Loop.thy ===== *)
theory Udp_Loop
  imports Rpc Buckets
begin

text \<open>
  The loop of discover/udp.go that owns the queue of pending replies. A pending reply carries the
  closure the requester registered: accept the first matching packet (ping, waitping), or collect
  neighbors (findnode). The queue is a container/list: removing the element a loop stands on clears
  its link, so that every loop of the source ends at the first element it removes. A pending reply
  is a pointer in the source and carries an identity here; \<^verbatim>\<open>ul_done\<close> logs what was sent on the error
  channels.
\<close>

datatype rpc_error = ErrTimeout | ErrClockWarp | ErrClosed

datatype callback = Accept_first | Collect "node list" nat

record pending =
  pe_no :: nat
  pe_from :: nodeid
  pe_ptype :: byte
  pe_deadline :: time
  pe_callback :: callback

record udploop =
  ul_plist :: "pending list"
  ul_timer :: "time option"
  ul_next :: "nat option"
  ul_done :: "(pending \<times> rpc_error option) list"
  ul_fresh :: nat
  ul_closed :: bool

definition new_loop :: udploop where
  "new_loop = \<lparr>ul_plist = [], ul_timer = None, ul_next = None, ul_done = [], ul_fresh = 0, ul_closed = False\<rparr>"

section \<open>Callbacks\<close>

text \<open>The callback of \<^verbatim>\<open>findnode\<close> counts every node of the reply and keeps the valid ones.\<close>

fun collect :: "rpcNode list \<Rightarrow> node list \<Rightarrow> nat \<Rightarrow> node list \<times> nat" where
  "collect [] nodes nreceived = (nodes, nreceived)"
| "collect (rn # rns) nodes nreceived =
     collect rns (case nodeFromRPC rn of None \<Rightarrow> nodes | Some n \<Rightarrow> nodes @ [n]) (nreceived + 1)"

fun run_callback :: "callback \<Rightarrow> packet \<Rightarrow> (unit, bool \<times> callback) res" where
  "run_callback Accept_first _ = Ok (True, Accept_first)"
| "run_callback (Collect nodes k) (Neighbors rns _) =
     (case collect rns nodes k of (nodes', k') \<Rightarrow> Ok (bucketSize \<le> k', Collect nodes' k'))"
| "run_callback (Collect nodes k) _ = Panic"

section \<open>The steps of the loop\<close>

text \<open>A reply: the queue, the entry it completed, and whether anything matched.\<close>

fun dispatch :: "nodeid \<Rightarrow> packet \<Rightarrow> pending list \<Rightarrow> (unit, pending list \<times> pending option \<times> bool) res" where
  "dispatch from data [] = Ok ([], None, False)"
| "dispatch from data (p # ps) =
     (if pe_from p = from \<and> pe_ptype p = packet_type data
      then res_bind (run_callback (pe_callback p) data) (\<lambda>(finished, cb).
        let p' = p\<lparr>pe_callback := cb\<rparr> in
        if finished then Ok (ps, Some p', True)
        else res_bind (dispatch from data ps) (\<lambda>(ps', c, _). Ok (p' # ps', c, True)))
      else res_bind (dispatch from data ps) (\<lambda>(ps', c, m). Ok (p # ps', c, m)))"

text \<open>A tick of the timer: the queue and the entry it timed out.\<close>

fun expire_first :: "time \<Rightarrow> pending list \<Rightarrow> pending list \<times> pending option" where
  "expire_first now [] = ([], None)"
| "expire_first now (p # ps) =
     (if pe_deadline p \<le> now then (ps, Some p)
      else case expire_first now ps of (ps', c) \<Rightarrow> (p # ps', c))"

definition resetTimeout :: "time \<Rightarrow> udploop \<Rightarrow> udploop" where
  "resetTimeout now L =
     (case ul_plist L of [] \<Rightarrow> L
      | p # ps \<Rightarrow>
          if ul_next L = Some (pe_no p) then L
          else if pe_deadline p - now < 2 * respTimeout
            then L\<lparr>ul_timer := Some (pe_deadline p), ul_next := Some (pe_no p)\<rparr>
          else L\<lparr>ul_plist := ps, ul_done := ul_done L @ [(p, Some ErrClockWarp)], ul_next := None,
                 ul_timer := None\<rparr>)"

definition add_pending :: "nodeid \<Rightarrow> byte \<Rightarrow> callback \<Rightarrow> time \<Rightarrow> udploop \<Rightarrow> udploop" where
  "add_pending from ptype cb now L =
     L\<lparr>ul_plist := ul_plist L @ [\<lparr>pe_no = ul_fresh L, pe_from = from, pe_ptype = ptype,
          pe_deadline = now + respTimeout, pe_callback = cb\<rparr>],
       ul_fresh := Suc (ul_fresh L)\<rparr>"

definition got_reply :: "nodeid \<Rightarrow> packet \<Rightarrow> udploop \<Rightarrow> (unit, udploop \<times> bool) res" where
  "got_reply from data L =
     res_bind (dispatch from data (ul_plist L)) (\<lambda>(ps, c, matched).
       Ok (L\<lparr>ul_plist := ps,
             ul_done := ul_done L @ (case c of None \<Rightarrow> [] | Some p \<Rightarrow> [(p, None)])\<rparr>, matched))"

definition timer_fired :: "time \<Rightarrow> udploop \<Rightarrow> udploop" where
  "timer_fired now L =
     (case expire_first now (ul_plist L) of (ps, c) \<Rightarrow>
        L\<lparr>ul_plist := ps, ul_next := None, ul_timer := None,
          ul_done := ul_done L @ (case c of None \<Rightarrow> [] | Some p \<Rightarrow> [(p, Some ErrTimeout)])\<rparr>)"

definition loop_close :: "udploop \<Rightarrow> udploop" where
  "loop_close L =
     L\<lparr>ul_plist := [], ul_done := ul_done L @ map (\<lambda>p. (p, Some ErrClosed)) (ul_plist L), ul_closed := True\<rparr>"

datatype loop_event =
    Refresh_tick
  | Closing
  | Add_pending nodeid byte callback time
  | Got_reply nodeid packet
  | Timer_fired time

fun take_event :: "loop_event \<Rightarrow> udploop \<Rightarrow> (unit, udploop) res" where
  "take_event Refresh_tick L = Ok L"
| "take_event Closing L = Ok (loop_close L)"
| "take_event (Add_pending from ptype cb now) L = Ok (add_pending from ptype cb now L)"
| "take_event (Got_reply from data) L = res_bind (got_reply from data L) (\<lambda>(L', _). Ok L')"
| "take_event (Timer_fired now) L = Ok (timer_fired now L)"

text \<open>One turn: reset the timer at the given time, then take one event. \<^verbatim>\<open>None\<close> is a panic.\<close>

definition loop_turn :: "time \<times> loop_event \<Rightarrow> udploop option \<Rightarrow> udploop option" where
  "loop_turn tn s =
     (case s of None \<Rightarrow> None
      | Some L \<Rightarrow>
          if ul_closed L then Some L
          else case take_event (snd tn) (resetTimeout (fst tn) L) of Ok L' \<Rightarrow> Some L' | _ \<Rightarrow> None)"

section \<open>The invariant\<close>

text \<open>The requests of the source register a collecting callback for neighbors only.\<close>

fun callback_ok :: "byte \<Rightarrow> callback \<Rightarrow> bool" where
  "callback_ok ptype Accept_first \<longleftrightarrow> True"
| "callback_ok ptype (Collect _ _) \<longleftrightarrow> ptype = neighborsPacket"

fun loop_guard :: "time \<times> loop_event \<Rightarrow> bool" where
  "loop_guard (_, Add_pending _ ptype cb _) \<longleftrightarrow> callback_ok ptype cb"
| "loop_guard _ \<longleftrightarrow> True"

abbreviation answered :: "udploop \<Rightarrow> nat list" where
  "answered L \<equiv> map (\<lambda>d. pe_no (fst d)) (ul_done L)"

definition conserved :: "udploop \<Rightarrow> bool" where
  "conserved L \<longleftrightarrow> mset (map pe_no (ul_plist L) @ answered L) = mset [0..<ul_fresh L]"

definition next_old :: "udploop \<Rightarrow> bool" where
  "next_old L \<longleftrightarrow> (\<forall>i. ul_next L = Some i \<longrightarrow> i < ul_fresh L)"

text \<open>The deadline of an entry never changes, so the timer may be compared with it by identity.\<close>

definition timer_of :: "udploop \<Rightarrow> bool" where
  "timer_of L \<longleftrightarrow> (\<forall>p \<in> set (ul_plist L). ul_next L = Some (pe_no p) \<longrightarrow> ul_timer L = Some (pe_deadline p))"

definition loop_ok :: "udploop \<Rightarrow> bool" where
  "loop_ok L \<longleftrightarrow> conserved L \<and> timer_of L \<and> next_old L \<and>
     (\<forall>p \<in> set (ul_plist L). callback_ok (pe_ptype p) (pe_callback p))"

lemma collect_eq:
  "collect rns nodes k = (nodes @ List.map_filter nodeFromRPC rns, k + length rns)"
  by (induction rns nodes k rule: collect.induct) (auto simp: List.map_filter_simps split: option.splits)

lemma run_callback_ok:
  assumes "callback_ok (packet_type data) cb"
  shows "\<exists>b cb'. run_callback cb data = Ok (b, cb') \<and> callback_ok (packet_type data) cb'"
  using assms by (cases cb; cases data) (auto simp: collect_eq packet_types)

definition same_entry :: "pending \<Rightarrow> pending \<Rightarrow> bool" where
  "same_entry p q \<longleftrightarrow> pe_no p = pe_no q \<and> pe_deadline p = pe_deadline q \<and> pe_ptype p = pe_ptype q \<and> pe_from p = pe_from q"

lemma dispatch_ok:
  assumes "\<forall>p \<in> set ps. callback_ok (pe_ptype p) (pe_callback p)"
  shows "\<exists>ps' c b. dispatch from data ps = Ok (ps', c, b) \<and>
    (\<forall>p \<in> set ps'. callback_ok (pe_ptype p) (pe_callback p)) \<and>
    mset (map pe_no ps) = mset (map pe_no ps' @ (case c of None \<Rightarrow> [] | Some p \<Rightarrow> [pe_no p])) \<and>
    (\<forall>p \<in> set ps'. \<exists>q \<in> set ps. same_entry p q) \<and>
    (b \<longleftrightarrow> (\<exists>p \<in> set ps. pe_from p = from \<and> pe_ptype p = packet_type data))"
  using assms
proof (induction ps)
  case Nil
  then show ?case by (auto simp: exI [of _ False])
next
  case (Cons p ps)
  obtain ps' c b where ps: "dispatch from data ps = Ok (ps', c, b)"
    "\<forall>p \<in> set ps'. callback_ok (pe_ptype p) (pe_callback p)"
    "mset (map pe_no ps) = mset (map pe_no ps' @ (case c of None \<Rightarrow> [] | Some p \<Rightarrow> [pe_no p]))"
    "\<forall>p \<in> set ps'. \<exists>q \<in> set ps. same_entry p q"
    "b \<longleftrightarrow> (\<exists>p \<in> set ps. pe_from p = from \<and> pe_ptype p = packet_type data)"
    using Cons.IH Cons.prems by auto
  have refl: "\<forall>q \<in> set ps. \<exists>q' \<in> set (p # ps). same_entry q q'" by (auto simp: same_entry_def)
  show ?case
  proof (cases "pe_from p = from \<and> pe_ptype p = packet_type data")
    case False
    then have "dispatch from data (p # ps) = Ok (p # ps', c, b)" using ps(1) by auto
    with ps(2-5) Cons.prems False show ?thesis
      by (auto simp: same_entry_def)
  next
    case True
    then obtain fin cb where cb: "run_callback (pe_callback p) data = Ok (fin, cb)"
      "callback_ok (packet_type data) cb"
      using run_callback_ok [of data "pe_callback p"] Cons.prems by auto
    let ?p = "p\<lparr>pe_callback := cb\<rparr>"
    show ?thesis
    proof (cases fin)
      case True
      then have "dispatch from data (p # ps) = Ok (ps, Some ?p, True)"
        using cb(1) \<open>pe_from p = from \<and> pe_ptype p = packet_type data\<close> by simp
      then show ?thesis using Cons.prems refl \<open>pe_from p = from \<and> _\<close> by auto
    next
      case False
      then have "dispatch from data (p # ps) = Ok (?p # ps', c, True)"
        using cb(1) ps(1) \<open>pe_from p = from \<and> pe_ptype p = packet_type data\<close> by simp
      with ps(2-4) cb(2) \<open>pe_from p = from \<and> pe_ptype p = packet_type data\<close> show ?thesis
        by (auto simp: same_entry_def)
    qed
  qed
qed

lemma expire_first_ok:
  assumes "expire_first now ps = (ps', c)"
  shows "set ps' \<subseteq> set ps" "mset (map pe_no ps) = mset (map pe_no ps' @ (case c of None \<Rightarrow> [] | Some p \<Rightarrow> [pe_no p]))"
  using assms by (induction ps arbitrary: ps' c) (auto split: if_splits prod.splits)

lemma conserved_distinct:
  assumes "conserved L"
  shows "distinct (map pe_no (ul_plist L) @ answered L)"
    and "set (map pe_no (ul_plist L) @ answered L) = {0..<ul_fresh L}"
proof -
  have "distinct [0..<ul_fresh L]" by simp
  then show "distinct (map pe_no (ul_plist L) @ answered L)"
    using assms mset_eq_imp_distinct_iff unfolding conserved_def by blast
  show "set (map pe_no (ul_plist L) @ answered L) = {0..<ul_fresh L}"
    using mset_eq_setD [OF assms [unfolded conserved_def]] by simp
qed

lemma same_no_same_entry:
  assumes "conserved L" "p \<in> set (ul_plist L)" "q \<in> set (ul_plist L)" "pe_no p = pe_no q"
  shows "p = q"
proof -
  have "distinct (map pe_no (ul_plist L))" using conserved_distinct(1) [OF assms(1)] by simp
  then have "inj_on pe_no (set (ul_plist L))" by (simp add: distinct_map)
  from inj_onD [OF this assms(4,2,3)] show ?thesis .
qed

lemma resetTimeout_ok:
  assumes ok: "loop_ok L"
  shows "loop_ok (resetTimeout now L)"
proof (cases "ul_plist L")
  case Nil
  then show ?thesis using ok by (simp add: resetTimeout_def)
next
  case (Cons p ps)
  have c: "conserved L" using ok by (simp add: loop_ok_def)
  let ?set = "L\<lparr>ul_timer := Some (pe_deadline p), ul_next := Some (pe_no p)\<rparr>"
  let ?drop = "L\<lparr>ul_plist := ps, ul_done := ul_done L @ [(p, Some ErrClockWarp)], ul_next := None, ul_timer := None\<rparr>"
  have "pe_no p < ul_fresh L" using conserved_distinct(2) [OF c] Cons by auto
  moreover have "pe_deadline q = pe_deadline p" if "q \<in> set (ul_plist L)" "pe_no p = pe_no q" for q
    using same_no_same_entry [OF c that(1), of p] that(2) Cons by simp
  ultimately have "next_old ?set" "timer_of ?set"
    unfolding next_old_def timer_of_def by simp_all
  then have "loop_ok ?set" using ok by (simp add: loop_ok_def conserved_def)
  moreover have "loop_ok ?drop"
    using ok Cons by (simp add: loop_ok_def conserved_def timer_of_def next_old_def)
  ultimately show ?thesis using ok Cons by (simp add: resetTimeout_def)
qed

lemma add_pending_ok:
  assumes "loop_ok L" "callback_ok ptype cb"
  shows "loop_ok (add_pending from ptype cb now L)"
  using assms by (auto simp: add_pending_def loop_ok_def conserved_def timer_of_def next_old_def)

lemma got_reply_ok:
  assumes "loop_ok L"
  shows "\<exists>L' b. got_reply from data L = Ok (L', b) \<and> loop_ok L' \<and>
    (b \<longleftrightarrow> (\<exists>p \<in> set (ul_plist L). pe_from p = from \<and> pe_ptype p = packet_type data))"
proof -
  obtain ps c b where d: "dispatch from data (ul_plist L) = Ok (ps, c, b)"
    "\<forall>p \<in> set ps. callback_ok (pe_ptype p) (pe_callback p)"
    "mset (map pe_no (ul_plist L)) = mset (map pe_no ps @ (case c of None \<Rightarrow> [] | Some p \<Rightarrow> [pe_no p]))"
    "\<forall>p \<in> set ps. \<exists>q \<in> set (ul_plist L). same_entry p q"
    "b \<longleftrightarrow> (\<exists>p \<in> set (ul_plist L). pe_from p = from \<and> pe_ptype p = packet_type data)"
    using dispatch_ok [of "ul_plist L" "from" data] assms by (auto simp: loop_ok_def)
  let ?L = "L\<lparr>ul_plist := ps, ul_done := ul_done L @ (case c of None \<Rightarrow> [] | Some p \<Rightarrow> [(p, None)])\<rparr>"
  have "conserved ?L" using assms d(3) by (cases c) (auto simp: loop_ok_def conserved_def)
  moreover have "timer_of ?L" "next_old ?L"
    using assms d(4) by (fastforce simp: loop_ok_def timer_of_def next_old_def same_entry_def)+
  ultimately show ?thesis using d by (simp add: got_reply_def loop_ok_def)
qed

lemma timer_fired_ok: "loop_ok L \<Longrightarrow> loop_ok (timer_fired now L)"
proof -
  assume ok: "loop_ok L"
  obtain ps c where e: "expire_first now (ul_plist L) = (ps, c)" by fastforce
  from expire_first_ok [OF e] ok e show ?thesis
    by (cases c) (auto simp: timer_fired_def loop_ok_def conserved_def timer_of_def next_old_def)
qed

lemma loop_close_ok: "loop_ok L \<Longrightarrow> loop_ok (loop_close L)"
  by (auto simp: loop_close_def loop_ok_def conserved_def timer_of_def next_old_def comp_def
      add.commute)

lemma take_event_ok:
  assumes "loop_ok L" "loop_guard (now, e)"
  shows "\<exists>L'. take_event e L = Ok L' \<and> loop_ok L'"
proof (cases e)
  case (Got_reply "from" data)
  obtain L' b where "got_reply from data L = Ok (L', b)" "loop_ok L'"
    using got_reply_ok [OF assms(1)] by blast
  then show ?thesis using Got_reply by simp
qed (use assms in \<open>simp_all add: add_pending_ok timer_fired_ok loop_close_ok\<close>)

interpretation pending_queue: guarded "\<lambda>s. \<exists>L. s = Some L \<and> loop_ok L" loop_guard loop_turn
proof
  fix s tn
  assume "\<exists>L. s = Some L \<and> loop_ok L" and g: "loop_guard tn"
  then obtain L where L: "s = Some L" "loop_ok L" by blast
  obtain now e where tn: "tn = (now, e)" by (cases tn)
  show "\<exists>L'. loop_turn tn s = Some L' \<and> loop_ok L'"
    using take_event_ok [OF resetTimeout_ok [OF L(2), of now], of now e] g L
    by (auto simp: loop_turn_def tn)
qed

lemma new_loop_ok: "loop_ok new_loop"
  by (simp add: new_loop_def loop_ok_def conserved_def timer_of_def next_old_def)

section \<open>The properties\<close>

text \<open>
  C4: Every request is answered exactly once. Whatever sequence of registrations, replies, timer
  ticks and clock jumps the loop goes through, it does not panic, no error channel receives two
  values (so that no send on the buffered channels can block the loop), and every request registered
  so far has either been answered or is still in the queue, never both; once the socket is closed the
  queue is empty, so every request has been answered.
\<close>

theorem every_request_answered_once:
  assumes "\<forall>tn \<in> set turns. loop_guard tn"
  shows "\<exists>L. fold loop_turn turns (Some new_loop) = Some L \<and>
    mset (map pe_no (ul_plist L) @ map (\<lambda>d. pe_no (fst d)) (ul_done L)) = mset [0..<ul_fresh L] \<and>
    (\<forall>now. \<exists>L'. loop_turn (now, Closing) (Some L) = Some L' \<and>
       (\<not> ul_closed L \<longrightarrow> mset (map (\<lambda>d. pe_no (fst d)) (ul_done L')) = mset [0..<ul_fresh L]))"
proof -
  obtain L where L: "fold loop_turn turns (Some new_loop) = Some L" "loop_ok L"
    using pending_queue.guarded_run [of "Some new_loop" turns] new_loop_ok assms by auto
  have "\<exists>L'. loop_turn (now, Closing) (Some L) = Some L' \<and>
      (\<not> ul_closed L \<longrightarrow> mset (map (\<lambda>d. pe_no (fst d)) (ul_done L')) = mset [0..<ul_fresh L])" for now
  proof (cases "ul_closed L")
    case False
    let ?R = "resetTimeout now L"
    have "ul_fresh ?R = ul_fresh L" by (simp add: resetTimeout_def split: list.split)
    moreover have "conserved (loop_close ?R)"
      using loop_close_ok [OF resetTimeout_ok [OF L(2)]] by (simp add: loop_ok_def)
    ultimately show ?thesis
      using False by (simp add: loop_turn_def conserved_def loop_close_def multiset.map_comp)
  qed (simp add: loop_turn_def)
  with L show ?thesis by (auto simp: loop_ok_def conserved_def)
qed

theorem every_request_answered_once_witness:
  "\<exists>L. fold loop_turn [(0, Add_pending (id_of [1]) pongPacket Accept_first 0), (5, Timer_fired 9)] (Some new_loop) = Some L \<and>
    mset (map pe_no (ul_plist L) @ map (\<lambda>d. pe_no (fst d)) (ul_done L)) = mset [0..<ul_fresh L]"
  using every_request_answered_once [of "[(0, Add_pending (id_of [1]) pongPacket Accept_first 0), (5, Timer_fired 9)]"]
  by auto

lemma expire_first_filter:
  "expire_first now ps = (qs, c) \<Longrightarrow>
   filter (\<lambda>p. \<not> pe_deadline p \<le> now) qs = filter (\<lambda>p. \<not> pe_deadline p \<le> now) ps \<and>
   filter (\<lambda>p. pe_deadline p \<le> now) ps = (case c of None \<Rightarrow> [] | Some p \<Rightarrow> [p]) @ filter (\<lambda>p. pe_deadline p \<le> now) qs \<and>
   (c = None \<longrightarrow> filter (\<lambda>p. pe_deadline p \<le> now) ps = []) \<and> set qs \<subseteq> set ps"
  by (induction ps arbitrary: qs c) (auto split: if_splits prod.splits option.splits)

lemma resetTimeout_frame:
  assumes "\<forall>p \<in> set (ul_plist L). pe_deadline p < now + 2 * respTimeout"
  shows "ul_plist (resetTimeout now L) = ul_plist L" "ul_done (resetTimeout now L) = ul_done L"
    "ul_closed (resetTimeout now L) = ul_closed L"
  using assms by (auto simp: resetTimeout_def split: list.splits)

text \<open>
  C35: Overdue requests are all timed out. As long as the clock did not jump back, a tick per overdue
  request answers all of them with a timeout, in the order they were registered, and leaves exactly
  the requests that are not overdue, in order.
\<close>

theorem overdue_requests_time_out:
  assumes "\<not> ul_closed L" "\<forall>p \<in> set (ul_plist L). pe_deadline p < now + 2 * respTimeout"
    and "n = length (filter (\<lambda>p. pe_deadline p \<le> now) (ul_plist L))"
  shows "\<exists>L'. fold loop_turn (replicate n (now, Timer_fired now)) (Some L) = Some L' \<and>
    ul_plist L' = filter (\<lambda>p. \<not> pe_deadline p \<le> now) (ul_plist L) \<and>
    ul_done L' = ul_done L @ map (\<lambda>p. (p, Some ErrTimeout)) (filter (\<lambda>p. pe_deadline p \<le> now) (ul_plist L))"
  using assms
proof (induction n arbitrary: L)
  case 0
  then have "\<forall>p \<in> set (ul_plist L). \<not> pe_deadline p \<le> now" by (metis filter_empty_conv length_0_conv)
  then show ?case by (simp add: filter_id_conv filter_False)
next
  case (Suc n)
  let ?R = "resetTimeout now L"
  note frame = resetTimeout_frame [OF Suc.prems(2)]
  obtain qs c where e: "expire_first now (ul_plist L) = (qs, c)" by fastforce
  note f = expire_first_filter [OF e]
  from f Suc.prems(3) obtain p where c: "c = Some p" by (cases c) auto
  let ?L = "timer_fired now ?R"
  have L: "ul_plist ?L = qs" "ul_done ?L = ul_done L @ [(p, Some ErrTimeout)]" "\<not> ul_closed ?L"
    using frame e c Suc.prems(1) by (simp_all add: timer_fired_def)
  have "loop_turn (now, Timer_fired now) (Some L) = Some ?L"
    using Suc.prems(1) by (simp add: loop_turn_def)
  moreover have "\<forall>p \<in> set (ul_plist ?L). pe_deadline p < now + 2 * respTimeout"
    using f Suc.prems(2) L(1) by blast
  moreover have "n = length (filter (\<lambda>p. pe_deadline p \<le> now) (ul_plist ?L))"
    using f Suc.prems(3) c L(1) by simp
  ultimately show ?case
    using Suc.IH [of ?L] L f c by auto
qed

definition demo_loop :: udploop where
  "demo_loop = add_pending (id_of [2]) pingPacket Accept_first 0
     (add_pending (id_of [1]) pongPacket Accept_first 0 new_loop)"

theorem overdue_requests_time_out_witness:
  "\<exists>L'. fold loop_turn (replicate 2 (600000000, Timer_fired 600000000)) (Some demo_loop) = Some L' \<and>
    ul_plist L' = [] \<and> map snd (ul_done L') = [Some ErrTimeout, Some ErrTimeout]"
  using overdue_requests_time_out [of demo_loop 600000000 2]
  by (auto simp: demo_loop_def add_pending_def new_loop_def respTimeout_def)

text \<open>
  The timer is armed. Whenever the loop goes to wait with requests in the queue, and none of
  them has a deadline a second or more ahead, the timer is set to the deadline of the first one; a
  request whose deadline is farther ahead (the clock jumped back) is answered with an error, but then
  the timer is off until another event arrives, even when more requests wait.
\<close>

theorem timer_armed_unless_clock_warp:
  assumes "\<forall>tn \<in> set turns. loop_guard tn" "fold loop_turn turns (Some new_loop) = Some L"
    and "ul_plist L = p # ps"
  shows "if pe_deadline p - now < 2 * respTimeout \<or> ul_next L = Some (pe_no p)
    then ul_timer (resetTimeout now L) = Some (pe_deadline p) \<and> ul_plist (resetTimeout now L) = p # ps
    else ul_timer (resetTimeout now L) = None \<and> ul_plist (resetTimeout now L) = ps \<and>
      ul_done (resetTimeout now L) = ul_done L @ [(p, Some ErrClockWarp)]"
proof -
  have "loop_ok L"
    using pending_queue.guarded_run [of "Some new_loop" turns] new_loop_ok assms(1,2) by auto
  then show ?thesis using assms(3) by (simp add: resetTimeout_def loop_ok_def timer_of_def)
qed

theorem timer_armed_unless_clock_warp_witness:
  "\<exists>L p. fold loop_turn [(0, Add_pending (id_of [1]) pongPacket Accept_first 0)] (Some new_loop) = Some L \<and>
     ul_timer (resetTimeout 7 L) = Some 500000000"
  using timer_armed_unless_clock_warp [of "[(0, Add_pending (id_of [1]) pongPacket Accept_first 0)]" _ _ _ 7]
  by (auto simp: loop_turn_def new_loop_def resetTimeout_def add_pending_def respTimeout_def)

lemma dispatch_first:
  assumes "\<forall>p \<in> set before. \<not> (pe_from p = nid \<and> pe_ptype p = packet_type data)"
    and "pe_from p = nid" "pe_ptype p = packet_type data" "pe_callback p = Accept_first"
  shows "dispatch nid data (before @ p # after) = Ok (before @ after, Some p, True)"
proof -
  have "p\<lparr>pe_callback := Accept_first\<rparr> = p" using assms(4) by simp
  then show ?thesis using assms by (induction before) auto
qed



text \<open>The answers to one findnode request, in the order they arrive.\<close>

fun run_replies :: "packet list \<Rightarrow> callback \<Rightarrow> (unit, bool \<times> callback) res" where
  "run_replies [] cb = Ok (False, cb)"
| "run_replies (r # rs) cb =
     res_bind (run_callback cb r) (\<lambda>(fin, cb'). if fin then Ok (True, cb') else run_replies rs cb')"

lemma run_replies_collect:
  assumes "k + length (concat (butlast rnss)) < bucketSize" "k < bucketSize"
  shows "run_replies (map (\<lambda>rns. Neighbors rns e) rnss) (Collect nodes k) =
    Ok (bucketSize \<le> k + length (concat rnss),
        Collect (nodes @ List.map_filter nodeFromRPC (concat rnss)) (k + length (concat rnss)))"
  using assms
proof (induction rnss arbitrary: nodes k)
  case Nil
  then show ?case by (simp add: List.map_filter_simps)
next
  case (Cons rns rnss)
  have mf: "List.map_filter f (xs @ ys) = List.map_filter f xs @ List.map_filter f ys" for f :: "rpcNode \<Rightarrow> node option" and xs ys
    by (simp add: List.map_filter_def)
  show ?case
  proof (cases "rnss = []")
    case True
    then show ?thesis by (simp add: collect_eq)
  next
    case False
    with Cons.prems have "k + length rns + length (concat (butlast rnss)) < bucketSize" by simp
    with Cons.IH [of "k + length rns"] show ?thesis by (simp add: collect_eq mf add.assoc)
  qed
qed

text \<open>
  A findnode request collects its answer over several packets: after any sequence of neighbors
  packets from the node it asked, it holds exactly the valid nodes of the packets in order, and it is
  complete exactly when the packets together named at least sixteen nodes, valid or not.
\<close>

theorem findnode_collects_replies:
  assumes "length (concat (butlast rnss)) < bucketSize"
  shows "run_replies (map (\<lambda>rns. Neighbors rns e) rnss) (Collect [] 0) =
    Ok (16 \<le> length (concat rnss), Collect (List.map_filter nodeFromRPC (concat rnss)) (length (concat rnss)))"
  using run_replies_collect [of 0 rnss e "[]"] assms by (simp add: bucketSize_def)

theorem findnode_collects_replies_witness:
  "run_replies (map (\<lambda>rns. Neighbors rns 7) [[\<lparr>rn_IP = [10, 0, 0, 1], rn_UDP = 0, rn_TCP = 1, rn_ID = id_of [3]\<rparr>], []])
     (Collect [] 0) = Ok (False, Collect [] 1)"
  using findnode_collects_replies [of "[[\<lparr>rn_IP = [10, 0, 0, 1], rn_UDP = 0, rn_TCP = 1, rn_ID = id_of [3]\<rparr>], []]" 7]
  by (simp add: bucketSize_def nodeFromRPC_def List.map_filter_simps)

end
