(* ===== verification/Discovery.thy ===== *)
theory Discovery
  imports NodeDB Udp_Loop
begin

text \<open>
  The transport of discover/udp.go and the packet handlers of discover/types.go, over the loop of
  pending replies, the routing table and the node database. What leaves a node is a list of effects:
  datagrams handed to the socket, and bonding processes started in goroutines of their own.
\<close>

record 'db udp =
  u_id :: nodeid
  u_ourEndpoint :: rpcEndpoint
  u_loop :: udploop
  u_table :: table
  u_db :: "'db nodeDB"

datatype effect = Datagram udpaddr bytes | Start_bond bool nodeid udpaddr uint16

datatype handle_error = ErrExpired | ErrBadVersion | ErrUnsolicitedReply | ErrUnknownNode | BadPacket packet_error

text \<open>\<^verbatim>\<open>uint64(time.Now().Add(expiration).Unix())\<close>.\<close>

definition expires_at :: "time \<Rightarrow> uint64" where
  "expires_at now = of_int ((now + expiration) div second)"

definition send :: "udpaddr \<Rightarrow> packet \<Rightarrow> 'db udp \<Rightarrow> effect list \<times> (packet_error, unit) res" where
  "send toaddr req t =
     (case encodePacket (u_id t) req of
        Ok bs \<Rightarrow> ([Datagram toaddr bs], Ok ())
      | Err e \<Rightarrow> ([], Err e)
      | Panic \<Rightarrow> ([], Panic))"

section \<open>Requests\<close>

text \<open>
  \<^verbatim>\<open>pending\<close>: the loop takes the registration, or has ended and the channel gets the error at once
  (\<^verbatim>\<open>False\<close>). The requests below then send and wait for the channel.
\<close>

definition udp_pending :: "nodeid \<Rightarrow> byte \<Rightarrow> callback \<Rightarrow> time \<Rightarrow> 'db udp \<Rightarrow> 'db udp \<times> bool" where
  "udp_pending i ptype cb now t =
     (if ul_closed (u_loop t) then (t, False)
      else (t\<lparr>u_loop := add_pending i ptype cb now (resetTimeout now (u_loop t))\<rparr>, True))"

definition udp_ping :: "time \<Rightarrow> nodeid \<Rightarrow> udpaddr \<Rightarrow> 'db udp \<Rightarrow> 'db udp \<times> bool \<times> effect list" where
  "udp_ping now toid toaddr t =
     (let (t1, waiting) = udp_pending toid pongPacket Accept_first now t
      in (t1, waiting, fst (send toaddr (Ping Version (u_ourEndpoint t) (makeEndpoint toaddr 0) (expires_at now)) t1)))"

definition udp_waitping :: "time \<Rightarrow> nodeid \<Rightarrow> 'db udp \<Rightarrow> 'db udp \<times> bool" where
  "udp_waitping now from t = udp_pending from pingPacket Accept_first now t"

definition udp_findnode :: "time \<Rightarrow> nodeid \<Rightarrow> udpaddr \<Rightarrow> nodeid \<Rightarrow> 'db udp \<Rightarrow> 'db udp \<times> bool \<times> effect list" where
  "udp_findnode now toid toaddr target t =
     (let (t1, waiting) = udp_pending toid neighborsPacket (Collect [] 0) now t
      in (t1, waiting, fst (send toaddr (Findnode target (expires_at now)) t1)))"

definition handleReply :: "time \<Rightarrow> nodeid \<Rightarrow> packet \<Rightarrow> 'db udp \<Rightarrow> (unit, 'db udp \<times> bool) res" where
  "handleReply now from req t =
     (if ul_closed (u_loop t) then Ok (t, False)
      else res_bind (got_reply from req (resetTimeout now (u_loop t))) (\<lambda>(L, matched). Ok (t\<lparr>u_loop := L\<rparr>, matched)))"

section \<open>Handlers\<close>

type_synonym 'db handled = "'db udp \<times> effect list \<times> (handle_error, unit) res"

definition ping_handle :: "time \<Rightarrow> udpaddr \<Rightarrow> nodeid \<Rightarrow> int \<Rightarrow> rpcEndpoint \<Rightarrow> rpcEndpoint \<Rightarrow> uint64 \<Rightarrow> 'db udp \<Rightarrow> 'db handled" where
  "ping_handle now from fromID version from_ep to_ep e t =
     (if expired now e then (t, [], Err ErrExpired)
      else if version \<noteq> Version then (t, [], Err ErrBadVersion)
      else
        (let out = fst (send from (Pong (makeEndpoint from (ep_TCP from_ep)) (expires_at now)) t) in
         case handleReply now fromID (Ping version from_ep to_ep e) t of
           Ok (t1, matched) \<Rightarrow>
             (t1, out @ (if matched then [] else [Start_bond True fromID from (ep_TCP from_ep)]), Ok ())
         | _ \<Rightarrow> (t, out, Panic)))"

definition reply_handle :: "time \<Rightarrow> nodeid \<Rightarrow> packet \<Rightarrow> uint64 \<Rightarrow> 'db udp \<Rightarrow> 'db handled" where
  "reply_handle now fromID req e t =
     (if expired now e then (t, [], Err ErrExpired)
      else
        (case handleReply now fromID req t of
           Ok (t1, matched) \<Rightarrow> (t1, [], if matched then Ok () else Err ErrUnsolicitedReply)
         | _ \<Rightarrow> (t, [], Panic)))"

text \<open>
  The loop of the findnode handler: \<^verbatim>\<open>i\<close> is the index of the first node of the list, \<^verbatim>\<open>cnt\<close> the number of
  closest nodes, \<^verbatim>\<open>acc\<close> the nodes collected for the next packet.
\<close>

fun neighbor_chunks :: "nat \<Rightarrow> nat \<Rightarrow> rpcNode list \<Rightarrow> node list \<Rightarrow> rpcNode list list" where
  "neighbor_chunks cnt i acc [] = []"
| "neighbor_chunks cnt i acc (n # ns) =
     (let acc1 = acc @ [nodeToRPC n] in
      if length acc1 = maxNeighbors \<or> i + 1 = cnt then acc1 # neighbor_chunks cnt (i + 1) [] ns
      else neighbor_chunks cnt (i + 1) acc1 ns)"

definition findnode_handle :: "time \<Rightarrow> udpaddr \<Rightarrow> nodeid \<Rightarrow> uint64 \<Rightarrow> 'db udp \<Rightarrow> 'db handled" where
  "findnode_handle now from fromID e t =
     (if expired now e then (t, [], Err ErrExpired)
      else
        (case db_node fromID (u_db t) of
           Ok None \<Rightarrow> (t, [], Err ErrUnknownNode)
         | Ok (Some _) \<Rightarrow>
             (let target = ByteHash256 (id_bytes fromID);
                  near = nbd_entries (closest (u_table t) target bucketSize)
              in (t, concat (map (\<lambda>rns. fst (send from (Neighbors rns (expires_at now)) t))
                       (neighbor_chunks (length near) 0 [] near)), Ok ()))
         | _ \<Rightarrow> (t, [], Panic)))"

fun handle_packet :: "time \<Rightarrow> udpaddr \<Rightarrow> nodeid \<Rightarrow> packet \<Rightarrow> 'db udp \<Rightarrow> 'db handled" where
  "handle_packet now from fromID (Ping v f to_ep e) t = ping_handle now from fromID v f to_ep e t"
| "handle_packet now from fromID (Pong to_ep e) t = reply_handle now fromID (Pong to_ep e) e t"
| "handle_packet now from fromID (Findnode target e) t = findnode_handle now from fromID e t"
| "handle_packet now from fromID (Neighbors rns e) t = reply_handle now fromID (Neighbors rns e) e t"

definition handlePacket :: "time \<Rightarrow> udpaddr \<Rightarrow> bytes \<Rightarrow> 'db udp \<Rightarrow> 'db handled" where
  "handlePacket now from buf t =
     (case decodePacket buf of
        Ok (req, fromID) \<Rightarrow> handle_packet now from fromID req t
      | Err e \<Rightarrow> (t, [], Err (BadPacket e))
      | Panic \<Rightarrow> (t, [], Panic))"

text \<open>The read loop: every datagram is cut to 1280 bytes; errors of a packet are skipped, a panic ends the process.\<close>

fun udp_readLoop :: "(time \<times> udpaddr \<times> bytes) list \<Rightarrow> 'db udp \<Rightarrow> 'db udp \<times> effect list \<times> bool" where
  "udp_readLoop [] t = (t, [], True)"
| "udp_readLoop ((now, from, dgram) # rest) t =
     (case handlePacket now from (take 1280 dgram) t of
        (t1, out, Panic) \<Rightarrow> (t1, out, False)
      | (t1, out, _) \<Rightarrow> (let (t2, out2, alive) = udp_readLoop rest t1 in (t2, out @ out2, alive)))"

text \<open>
  \<^verbatim>\<open>newUDP\<close>: the address the node advertises. \<^verbatim>\<open>mapper\<close> is the result of \<^verbatim>\<open>ExternalIP\<close> of the port mapper, if there
  is one; the second component tells whether a port mapping is requested.
\<close>

definition advertised :: "bytes option option \<Rightarrow> udpaddr \<Rightarrow> udpaddr \<times> bool" where
  "advertised mapper realaddr =
     (if mapper \<noteq> None \<and> \<not> IsLoopback (ua_IP realaddr) then (realaddr, True)
      else
        (case mapper of
           Some (Some ext) \<Rightarrow> (\<lparr>ua_IP = ext, ua_Port = ua_Port realaddr\<rparr>, False)
         | _ \<Rightarrow> (realaddr, False)))"

definition newUDP :: "nodeid \<Rightarrow> bytes option option \<Rightarrow> udpaddr \<Rightarrow> 'db nodeDB \<Rightarrow> 'db udp" where
  "newUDP ourID mapper localaddr db =
     (let realaddr = fst (advertised mapper localaddr)
      in \<lparr>u_id = ourID, u_ourEndpoint = makeEndpoint realaddr (of_int (ua_Port realaddr)),
          u_loop = new_loop, u_table = newTable ourID realaddr, u_db = db\<rparr>)"

text \<open>\<^verbatim>\<open>close\<close> closes the channel on which the loop ends; a second call panics.\<close>

definition udp_close :: "'db udp \<Rightarrow> (unit, 'db udp) res" where
  "udp_close t = (if ul_closed (u_loop t) then Panic else Ok (t\<lparr>u_loop := loop_close (u_loop t)\<rparr>))"

text \<open>\<^verbatim>\<open>Table.Close\<close>: the database, then the network; \<^verbatim>\<open>closes\<close> is whether the engine closes without an error.\<close>

definition table_Close :: "bool \<Rightarrow> ('db udp, db_error, unit) prog" where
  "table_Close closes t =
     (case db_close closes (u_db t) of
        (db, Ok _) \<Rightarrow>
          (case udp_close (t\<lparr>u_db := db\<rparr>) of Ok t1 \<Rightarrow> (t1, Ok ()) | _ \<Rightarrow> (t\<lparr>u_db := db\<rparr>, Panic))
      | (db, _) \<Rightarrow> (t\<lparr>u_db := db\<rparr>, Panic))"

text \<open>Closing answers all open requests; closing again panics.\<close>

lemma table_Close_once:
  assumes "table_Close closes t = (t1, Ok ())"
  shows "map snd (ul_done (u_loop t1)) = map snd (ul_done (u_loop t)) @ map (\<lambda>_. Some ErrClosed) (ul_plist (u_loop t))"
    and "ul_plist (u_loop t1) = []" "snd (table_Close c t1) = Panic"
  using assms
  by (auto simp: table_Close_def db_close_def udp_close_def loop_close_def comp_def split: if_splits prod.splits)

section \<open>Sizes of neighbors packets\<close>

lemma length_json_rpcNode_le: "json_rpcNode rn = Some v \<Longrightarrow> length v \<le> 1000"
  using length_IP_MarshalText [of "rn_IP rn"] length_dec_uint16 [of "rn_UDP rn"] length_dec_uint16 [of "rn_TCP rn"]
    length_json_id_le [of "rn_ID rn"]
  by (fastforce simp: json_rpcNode_def json_ip_def json_uint16_def)

lemma sum_list_le: "all_some (map f xs) = Some vs \<Longrightarrow> \<forall>x v. f x = Some v \<longrightarrow> length v \<le> k \<Longrightarrow>
   length vs = length xs \<and> sum_list (map length vs) \<le> k * length xs"
proof (induction xs arbitrary: vs)
  case (Cons x xs)
  then obtain v ws where v: "f x = Some v" "all_some (map f xs) = Some ws" "vs = v # ws"
    by (cases "f x") auto
  with Cons.IH [OF v(2) Cons.prems(2)] Cons.prems(2) have "length ws = length xs"
    "sum_list (map length ws) \<le> k * length xs" "length v \<le> k" by auto
  then show ?case by (simp add: v(3))
qed simp

lemma neighbors_length:
  assumes "json_packet (Neighbors rns e) = Some bs" "length rns \<le> 100"
  shows "length bs < 2 ^ 32"
proof -
  obtain vs where vs: "all_some (map json_rpcNode rns) = Some vs"
    and bs: "bs = json_object [json_field ''Nodes'' (if rns = [] then bytes_of ''null'' else json_array vs),
         json_field ''Expiration'' (json_uint64 e)]"
    using assms by auto
  have "length vs = length rns \<and> sum_list (map length vs) \<le> 1000 * length rns"
    by (rule sum_list_le [OF vs]) (use length_json_rpcNode_le in blast)
  then have "length vs \<le> 100" "sum_list (map length vs) \<le> 100000" using assms(2) by linarith+
  then have "sum_list (map length vs) + (length vs - 1) + length (dec (unat e)) < 200000"
    using length_dec_uint64 [of e] by linarith
  then show ?thesis by (simp add: bs json_uint64_def)
qed

lemma send_neighbors_none:
  assumes "2 \<le> length rns" "length rns \<le> 100"
  shows "fst (send a (Neighbors rns e) t) = []"
proof (cases "json_packet (Neighbors rns e)")
  case None
  then show ?thesis by (simp add: send_def encodePacket_def del: json_packet.simps)
next
  case (Some bs)
  have "256 \<le> length bs" using json_neighbors_length [OF Some] assms(1) by simp
  from encodePacket_oversized [OF Some this neighbors_length [OF Some assms(2)]] show ?thesis by (simp add: send_def)
qed

text \<open>With at most sixteen nodes everything goes into one packet.\<close>

lemma neighbor_chunks_one:
  "cnt = i + length ns \<Longrightarrow> length acc + length ns < maxNeighbors \<Longrightarrow>
   neighbor_chunks cnt i acc ns = (if ns = [] then [] else [acc @ map nodeToRPC ns])"
  by (induction ns arbitrary: i acc) (auto simp: Let_def)

lemma closest_length: "length (nbd_entries (closest tab target m)) = min m (length (all_entries tab))"
  by (simp add: closest_eq)

section \<open>The properties\<close>

lemma neighbors_one_packet:
  assumes "near = nbd_entries (closest tab target bucketSize)"
  shows "neighbor_chunks (length near) 0 [] near = (if near = [] then [] else [map nodeToRPC near])"
    and "length near \<le> 16"
proof -
  show l: "length near \<le> 16" unfolding assms closest_length by (simp add: bucketSize_def)
  show "neighbor_chunks (length near) 0 [] near = (if near = [] then [] else [map nodeToRPC near])"
    using neighbor_chunks_one [of "length near" 0 near "[]"] l by (simp add: maxNeighbors_def)
qed

text \<open>
  C36: A node whose table holds two or more nodes never answers a findnode request. The closest nodes
  all go into one neighbors packet, and a packet with two nodes is larger than the length byte can
  express; the error is dropped. The handler still reports success.
\<close>

theorem findnode_never_answered:
  assumes "2 \<le> length (all_entries (u_table t))"
  shows "case findnode_handle now from fromID e t of (t', out, r) \<Rightarrow> t' = t \<and> out = []"
proof -
  define near where "near = nbd_entries (closest (u_table t) (ByteHash256 (id_bytes fromID)) bucketSize)"
  note one = neighbors_one_packet [OF near_def]
  have "length near = min 16 (length (all_entries (u_table t)))"
    unfolding near_def closest_length by (simp add: bucketSize_def)
  then have "2 \<le> length near" using assms by simp
  then have "fst (send from (Neighbors (map nodeToRPC near) (expires_at now)) t) = []"
    using one(2) by (intro send_neighbors_none) simp_all
  then show ?thesis
    unfolding findnode_handle_def near_def [symmetric] Let_def one(1)
    by (simp split: res.split option.split)
qed

fun packet_expiry :: "packet \<Rightarrow> uint64" where
  "packet_expiry (Ping _ _ _ e) = e"
| "packet_expiry (Pong _ e) = e"
| "packet_expiry (Findnode _ e) = e"
| "packet_expiry (Neighbors _ e) = e"

lemma send_addr: "Datagram a bs \<in> set (fst (send addr req t)) \<Longrightarrow> a = addr"
  by (auto simp: send_def split: res.splits)

lemma expired_packet: "expired now (packet_expiry req) \<Longrightarrow> handle_packet now from fromID req t = (t, [], Err ErrExpired)"
  by (cases req) (simp_all add: ping_handle_def reply_handle_def findnode_handle_def)

lemma handle_packet_addr: "Datagram a bs \<in> set (fst (snd (handle_packet now from fromID req t))) \<Longrightarrow> a = from"
proof (cases req)
  case (Ping v f to_ep e)
  assume "Datagram a bs \<in> set (fst (snd (handle_packet now from fromID req t)))"
  with Ping show ?thesis by (auto simp: ping_handle_def Let_def dest!: send_addr split: if_splits res.splits)
next
  case (Findnode i e)
  assume "Datagram a bs \<in> set (fst (snd (handle_packet now from fromID req t)))"
  with Findnode show ?thesis
    by (auto simp: findnode_handle_def Let_def dest!: send_addr split: if_splits res.splits option.splits)
qed (auto simp: reply_handle_def split: if_splits res.splits)

text \<open>
  No answer without a bond. A packet that is expired changes nothing and sends nothing; a findnode
  request of a node that is not in the database changes nothing and sends nothing either; and whatever
  packet arrives, the handlers send only to the address it came from.
\<close>

theorem no_answer_without_bond:
  "(expired now (packet_expiry req) \<longrightarrow> handle_packet now from fromID req t = (t, [], Err ErrExpired)) \<and>
   (packet_type req = findnodePacket \<and> \<not> expired now (packet_expiry req) \<and> db_node fromID (u_db t) = Ok None \<longrightarrow>
      handle_packet now from fromID req t = (t, [], Err ErrUnknownNode)) \<and>
   (\<forall>a bs. Datagram a bs \<in> set (fst (snd (handle_packet now from fromID req t))) \<longrightarrow> a = from)"
proof -
  have "packet_type req = findnodePacket \<and> \<not> expired now (packet_expiry req) \<and> db_node fromID (u_db t) = Ok None \<longrightarrow>
      handle_packet now from fromID req t = (t, [], Err ErrUnknownNode)"
    by (cases req) (auto simp: findnode_handle_def packet_types)
  then show ?thesis using expired_packet [of now req "from" fromID t] handle_packet_addr [of _ _ now "from" fromID req t] by blast
qed

section \<open>A ping and its answer\<close>

lemma send_control:
  assumes "packet_ok req" "packet_type req \<in> {pingPacket, pongPacket}"
  shows "\<exists>d. send a req t = ([Datagram a d], Ok ()) \<and> decodePacket d = Ok (normal_packet req, u_id t)"
proof -
  have "\<forall>bs. json_packet req = Some bs \<longrightarrow> length bs < 2 ^ 32"
    using control_packet_small [OF assms] by fastforce
  from encode_decode [OF assms(1) this, of "[]" "u_id t"] assms(2) obtain d where
    "encodePacket (u_id t) req = Ok d" "decodePacket d = Ok (normal_packet req, u_id t)"
    by (auto split: res.splits)
  then show ?thesis by (simp add: send_def)
qed

lemma expires_later:
  assumes "0 \<le> now" "now < 2 ^ 61 * second" "now' \<le> now + 19 * second"
  shows "\<not> expired now' (expires_at now)"
proof -
  let ?x = "(now + expiration) div second"
  have x: "0 \<le> ?x" "?x < 2 ^ 62"
    using assms(1,2) by (simp_all add: expiration_def pos_imp_zdiv_nonneg_iff div_less_iff_less_mult)
  have "now + expiration - second < ?x * second" 
    using div_mult_mod_eq [of "now + expiration" second] pos_mod_bound [of second "now + expiration"] by linarith
  then have "now + 19 * second \<le> ?x * second" by (simp add: expiration_def)
  then show ?thesis using unix_time_of_int [OF x] assms(3) by (simp add: expired_def expires_at_def)
qed

lemma makeEndpoint_ok: "ip_ok (ip_slice (ep_IP (makeEndpoint addr p)))"
  by (auto simp: makeEndpoint_def ip_ok_def ip_slice_def To4_def To16_def split: option.splits if_splits)

lemma udp_ping_registers:
  assumes "\<not> ul_closed (u_loop t)" "\<forall>p \<in> set (ul_plist (u_loop t)). pe_deadline p < now + 2 * respTimeout"
    and "packet_ok (Ping Version (u_ourEndpoint t) (makeEndpoint toaddr 0) (expires_at now))"
  obtains t1 d p where "udp_ping now toid toaddr t = (t1, True, [Datagram toaddr d])"
    "decodePacket d = Ok (normal_packet (Ping Version (u_ourEndpoint t) (makeEndpoint toaddr 0) (expires_at now)), u_id t)"
    "u_id t1 = u_id t" "\<not> ul_closed (u_loop t1)" "ul_plist (u_loop t1) = ul_plist (u_loop t) @ [p]"
    "ul_done (u_loop t1) = ul_done (u_loop t)" "pe_from p = toid" "pe_ptype p = pongPacket" "pe_callback p = Accept_first"
    "pe_deadline p = now + respTimeout"
proof -
  let ?req = "Ping Version (u_ourEndpoint t) (makeEndpoint toaddr 0) (expires_at now)"
  let ?t1 = "t\<lparr>u_loop := add_pending toid pongPacket Accept_first now (resetTimeout now (u_loop t))\<rparr>"
  obtain d where d: "send toaddr ?req ?t1 = ([Datagram toaddr d], Ok ())" "decodePacket d = Ok (normal_packet ?req, u_id ?t1)"
    using send_control [OF assms(3), of toaddr ?t1] by auto
  have "udp_ping now toid toaddr t = (?t1, True, [Datagram toaddr d])"
    using assms(1) d(1) by (simp add: udp_ping_def udp_pending_def)
  with d(2) show ?thesis
    using that [of ?t1 d] resetTimeout_frame [OF assms(2)] assms(1) by (auto simp: add_pending_def)
qed

text \<open>The pinged node answers with one pong and bonds unless it was waiting for the ping.\<close>

lemma ping_handle_answers:
  assumes "decodePacket d = Ok (Ping Version f g e, i)" "\<not> expired now e" "\<not> ul_closed (u_loop t)" "loop_ok (u_loop t)"
  obtains t1 d' where "handlePacket now addr d t = (t1, Datagram addr d' #
      (if \<exists>q \<in> set (ul_plist (resetTimeout now (u_loop t))). pe_from q = i \<and> pe_ptype q = pingPacket
       then [] else [Start_bond True i addr (ep_TCP f)]), Ok ())"
    "decodePacket d' = Ok (normal_packet (Pong (makeEndpoint addr (ep_TCP f)) (expires_at now)), u_id t)"
proof -
  let ?pong = "Pong (makeEndpoint addr (ep_TCP f)) (expires_at now)"
  obtain d' where pong: "send addr ?pong t = ([Datagram addr d'], Ok ())" "decodePacket d' = Ok (normal_packet ?pong, u_id t)"
    using send_control [of ?pong addr t] makeEndpoint_ok [of addr "ep_TCP f"] by auto
  obtain L m where L: "got_reply i (Ping Version f g e) (resetTimeout now (u_loop t)) = Ok (L, m)"
    "m \<longleftrightarrow> (\<exists>q \<in> set (ul_plist (resetTimeout now (u_loop t))). pe_from q = i \<and> pe_ptype q = pingPacket)"
    using got_reply_ok [OF resetTimeout_ok [OF assms(4)], of i "Ping Version f g e" now] by auto
  have "handlePacket now addr d t =
      (t\<lparr>u_loop := L\<rparr>, Datagram addr d' # (if m then [] else [Start_bond True i addr (ep_TCP f)]), Ok ())"
    using assms(1,2,3) pong(1) L(1) by (simp add: handlePacket_def ping_handle_def handleReply_def)
  with pong(2) L(2) show ?thesis using that by simp
qed

text \<open>The pong completes the request that waits for it.\<close>

lemma pong_completes:
  assumes "decodePacket d = Ok (Pong ep e, i)" "\<not> expired now e" "\<not> ul_closed (u_loop t)"
    and "ul_plist (u_loop t) = ps @ [p]" "\<forall>q \<in> set (ps @ [p]). pe_deadline q < now + 2 * respTimeout"
    and "\<forall>q \<in> set ps. \<not> (pe_from q = i \<and> pe_ptype q = pongPacket)"
    and "pe_from p = i" "pe_ptype p = pongPacket" "pe_callback p = Accept_first"
  shows "\<exists>t1. handlePacket now addr d t = (t1, [], Ok ()) \<and> ul_plist (u_loop t1) = ps \<and>
    ul_done (u_loop t1) = ul_done (u_loop t) @ [(p, None)]"
proof -
  note fr = resetTimeout_frame [OF assms(5) [folded assms(4)]]
  have "dispatch i (Pong ep e) (ps @ p # []) = Ok (ps @ [], Some p, True)"
    using assms(6-9) by (intro dispatch_first) simp_all
  then have "got_reply i (Pong ep e) (resetTimeout now (u_loop t)) =
      Ok ((resetTimeout now (u_loop t))\<lparr>ul_plist := ps, ul_done := ul_done (u_loop t) @ [(p, None)]\<rparr>, True)"
    using fr assms(4) by (simp add: got_reply_def)
  then show ?thesis using assms(1-3) by (simp add: handlePacket_def reply_handle_def handleReply_def)
qed

text \<open>
  C37: A ping is answered. When one node pings another and both packets arrive within nineteen seconds,
  the second node sends exactly one datagram, a pong to the first, and starts to bond with it unless it
  was waiting for this ping; the pong completes the request of the first node without an error and
  leaves its other requests alone.
\<close>

theorem ping_is_answered:
  assumes a: "\<not> ul_closed (u_loop a)" "\<forall>p \<in> set (ul_plist (u_loop a)). pe_deadline p < t0 + 2 * respTimeout"
      "\<forall>p \<in> set (ul_plist (u_loop a)). \<not> (pe_from p = u_id b \<and> pe_ptype p = pongPacket)"
      "ip_ok (ip_slice (ep_IP (u_ourEndpoint a)))"
    and b: "\<not> ul_closed (u_loop b)" "loop_ok (u_loop b)"
    and times: "0 \<le> t0" "t0 \<le> t1" "t1 \<le> t0 + 19 * second" "t1 < 2 ^ 61 * second" "t0 \<le> t2" "t2 \<le> t1 + 19 * second"
  shows "\<exists>a1 d b1 bonds d' a2 p.
    udp_ping t0 (u_id b) addrB a = (a1, True, [Datagram addrB d]) \<and>
    handlePacket t1 addrA d b = (b1, Datagram addrA d' # bonds, Ok ()) \<and>
    bonds = (if \<exists>q \<in> set (ul_plist (resetTimeout t1 (u_loop b))). pe_from q = u_id a \<and> pe_ptype q = pingPacket
             then [] else [Start_bond True (u_id a) addrA (ep_TCP (u_ourEndpoint a))]) \<and>
    handlePacket t2 addrB d' a1 = (a2, [], Ok ()) \<and>
    ul_plist (u_loop a1) = ul_plist (u_loop a) @ [p] \<and> ul_plist (u_loop a2) = ul_plist (u_loop a) \<and>
    ul_done (u_loop a2) = ul_done (u_loop a) @ [(p, None)]"
proof -
  let ?ping = "Ping Version (u_ourEndpoint a) (makeEndpoint addrB 0) (expires_at t0)"
  have "packet_ok ?ping" using a(4) makeEndpoint_ok by (simp add: Version_def)
  from udp_ping_registers [OF a(1,2) this, of "u_id b"] obtain a1 d p where
    ping: "udp_ping t0 (u_id b) addrB a = (a1, True, [Datagram addrB d])" "decodePacket d = Ok (normal_packet ?ping, u_id a)"
    and a1: "\<not> ul_closed (u_loop a1)" "ul_plist (u_loop a1) = ul_plist (u_loop a) @ [p]"
      "ul_done (u_loop a1) = ul_done (u_loop a)"
    and p: "pe_from p = u_id b" "pe_ptype p = pongPacket" "pe_callback p = Accept_first" "pe_deadline p = t0 + respTimeout" .
  have tcp: "ep_TCP (normal_endpoint (u_ourEndpoint a)) = ep_TCP (u_ourEndpoint a)" by (simp add: normal_endpoint_def)
  have "\<not> expired t1 (expires_at t0)" using times by (intro expires_later) auto
  from ping_handle_answers [OF ping(2) [unfolded normal_packet.simps] this b, of addrA] obtain b1 d' where
    hb: "handlePacket t1 addrA d b = (b1, Datagram addrA d' #
      (if \<exists>q \<in> set (ul_plist (resetTimeout t1 (u_loop b))). pe_from q = u_id a \<and> pe_ptype q = pingPacket
       then [] else [Start_bond True (u_id a) addrA (ep_TCP (u_ourEndpoint a))]), Ok ())"
    and d': "decodePacket d' = Ok (Pong (normal_endpoint (makeEndpoint addrA (ep_TCP (u_ourEndpoint a)))) (expires_at t1), u_id b)"
    unfolding tcp normal_packet.simps .
  have "\<forall>q \<in> set (ul_plist (u_loop a) @ [p]). pe_deadline q < t2 + 2 * respTimeout"
    using a(2) p(4) times(5) by (auto simp: respTimeout_def)
  moreover have "\<not> expired t2 (expires_at t1)" using times by (intro expires_later) auto
  ultimately obtain a2 where "handlePacket t2 addrB d' a1 = (a2, [], Ok ())" "ul_plist (u_loop a2) = ul_plist (u_loop a)"
      "ul_done (u_loop a2) = ul_done (u_loop a) @ [(p, None)]"
    using pong_completes [OF d' _ a1(1,2) _ a(3) p(1-3), where now = t2 and addr = addrB] a1(3) by auto
  with ping(1) hb a1(2) show ?thesis by blast
qed

section \<open>Examples\<close>

definition demo_udp :: "byte \<Rightarrow> (bytes \<times> bytes) list udp" where
  "demo_udp k = newUDP (id_of [k]) None \<lparr>ua_IP = [10, 0, 0, k], ua_Port = 9001\<rparr> demo_db"

theorem findnode_never_answered_witness:
  "case findnode_handle 0 \<lparr>ua_IP = [10, 0, 0, 3], ua_Port = 9001\<rparr> (id_of [3]) 100
     ((demo_udp 1)\<lparr>u_table := \<lparr>buckets = [\<lparr>lastLookup = 0, entries =
          [newNode [10, 0, 0, 4] 9001 9001 (id_of [4]), newNode [10, 0, 0, 5] 9001 9001 (id_of [5])]\<rparr>],
        nursery = [], self = newNode [10, 0, 0, 1] 9001 9001 (id_of [1])\<rparr>\<rparr>) of (t', out, r) \<Rightarrow> out = []"
proof -
  let ?t = "(demo_udp 1)\<lparr>u_table := \<lparr>buckets = [\<lparr>lastLookup = 0, entries =
          [newNode [10, 0, 0, 4] 9001 9001 (id_of [4]), newNode [10, 0, 0, 5] 9001 9001 (id_of [5])]\<rparr>],
        nursery = [], self = newNode [10, 0, 0, 1] 9001 9001 (id_of [1])\<rparr>\<rparr>"
  have "2 \<le> length (all_entries (u_table ?t))" by (simp add: all_entries_def)
  from findnode_never_answered [OF this, of 0 "\<lparr>ua_IP = [10, 0, 0, 3], ua_Port = 9001\<rparr>" "id_of [3]" 100]
  show ?thesis by (simp split: prod.splits)
qed

theorem no_answer_without_bond_witness:
  "handle_packet 7 \<lparr>ua_IP = [10, 0, 0, 3], ua_Port = 9001\<rparr> (id_of [3]) (Findnode (id_of [9]) 100) (demo_udp 1) =
     (demo_udp 1, [], Err ErrUnknownNode)"
proof -
  have "\<not> expired 7 100" using unix_time_of_int [of 100] by (simp add: expired_def)
  moreover have "db_node (id_of [3]) (u_db (demo_udp 1)) = Ok None"
    by (simp add: demo_udp_def newUDP_def Let_def db_node_def demo_db_got)
  ultimately show ?thesis
    using no_answer_without_bond [of 7 "Findnode (id_of [9]) 100" "\<lparr>ua_IP = [10, 0, 0, 3], ua_Port = 9001\<rparr>" "id_of [3]" "demo_udp 1"]
    by simp
qed

theorem ping_is_answered_witness:
  "\<exists>a1 d b1 d' a2 p.
    udp_ping 0 (id_of [2]) \<lparr>ua_IP = [10, 0, 0, 2], ua_Port = 9001\<rparr> (demo_udp 1) =
      (a1, True, [Datagram \<lparr>ua_IP = [10, 0, 0, 2], ua_Port = 9001\<rparr> d]) \<and>
    handlePacket 1 \<lparr>ua_IP = [10, 0, 0, 1], ua_Port = 9001\<rparr> d (demo_udp 2) =
      (b1, [Datagram \<lparr>ua_IP = [10, 0, 0, 1], ua_Port = 9001\<rparr> d',
            Start_bond True (id_of [1]) \<lparr>ua_IP = [10, 0, 0, 1], ua_Port = 9001\<rparr> 9001], Ok ()) \<and>
    handlePacket 2 \<lparr>ua_IP = [10, 0, 0, 2], ua_Port = 9001\<rparr> d' a1 = (a2, [], Ok ()) \<and>
    ul_done (u_loop a2) = [(p, None)]"
proof -
  have ids: "u_id (demo_udp 1) = id_of [1]" "u_id (demo_udp 2) = id_of [2]"
    and loops: "u_loop (demo_udp k) = new_loop" "resetTimeout t new_loop = new_loop"
    and ep: "u_ourEndpoint (demo_udp 1) = \<lparr>ep_IP = Some [10, 0, 0, 1], ep_UDP = 9001, ep_TCP = 9001\<rparr>" for k t
    by (simp_all add: demo_udp_def newUDP_def advertised_def makeEndpoint_def To4_def new_loop_def resetTimeout_def)
  have empty: "ul_plist new_loop = []" "\<not> ul_closed new_loop" "ul_done new_loop = []" by (simp_all add: new_loop_def)
  show ?thesis
    using ping_is_answered [of "demo_udp 1" 0 "demo_udp 2" 1 2 "\<lparr>ua_IP = [10, 0, 0, 2], ua_Port = 9001\<rparr>"
        "\<lparr>ua_IP = [10, 0, 0, 1], ua_Port = 9001\<rparr>"]
      new_loop_ok
    by (auto simp: ids loops empty ep To4_def ip_ok_def ip_slice_def)
qed

end
