(* ===== verification/Bond.thy ===== *)
theory Bond
  imports Discovery
begin

text \<open>
  Bonding (discover/table.go): the exchange of pings that makes another node known, and the insertion
  of a bonded node into the table. One call of \<^verbatim>\<open>bond\<close> is a function of the answers the network gives; how
  calls that run at the same time share the registry of bonding processes and the sixteen slots is the subject of
  theory Bonding.
\<close>

definition maxBondingPingPongs :: nat where "maxBondingPingPongs = 16"

text \<open>
  The transport as the table sees it while a call runs: the time at which the call starts, what a ping ends with and
  when, and the nodes and the error a query returns. A query that times out still returns the nodes it has collected.
\<close>

record network =
  nw_now :: time
  nw_ping :: "nodeid \<Rightarrow> udpaddr \<Rightarrow> rpc_error option \<times> time"
  nw_findnode :: "nodeid \<Rightarrow> udpaddr \<Rightarrow> nodeid \<Rightarrow> node list \<times> rpc_error option"

datatype bond_error = PingFailed rpc_error | BondDbErr db_error

definition on_db :: "('db nodeDB, db_error, 'a) prog \<Rightarrow> ('db udp, bond_error, 'a) prog" where
  "on_db m t =
     (case m (u_db t) of
        (db, Ok x) \<Rightarrow> (t\<lparr>u_db := db\<rparr>, Ok x)
      | (db, Err e) \<Rightarrow> (t\<lparr>u_db := db\<rparr>, Err (BondDbErr e))
      | (db, Panic) \<Rightarrow> (t\<lparr>u_db := db\<rparr>, Panic))"

definition tab_ping :: "network \<Rightarrow> nodeid \<Rightarrow> udpaddr \<Rightarrow> ('db udp, bond_error, unit) prog" where
  "tab_ping nw i addr =
     prog_bind (on_db (updateLastPing i (nw_now nw))) (\<lambda>_.
       case nw_ping nw i addr of
         (Some e, _) \<Rightarrow> fail (PingFailed e)
       | (None, later) \<Rightarrow>
           prog_bind (on_db (updateLastPong i later)) (\<lambda>_ t. (t\<lparr>u_db := ensureExpire (u_db t)\<rparr>, Ok ())))"

text \<open>
  \<^verbatim>\<open>pingpong\<close> without the slot: the node the process ends with. Unless the other node has just pinged (the argument
  \<^verbatim>\<open>pinged\<close> of the source), the call waits for its ping, but does not look at whether it comes; an error of the database is
  dropped.
\<close>

definition pingpong :: "network \<Rightarrow> nodeid \<Rightarrow> udpaddr \<Rightarrow> uint16 \<Rightarrow> ('db udp, bond_error, node) prog" where
  "pingpong nw i addr tcpPort =
     prog_bind (tab_ping nw i addr) (\<lambda>_ t.
       let n = newNode (ua_IP addr) (of_int (ua_Port addr)) tcpPort i in
       case on_db (updateNode n) t of
         (t1, Panic) \<Rightarrow> (t1, Panic)
       | (t1, _) \<Rightarrow> (t1, Ok n))"

text \<open>The end of \<^verbatim>\<open>bond\<close>: move the node to the front of its bucket, or ping the last entry of a full one and try to replace it.\<close>

definition bond_place :: "network \<Rightarrow> node \<Rightarrow> ('db udp, bond_error, unit) prog" where
  "bond_place nw n t =
     (let i = bucket_index (u_table t) (node_Hash n); b = buckets (u_table t) ! i in
      if \<not> snd (bump b n) \<and> length (entries b) = bucketSize then
        (let oldest = entries b ! (bucketSize - 1) in
         case tab_ping nw (node_ID oldest) (node_addr oldest) t of
           (t1, Panic) \<Rightarrow> (t1, Panic)
         | (t1, Ok _) \<Rightarrow> (t1\<lparr>u_table := bond_insert True n (u_table t1)\<rparr>, Ok ())
         | (t1, Err _) \<Rightarrow> (t1\<lparr>u_table := bond_insert False n (u_table t1)\<rparr>, Ok ()))
      else (t\<lparr>u_table := bond_insert False n (u_table t)\<rparr>, Ok ()))"

text \<open>
  The first half of \<^verbatim>\<open>bond\<close>, for a node no other process is bonding with: ping it unless it is recorded without
  failures. The result is the node to go on with and the error to return.
\<close>

definition bond_ask :: "network \<Rightarrow> nodeid \<Rightarrow> udpaddr \<Rightarrow> uint16 \<Rightarrow> node option \<Rightarrow>
    ('db udp, unit, node option \<times> bond_error option) prog" where
  "bond_ask nw i addr tcpPort known t =
     (let fails = (case known of None \<Rightarrow> 0 | Some _ \<Rightarrow> findFails i (u_db t)) in
      if known = None \<or> fails > 0
      then (case pingpong nw i addr tcpPort t of
              (t1, Ok n) \<Rightarrow> (t1, Ok (Some n, None))
            | (t1, Err e) \<Rightarrow> (t1, Ok (known, Some e))
            | (t1, Panic) \<Rightarrow> (t1, Panic))
      else (t, Ok (known, None)))"

definition bond :: "network \<Rightarrow> nodeid \<Rightarrow> udpaddr \<Rightarrow> uint16 \<Rightarrow> ('db udp, unit, node option \<times> bond_error option) prog" where
  "bond nw i addr tcpPort t =
     (case db_node i (u_db t) of
        Ok known \<Rightarrow>
          (case bond_ask nw i addr tcpPort known t of
             (t1, Ok (Some n, e)) \<Rightarrow>
               (case bond_place nw n t1 of
                  (t2, Ok _) \<Rightarrow>
                    (case on_db (updateFindFails i 0) t2 of
                       (t3, Panic) \<Rightarrow> (t3, Panic)
                     | (t3, _) \<Rightarrow> (t3, Ok (Some n, e)))
                | (t2, _) \<Rightarrow> (t2, Panic))
           | (t1, r) \<Rightarrow> (t1, r))
      | _ \<Rightarrow> (t, Panic))"

text \<open>\<^verbatim>\<open>bondall\<close> starts one process per node; the answers arrive in any order, nil ones are dropped.\<close>

fun bondall :: "network \<Rightarrow> node list \<Rightarrow> ('db udp, unit, node list) prog" where
  "bondall nw [] t = (t, Ok [])"
| "bondall nw (n # ns) t =
     (case bond nw (node_ID n) (node_addr n) (node_TCP n) t of
        (t1, Ok (r, _)) \<Rightarrow>
          (case bondall nw ns t1 of
             (t2, Ok rs) \<Rightarrow> (t2, Ok ((case r of None \<Rightarrow> [] | Some x \<Rightarrow> [x]) @ rs))
           | (t2, e) \<Rightarrow> (t2, Panic))
      | (t1, _) \<Rightarrow> (t1, Panic))"

section \<open>Outcomes of one call\<close>

lemma on_db_Ok: "m (u_db t) = (db, Ok x) \<Longrightarrow> on_db m t = (t\<lparr>u_db := db\<rparr>, Ok x)"
  by (simp add: on_db_def)

definition sane :: "time \<Rightarrow> bool" where
  "sane t \<longleftrightarrow> 0 \<le> t \<and> t < 2 ^ 62 * second"

definition network_ok :: "network \<Rightarrow> bool" where
  "network_ok nw \<longleftrightarrow> sane (nw_now nw) \<and> (\<forall>i a. sane (snd (nw_ping nw i a)))"

text \<open>A database after writes of contact times: the nodes and the failure counts are the same.\<close>

definition times_only :: "'db nodeDB \<Rightarrow> 'db nodeDB \<Rightarrow> bool" where
  "times_only db db' \<longleftrightarrow> db_ok db' \<and> ndb_self db' = ndb_self db \<and>
     (\<forall>j. db_node j db' = db_node j db \<and> findFails j db' = findFails j db)"

lemma sane_secs:
  assumes "sane t"
  shows "0 \<le> t div second" "t div second < 2 ^ 62" "- (2 ^ 63) \<le> t div second \<and> t div second < 2 ^ 63"
  using assms seconds_bounds [of t] by (auto simp: sane_def)

lemma store_time:
  assumes "db_ok db" "sane t" "f = nodeDBDiscoverPing \<or> f = nodeDBDiscoverPong"
  obtains db' where "storeInt64 (makeKey i f) (t div second) db = (db', Ok ())" "times_only db db'"
    "fetchInt64 (makeKey i f) db' = t div second"
proof -
  have f: "plain_field f" "f \<noteq> nodeDBDiscoverRoot" "f \<noteq> nodeDBDiscoverFindFails" using assms(3) by auto
  obtain db' where db': "storeInt64 (makeKey i f) (t div second) db = (db', Ok ())" "db_ok db'"
    "fetchInt64 (makeKey i f) db' = t div second" "\<And>k. k \<noteq> makeKey i f \<Longrightarrow> got k db' = got k db" "ndb_self db' = ndb_self db"
    using storeInt64_fetch [OF assms(1) f(1)] sane_secs(3) [OF assms(2)] by blast
  have other: "got (makeKey j g) db' = got (makeKey j g) db" if "plain_field g" "(j, g) \<noteq> (i, f)" for j g
    using that f(1) by (intro db'(4)) (simp add: makeKey_eq)
  have "db_node j db' = db_node j db \<and> findFails j db' = findFails j db" for j
    using node_other [OF other] fetch_other [OF other] f by (simp add: findFails_def)
  then have "times_only db db'" using db'(2,5) by (simp add: times_only_def)
  with that db'(1,3) show ?thesis by blast
qed

lemma times_only_trans: "times_only db db1 \<Longrightarrow> times_only db1 db2 \<Longrightarrow> times_only db db2"
  by (simp add: times_only_def)

lemma times_only_expire: "times_only db db1 \<Longrightarrow> times_only db (ensureExpire db1)"
  by (simp add: times_only_def ensureExpire_def db_ok_def db_node_def findFails_def fetchInt64_def)

lemma lastPong_expire: "lastPong i (ensureExpire db) = lastPong i db"
  by (simp add: lastPong_def fetchInt64_def ensureExpire_def)

lemma tab_ping_ok:
  assumes "db_ok (u_db t)" "network_ok nw" "nw_ping nw i addr = (err, later)"
  obtains db1 where "tab_ping nw i addr t = (t\<lparr>u_db := db1\<rparr>, case err of None \<Rightarrow> Ok () | Some e \<Rightarrow> Err (PingFailed e))"
    "times_only (u_db t) db1" "err = None \<longrightarrow> lastPong i db1 = later div second * second"
proof -
  have "sane (snd (nw_ping nw i addr))" using assms(2) by (simp add: network_ok_def)
  then have sane: "sane (nw_now nw)" "sane later" using assms(2,3) by (simp_all add: network_ok_def)
  obtain d1 where d1: "storeInt64 (makeKey i nodeDBDiscoverPing) (nw_now nw div second) (u_db t) = (d1, Ok ())"
    "times_only (u_db t) d1"
    using store_time [OF assms(1) sane(1), of nodeDBDiscoverPing i] by blast
  have ok1: "db_ok d1" using d1(2) by (simp add: times_only_def)
  obtain d2 where d2: "storeInt64 (makeKey i nodeDBDiscoverPong) (later div second) d1 = (d2, Ok ())" "times_only d1 d2"
    "fetchInt64 (makeKey i nodeDBDiscoverPong) d2 = later div second"
    using store_time [OF ok1 sane(2), of nodeDBDiscoverPong i] by blast
  have p1: "on_db (updateLastPing i (nw_now nw)) t = (t\<lparr>u_db := d1\<rparr>, Ok ())"
    by (rule on_db_Ok) (simp add: updateLastPing_def d1(1))
  have p2: "on_db (updateLastPong i later) (t\<lparr>u_db := d1\<rparr>) = (t\<lparr>u_db := d2\<rparr>, Ok ())"
    using on_db_Ok [of "updateLastPong i later" "t\<lparr>u_db := d1\<rparr>" d2 "()"] d2(1) by (simp add: updateLastPong_def)
  show ?thesis
  proof (cases err)
    case (Some e)
    then have "tab_ping nw i addr t = (t\<lparr>u_db := d1\<rparr>, Err (PingFailed e))"
      unfolding tab_ping_def by (simp add: prog_bind_def p1 assms(3) fail_def)
    with Some d1(2) that show ?thesis by simp
  next
    case None
    then have "tab_ping nw i addr t = (t\<lparr>u_db := ensureExpire d2\<rparr>, Ok ())"
      unfolding tab_ping_def by (simp add: prog_bind_def p1 p2 assms(3))
    moreover have "lastPong i d2 = later div second * second"
      using unix_time_of_int [OF sane_secs(1,2) [OF sane(2)]] by (simp add: lastPong_def d2(3))
    ultimately show ?thesis
      using that [of "ensureExpire d2"] times_only_expire [OF times_only_trans [OF d1(2) d2(2)]] None
      by (simp add: lastPong_expire)
  qed
qed

lemma bond_place_ok:
  assumes "db_ok (u_db t)" "network_ok nw"
  obtains db1 r where "bond_place nw n t = (t\<lparr>u_table := bond_insert r n (u_table t), u_db := db1\<rparr>, Ok ())"
    "times_only (u_db t) db1"
    "r \<longrightarrow> (let b = buckets (u_table t) ! bucket_index (u_table t) (node_Hash n); o' = entries b ! 15 in
       length (entries b) = 16 \<and> fst (nw_ping nw (node_ID o') (node_addr o')) = None)"
proof -
  let ?b = "buckets (u_table t) ! bucket_index (u_table t) (node_Hash n)"
  show ?thesis
  proof (cases "\<not> snd (bump ?b n) \<and> length (entries ?b) = bucketSize")
    case False
    then have "bond_place nw n t = (t\<lparr>u_table := bond_insert False n (u_table t)\<rparr>, Ok ())"
      unfolding bond_place_def Let_def by (simp only: if_False)
    then have "bond_place nw n t = (t\<lparr>u_table := bond_insert False n (u_table t), u_db := u_db t\<rparr>, Ok ())"
      by (cases t) simp
    then show ?thesis using that [of "u_db t" False] assms(1) by (simp add: times_only_def)
  next
    case True
    let ?o = "entries ?b ! 15"
    obtain err later where p: "nw_ping nw (node_ID ?o) (node_addr ?o) = (err, later)" by fastforce
    obtain db1 where db1: "tab_ping nw (node_ID ?o) (node_addr ?o) t =
        (t\<lparr>u_db := db1\<rparr>, case err of None \<Rightarrow> Ok () | Some e \<Rightarrow> Err (PingFailed e))" "times_only (u_db t) db1"
      using tab_ping_ok [OF assms p] by blast
    then have "bond_place nw n t = (t\<lparr>u_table := bond_insert (err = None) n (u_table t), u_db := db1\<rparr>, Ok ())"
      using True by (cases err) (simp_all add: bond_place_def Let_def bucketSize_def)
    then show ?thesis using that [of db1 "err = None"] db1(2) True p by (simp add: bucketSize_def Let_def)
  qed
qed

text \<open>The exchange: on an answer the node is recorded, otherwise only the time of the ping is.\<close>

lemma pingpong_ok:
  assumes "db_ok (u_db t)" "network_ok nw" "nw_ping nw i addr = (err, later)" "ip_ok (ua_IP addr)"
  obtains db1 where
    "pingpong nw i addr tcp t = (t\<lparr>u_db := db1\<rparr>,
       case err of None \<Rightarrow> Ok (newNode (ua_IP addr) (of_int (ua_Port addr)) tcp i) | Some e \<Rightarrow> Err (PingFailed e))"
    "db_ok db1" "ndb_self db1 = ndb_self (u_db t)" "\<And>j. findFails j db1 = findFails j (u_db t)"
    "\<And>j. db_node j db1 =
       (if j = i \<and> err = None
        then Ok (Some (newNode (normal_ip (ua_IP addr)) (of_int (ua_Port addr)) tcp i)) else db_node j (u_db t))"
proof -
  obtain d1 where d1: "tab_ping nw i addr t = (t\<lparr>u_db := d1\<rparr>, case err of None \<Rightarrow> Ok () | Some e \<Rightarrow> Err (PingFailed e))"
    "times_only (u_db t) d1" using tab_ping_ok [OF assms(1-3)] by blast
  show ?thesis
  proof (cases err)
    case (Some e)
    then have "pingpong nw i addr tcp t = (t\<lparr>u_db := d1\<rparr>, Err (PingFailed e))"
      unfolding pingpong_def by (simp add: prog_bind_def d1(1))
    then show ?thesis using that [of d1] Some d1(2) by (simp add: times_only_def)
  next
    case None
    let ?n = "newNode (ua_IP addr) (of_int (ua_Port addr)) tcp i"
    have ok: "db_ok d1" using d1(2) by (simp add: times_only_def)
    obtain d2 where d2: "updateNode ?n d1 = (d2, Ok ())" "db_ok d2"
      "\<forall>j. db_node j d2 = (if j = i then Ok (Some (?n\<lparr>node_IP := normal_ip (ua_IP addr)\<rparr>)) else db_node j d1)"
      "\<forall>j. lastPing j d2 = lastPing j d1 \<and> lastPong j d2 = lastPong j d1 \<and> findFails j d2 = findFails j d1"
      using updateNode_stores [OF ok, of ?n] assms(4) by auto
    have "on_db (updateNode ?n) (t\<lparr>u_db := d1\<rparr>) = (t\<lparr>u_db := d2\<rparr>, Ok ())"
      using on_db_Ok [of "updateNode ?n" "t\<lparr>u_db := d1\<rparr>" d2 "()"] d2(1) by simp
    then have "pingpong nw i addr tcp t = (t\<lparr>u_db := d2\<rparr>, Ok ?n)"
      unfolding pingpong_def using None by (simp add: prog_bind_def d1(1))
    moreover have "ndb_self d2 = ndb_self d1"
      using d2(1) by (auto simp: updateNode_def on_storage_def fail_def split: option.splits prod.splits res.splits)
    moreover have "?n\<lparr>node_IP := normal_ip (ua_IP addr)\<rparr> = newNode (normal_ip (ua_IP addr)) (of_int (ua_Port addr)) tcp i"
      by (simp add: newNode_def)
    ultimately show ?thesis using that [of d2] d1(2) d2(2-4) None by (auto simp: times_only_def)
  qed
qed

lemma fails_keep_nodes:
  assumes "db_ok db"
  obtains db' where "updateFindFails i x db = (db', Ok ())" "db_ok db'" "\<And>j. db_node j db' = db_node j db"
proof -
  obtain db' where db': "storeInt64 (makeKey i nodeDBDiscoverFindFails) x db = (db', Ok ())" "db_ok db'"
    "got (makeKey i nodeDBDiscoverFindFails) db' = Some (PutVarint x)"
    "\<And>k. k \<noteq> makeKey i nodeDBDiscoverFindFails \<Longrightarrow> got k db' = got k db"
    by (rule storeInt64_keeps [OF assms fields_plain(4), of i x]) blast
  have "db_node j db' = db_node j db" for j
    by (rule node_other) (rule db'(4), simp add: makeKey_eq)
  with that db' show ?thesis by (simp add: updateFindFails_def)
qed

lemma reset_fails:
  assumes "db_ok db"
  obtains db' where "updateFindFails i 0 db = (db', Ok ())" "db_ok db'" "findFails i db' = 0"
    "\<And>j. db_node j db' = db_node j db"
proof -
  obtain db' where db': "storeInt64 (makeKey i nodeDBDiscoverFindFails) 0 db = (db', Ok ())" "db_ok db'"
    "fetchInt64 (makeKey i nodeDBDiscoverFindFails) db' = 0"
    "\<And>k. k \<noteq> makeKey i nodeDBDiscoverFindFails \<Longrightarrow> got k db' = got k db"
    using storeInt64_fetch [OF assms fields_plain(4), of 0 i] by auto
  have "db_node j db' = db_node j db" for j
    by (rule node_other) (rule db'(4), simp add: makeKey_eq)
  with that db' show ?thesis by (simp add: updateFindFails_def findFails_def)
qed

lemma bond_ask_ok:
  assumes "db_ok (u_db t)" "network_ok nw" "ip_ok (ua_IP addr)"
    and "asks \<longleftrightarrow> known = None \<or> findFails i (u_db t) > 0"
    and "err = (if asks then fst (nw_ping nw i addr) else None)"
    and "n = (if asks \<and> err = None then Some (newNode (ua_IP addr) (of_int (ua_Port addr)) tcp i) else known)"
  obtains db1 where "bond_ask nw i addr tcp known t = (t\<lparr>u_db := db1\<rparr>, Ok (n, map_option PingFailed err))" "db_ok db1"
    "\<forall>j. db_node j db1 = (if j = i \<and> asks \<and> err = None
        then Ok (Some (newNode (normal_ip (ua_IP addr)) (of_int (ua_Port addr)) tcp i)) else db_node j (u_db t))"
proof (cases asks)
  case True
  then have c: "known = None \<or> (case known of None \<Rightarrow> 0 | Some _ \<Rightarrow> findFails i (u_db t)) > 0"
    using assms(4) by (cases known) auto
  obtain e later where p: "nw_ping nw i addr = (e, later)" by fastforce
  obtain db1 where db1: "pingpong nw i addr tcp t = (t\<lparr>u_db := db1\<rparr>,
     case e of None \<Rightarrow> Ok (newNode (ua_IP addr) (of_int (ua_Port addr)) tcp i) | Some e \<Rightarrow> Err (PingFailed e))" "db_ok db1"
    "\<And>j. db_node j db1 = (if j = i \<and> e = None
      then Ok (Some (newNode (normal_ip (ua_IP addr)) (of_int (ua_Port addr)) tcp i)) else db_node j (u_db t))"
    by (rule pingpong_ok [OF assms(1,2) p assms(3)]) blast
  have "bond_ask nw i addr tcp known t = (t\<lparr>u_db := db1\<rparr>, Ok (n, map_option PingFailed err))"
    unfolding bond_ask_def Let_def using c True p assms(5,6) db1(1) by (cases e) simp_all
  with that db1(2,3) True p assms(5) show ?thesis by simp
next
  case False
  then have c: "\<not> (known = None \<or> (case known of None \<Rightarrow> 0 | Some _ \<Rightarrow> findFails i (u_db t)) > 0)"
    using assms(4) by (cases known) auto
  have "t\<lparr>u_db := u_db t\<rparr> = t" by (cases t) simp
  then have "bond_ask nw i addr tcp known t = (t\<lparr>u_db := u_db t\<rparr>, Ok (n, map_option PingFailed err))"
    unfolding bond_ask_def Let_def if_not_P [OF c] using False assms(5,6) by simp
  from that [OF this] assms(1) False show ?thesis by simp
qed

lemma bond_result:
  assumes "db_ok (u_db t)" "network_ok nw" "ip_ok (ua_IP addr)" "db_node i (u_db t) = Ok known"
    and "asks \<longleftrightarrow> known = None \<or> findFails i (u_db t) > 0"
    and "err = (if asks then fst (nw_ping nw i addr) else None)"
    and "n = (if asks \<and> err = None then Some (newNode (ua_IP addr) (of_int (ua_Port addr)) tcp i) else known)"
  shows "\<exists>t'. bond nw i addr tcp t = (t', Ok (n, map_option PingFailed err)) \<and> db_ok (u_db t') \<and>
    (case n of None \<Rightarrow> u_table t' = u_table t
     | Some m \<Rightarrow> (\<exists>r. u_table t' = bond_insert r m (u_table t)) \<and> findFails i (u_db t') = 0) \<and>
    (\<forall>j. db_node j (u_db t') =
       (if j = i \<and> asks \<and> err = None
        then Ok (Some (newNode (normal_ip (ua_IP addr)) (of_int (ua_Port addr)) tcp i)) else db_node j (u_db t)))"
proof -
  obtain db1 where ask: "bond_ask nw i addr tcp known t = (t\<lparr>u_db := db1\<rparr>, Ok (n, map_option PingFailed err))" and db1: "db_ok db1"
    "\<forall>j. db_node j db1 = (if j = i \<and> asks \<and> err = None
        then Ok (Some (newNode (normal_ip (ua_IP addr)) (of_int (ua_Port addr)) tcp i)) else db_node j (u_db t))"
    by (rule bond_ask_ok [OF assms(1-3,5-7)])
  show ?thesis
  proof (cases n)
    case None
    then show ?thesis using ask db1 assms(4) by (simp add: bond_def)
  next
    case (Some m)
    have ok1: "db_ok (u_db (t\<lparr>u_db := db1\<rparr>))" using db1(1) by simp
    obtain db2 r where place: "bond_place nw m (t\<lparr>u_db := db1\<rparr>) =
        (t\<lparr>u_db := db1\<rparr>\<lparr>u_table := bond_insert r m (u_table (t\<lparr>u_db := db1\<rparr>)), u_db := db2\<rparr>, Ok ())"
      "times_only (u_db (t\<lparr>u_db := db1\<rparr>)) db2" by (rule bond_place_ok [OF ok1 assms(2)]) blast
    have ok2: "db_ok db2" using place(2) by (simp add: times_only_def)
    obtain db3 where db3: "updateFindFails i 0 db2 = (db3, Ok ())" "db_ok db3" "findFails i db3 = 0"
      "\<And>j. db_node j db3 = db_node j db2" by (rule reset_fails [OF ok2]) blast
    have "bond nw i addr tcp t =
        (t\<lparr>u_table := bond_insert r m (u_table t), u_db := db3\<rparr>, Ok (Some m, map_option PingFailed err))"
      using ask place(1) db3(1) assms(4) Some by (simp add: bond_def on_db_def)
    with Some db3(2-4) place(2) db1(2) show ?thesis by (auto simp: times_only_def)
  qed
qed


definition demo_network :: network where
  "demo_network = \<lparr>nw_now = 0, nw_ping = (\<lambda>_ _. (None, 5 * second)), nw_findnode = (\<lambda>_ _ _. ([], None))\<rparr>"


end
