(* ===== verification/Bonding.thy ===== *)
theory Bonding
  imports Bond
begin

text \<open>
  Concurrent calls of \<^verbatim>\<open>bond\<close> (discover/table.go). The calls share the map \<^verbatim>\<open>bonding\<close>, in which the first call for a
  node registers a process that later calls for the same node wait for, and the sixteen tokens of the
  channel \<^verbatim>\<open>bondslots\<close>. A step is one critical section or one channel operation of one call; a state holds
  the phase every call has reached.
\<close>

datatype phase =
    Calling
  | Joined nat
  | Registered nat
  | Exchanging nat
  | Signalled nat
  | Released nat
  | Returned

text \<open>
  The number is the process, a \<^verbatim>\<open>bondproc\<close>. \<^verbatim>\<open>Registered\<close> waits for a slot, \<^verbatim>\<open>Exchanging\<close> holds one, \<^verbatim>\<open>Signalled\<close> has closed \<^verbatim>\<open>w.done\<close> and
  still holds its slot, \<^verbatim>\<open>Released\<close> has given it back, \<^verbatim>\<open>Joined\<close> waits for \<^verbatim>\<open>w.done\<close> of another call.
\<close>

record bond_calls =
  bc_bonding :: "nodeid \<Rightarrow> nat option"
  bc_slots :: nat
  bc_done :: "nat set"
  bc_calls :: "(nodeid \<times> phase) list"
  bc_fresh :: nat
  bc_panicked :: bool

definition no_calls :: bond_calls where
  "no_calls = \<lparr>bc_bonding = Map.empty, bc_slots = maxBondingPingPongs, bc_done = {}, bc_calls = [],
     bc_fresh = 0, bc_panicked = False\<rparr>"

definition set_phase :: "nat \<Rightarrow> nodeid \<Rightarrow> phase \<Rightarrow> bond_calls \<Rightarrow> bond_calls" where
  "set_phase k i p s = s\<lparr>bc_calls := (bc_calls s)[k := (i, p)]\<rparr>"

text \<open>
  The steps of the calls that have been made. Closing \<^verbatim>\<open>w.done\<close> a second time would panic, and giving a slot back
  would block on a full channel.
\<close>

inductive bond_step :: "bond_calls \<Rightarrow> bond_calls \<Rightarrow> bool" where
  known: "k < length (bc_calls s) \<Longrightarrow> bc_calls s ! k = (i, Calling) \<Longrightarrow> bond_step s (set_phase k i Returned s)"
| join: "k < length (bc_calls s) \<Longrightarrow> bc_calls s ! k = (i, Calling) \<Longrightarrow> bc_bonding s i = Some w \<Longrightarrow>
    bond_step s (set_phase k i (Joined w) s)"
| register: "k < length (bc_calls s) \<Longrightarrow> bc_calls s ! k = (i, Calling) \<Longrightarrow> bc_bonding s i = None \<Longrightarrow>
    bond_step s ((set_phase k i (Registered (bc_fresh s)) s)
      \<lparr>bc_bonding := (bc_bonding s)(i \<mapsto> bc_fresh s), bc_fresh := Suc (bc_fresh s)\<rparr>)"
| acquire: "k < length (bc_calls s) \<Longrightarrow> bc_calls s ! k = (i, Registered w) \<Longrightarrow> 0 < bc_slots s \<Longrightarrow>
    bond_step s ((set_phase k i (Exchanging w) s)\<lparr>bc_slots := bc_slots s - 1\<rparr>)"
| signal: "k < length (bc_calls s) \<Longrightarrow> bc_calls s ! k = (i, Exchanging w) \<Longrightarrow>
    bond_step s ((set_phase k i (Signalled w) s)
      \<lparr>bc_done := insert w (bc_done s), bc_panicked := bc_panicked s \<or> w \<in> bc_done s\<rparr>)"
| release: "k < length (bc_calls s) \<Longrightarrow> bc_calls s ! k = (i, Signalled w) \<Longrightarrow> bc_slots s < maxBondingPingPongs \<Longrightarrow>
    bond_step s ((set_phase k i (Released w) s)\<lparr>bc_slots := bc_slots s + 1\<rparr>)"
| unregister: "k < length (bc_calls s) \<Longrightarrow> bc_calls s ! k = (i, Released w) \<Longrightarrow>
    bond_step s ((set_phase k i Returned s)\<lparr>bc_bonding := (bc_bonding s)(i := None)\<rparr>)"
| wake: "k < length (bc_calls s) \<Longrightarrow> bc_calls s ! k = (i, Joined w) \<Longrightarrow> w \<in> bc_done s \<Longrightarrow>
    bond_step s (set_phase k i Returned s)"

inductive_cases bond_stepE: "bond_step s s'"

inductive bond_reach :: "bond_calls \<Rightarrow> bool" where
  start: "bond_reach no_calls"
| call: "bond_reach s \<Longrightarrow> bond_reach (s\<lparr>bc_calls := bc_calls s @ [(i, Calling)]\<rparr>)"
| step: "bond_reach s \<Longrightarrow> bond_step s s' \<Longrightarrow> bond_reach s'"

section \<open>The invariant\<close>

text \<open>The process a call owns, and whether it holds a slot.\<close>

fun owns :: "nodeid \<times> phase \<Rightarrow> nat option" where
  "owns (i, Registered w) = Some w"
| "owns (i, Exchanging w) = Some w"
| "owns (i, Signalled w) = Some w"
| "owns (i, Released w) = Some w"
| "owns (i, _) = None"

fun holds_slot :: "nodeid \<times> phase \<Rightarrow> bool" where
  "holds_slot (i, Exchanging w) \<longleftrightarrow> True"
| "holds_slot (i, Signalled w) \<longleftrightarrow> True"
| "holds_slot (i, _) \<longleftrightarrow> False"

text \<open>A process is signalled exactly when its owner has gone that far, or has returned.\<close>

fun not_signalled :: "nodeid \<times> phase \<Rightarrow> nat option" where
  "not_signalled (i, Registered w) = Some w"
| "not_signalled (i, Exchanging w) = Some w"
| "not_signalled _ = None"

definition slots_kept :: "bond_calls \<Rightarrow> bool" where
  "slots_kept s \<longleftrightarrow> bc_slots s + length (filter holds_slot (bc_calls s)) = maxBondingPingPongs"

definition owners_kept :: "bond_calls \<Rightarrow> bool" where
  "owners_kept s \<longleftrightarrow>
     (\<forall>k < length (bc_calls s). \<forall>w. owns (bc_calls s ! k) = Some w \<longrightarrow>
        w < bc_fresh s \<and> bc_bonding s (fst (bc_calls s ! k)) = Some w) \<and>
     (\<forall>k < length (bc_calls s). \<forall>l < length (bc_calls s). \<forall>w.
        owns (bc_calls s ! k) = Some w \<and> owns (bc_calls s ! l) = Some w \<longrightarrow> k = l) \<and>
     (\<forall>i w. bc_bonding s i = Some w \<longrightarrow>
        (\<exists>k < length (bc_calls s). owns (bc_calls s ! k) = Some w \<and> fst (bc_calls s ! k) = i))"

definition signals_kept :: "bond_calls \<Rightarrow> bool" where
  "signals_kept s \<longleftrightarrow> \<not> bc_panicked s \<and>
     (\<forall>w \<in> bc_done s. w < bc_fresh s) \<and>
     (\<forall>k < length (bc_calls s). \<forall>w. not_signalled (bc_calls s ! k) = Some w \<longrightarrow> w \<notin> bc_done s) \<and>
     (\<forall>w < bc_fresh s. w \<in> bc_done s \<or> (\<exists>k < length (bc_calls s). not_signalled (bc_calls s ! k) = Some w)) \<and>
     (\<forall>k < length (bc_calls s). \<forall>w. snd (bc_calls s ! k) = Joined w \<longrightarrow> w < bc_fresh s)"

definition bonds_ok :: "bond_calls \<Rightarrow> bool" where
  "bonds_ok s \<longleftrightarrow> slots_kept s \<and> owners_kept s \<and> signals_kept s"

lemma set_phase_simps [simp]:
  "bc_calls (set_phase k i p s) = (bc_calls s)[k := (i, p)]" "bc_slots (set_phase k i p s) = bc_slots s"
  "bc_bonding (set_phase k i p s) = bc_bonding s" "bc_done (set_phase k i p s) = bc_done s"
  "bc_fresh (set_phase k i p s) = bc_fresh s" "bc_panicked (set_phase k i p s) = bc_panicked s"
  by (simp_all add: set_phase_def)

lemma length_filter_update:
  "k < length xs \<Longrightarrow> length (filter P (xs[k := x])) + (if P (xs ! k) then 1 else 0) = length (filter P xs) + (if P x then 1 else 0)"
proof (induction xs arbitrary: k)
  case (Cons y ys)
  then show ?case by (cases k) auto
qed simp

lemma slots_step: "bond_step s s' \<Longrightarrow> slots_kept s \<Longrightarrow> slots_kept s'"
proof -
  assume st: "bond_step s s'" and ok: "slots_kept s"
  from st show ?thesis
  proof cases
    case (acquire k i w)
    then show ?thesis using ok length_filter_update [OF acquire(2), of holds_slot "(i, Exchanging w)"]
      by (simp add: slots_kept_def)
  next
    case (release k i w)
    then show ?thesis using ok length_filter_update [OF release(2), of holds_slot "(i, Released w)"]
      by (simp add: slots_kept_def)
  next
    case (signal k i w)
    then show ?thesis using ok length_filter_update [OF signal(2), of holds_slot "(i, Signalled w)"]
      by (simp add: slots_kept_def)
  qed (use ok length_filter_update [where P = holds_slot] in \<open>fastforce simp: slots_kept_def\<close>)+
qed

lemma registered_owner:
  assumes "owners_kept s" "bc_bonding s i = Some w"
  obtains k where "k < length (bc_calls s)" "owns (bc_calls s ! k) = Some w" "fst (bc_calls s ! k) = i"
  using assms unfolding owners_kept_def by blast

text \<open>A step that leaves the ownership of processes alone keeps the registrations consistent.\<close>

lemma owners_same:
  assumes "owners_kept s" "k < length (bc_calls s)" "bc_calls s ! k = (i, p)" "owns (i, q) = owns (i, p)"
    "bc_calls s' = (bc_calls s)[k := (i, q)]" "bc_bonding s' = bc_bonding s" "bc_fresh s' = bc_fresh s"
  shows "owners_kept s'"
proof -
  have "owns (bc_calls s' ! j) = owns (bc_calls s ! j)" "fst (bc_calls s' ! j) = fst (bc_calls s ! j)" for j
    using assms(2-5) by (auto simp: nth_list_update)
  then show ?thesis using assms(1) unfolding owners_kept_def assms(6,7) by (simp add: assms(5))
qed

lemma owners_keptI:
  assumes "\<And>k w. k < length (bc_calls s) \<Longrightarrow> owns (bc_calls s ! k) = Some w \<Longrightarrow>
      w < bc_fresh s \<and> bc_bonding s (fst (bc_calls s ! k)) = Some w"
    "\<And>k l w. k < length (bc_calls s) \<Longrightarrow> l < length (bc_calls s) \<Longrightarrow>
      owns (bc_calls s ! k) = Some w \<Longrightarrow> owns (bc_calls s ! l) = Some w \<Longrightarrow> k = l"
    "\<And>i w. bc_bonding s i = Some w \<Longrightarrow>
      \<exists>k < length (bc_calls s). owns (bc_calls s ! k) = Some w \<and> fst (bc_calls s ! k) = i"
  shows "owners_kept s"
  using assms unfolding owners_kept_def by blast

lemma owner_registered:
  assumes "owners_kept s" "k < length (bc_calls s)" "owns (bc_calls s ! k) = Some w"
  shows "w < bc_fresh s" "bc_bonding s (fst (bc_calls s ! k)) = Some w"
  using assms unfolding owners_kept_def by blast+

lemma owner_unique:
  assumes "owners_kept s" "k < length (bc_calls s)" "l < length (bc_calls s)"
    "owns (bc_calls s ! k) = Some w" "owns (bc_calls s ! l) = Some w"
  shows "k = l"
  using assms unfolding owners_kept_def by blast

lemma owners_register:
  assumes ok: "owners_kept s" and k: "k < length (bc_calls s)" "bc_calls s ! k = (i, Calling)" "bc_bonding s i = None"
    and s': "s' = (set_phase k i (Registered (bc_fresh s)) s)
      \<lparr>bc_bonding := (bc_bonding s)(i \<mapsto> bc_fresh s), bc_fresh := Suc (bc_fresh s)\<rparr>"
  shows "owners_kept s'"
proof -
  have calls: "bc_calls s' = (bc_calls s)[k := (i, Registered (bc_fresh s))]" using s' by simp
  have own: "owns (bc_calls s' ! l) = (if l = k then Some (bc_fresh s) else owns (bc_calls s ! l))"
    "fst (bc_calls s' ! l) = fst (bc_calls s ! l)" if "l < length (bc_calls s)" for l
    using that k by (auto simp: calls nth_list_update)
  note old = owner_registered [OF ok]
  show ?thesis
  proof (rule owners_keptI)
    fix l w
    assume "l < length (bc_calls s')" "owns (bc_calls s' ! l) = Some w"
    then show "w < bc_fresh s' \<and> bc_bonding s' (fst (bc_calls s' ! l)) = Some w"
      using old [of l w] k own [of l] by (auto simp: s' split: if_splits)
  next
    fix l m w
    assume "l < length (bc_calls s')" "m < length (bc_calls s')" "owns (bc_calls s' ! l) = Some w" "owns (bc_calls s' ! m) = Some w"
    then show "l = m"
      using old(1) [of l w] old(1) [of m w] owner_unique [OF ok, of l m w] own(1) [of l] own(1) [of m]
      by (cases "l = k"; cases "m = k") (simp_all add: calls)
  next
    fix j w
    assume j: "bc_bonding s' j = Some w"
    show "\<exists>l < length (bc_calls s'). owns (bc_calls s' ! l) = Some w \<and> fst (bc_calls s' ! l) = j"
    proof (cases "j = i")
      case True
      then show ?thesis using j k by (intro exI [of _ k]) (simp add: s')
    next
      case False
      then have "bc_bonding s j = Some w" using j by (simp add: s')
      then obtain l where l: "l < length (bc_calls s)" "owns (bc_calls s ! l) = Some w" "fst (bc_calls s ! l) = j"
        by (rule registered_owner [OF ok])
      moreover have "l \<noteq> k" using l(2) k(2) by auto
      ultimately show ?thesis using own [of l] by (intro exI [of _ l]) (simp add: calls)
    qed
  qed
qed

lemma owners_unregister:
  assumes ok: "owners_kept s" and k: "k < length (bc_calls s)" "bc_calls s ! k = (i, Released w)"
    and s': "s' = (set_phase k i Returned s)\<lparr>bc_bonding := (bc_bonding s)(i := None)\<rparr>"
  shows "owners_kept s'"
proof -
  have calls: "bc_calls s' = (bc_calls s)[k := (i, Returned)]" using s' by simp
  have own: "owns (bc_calls s' ! l) = (if l = k then None else owns (bc_calls s ! l))"
    "fst (bc_calls s' ! l) = fst (bc_calls s ! l)" if "l < length (bc_calls s)" for l
    using that k by (auto simp: calls nth_list_update)
  have w: "bc_bonding s i = Some w" using owner_registered(2) [OF ok k(1), of w] k(2) by simp
  show ?thesis
  proof (rule owners_keptI)
    fix l v
    assume l: "l < length (bc_calls s')" "owns (bc_calls s' ! l) = Some v"
    then have l': "l < length (bc_calls s)" "l \<noteq> k" "owns (bc_calls s ! l) = Some v"
      using own(1) [of l] by (auto simp: calls split: if_splits)
    moreover have "fst (bc_calls s ! l) \<noteq> i"
      using owner_registered(2) [OF ok l'(1,3)] owner_unique [OF ok l'(1) k(1), of w] l' w k(2) by auto
    ultimately show "v < bc_fresh s' \<and> bc_bonding s' (fst (bc_calls s' ! l)) = Some v"
      using owner_registered [OF ok l'(1,3)] own(2) [of l] by (simp add: s')
  next
    fix l m v
    assume "l < length (bc_calls s')" "m < length (bc_calls s')" "owns (bc_calls s' ! l) = Some v" "owns (bc_calls s' ! m) = Some v"
    then show "l = m"
      using owner_unique [OF ok, of l m v] own(1) [of l] own(1) [of m] by (auto simp: calls split: if_splits)
  next
    fix j v
    assume "bc_bonding s' j = Some v"
    then have j: "j \<noteq> i" "bc_bonding s j = Some v" by (auto simp: s' split: if_splits)
    from j(2) obtain l where l: "l < length (bc_calls s)" "owns (bc_calls s ! l) = Some v" "fst (bc_calls s ! l) = j"
      by (rule registered_owner [OF ok])
    moreover have "l \<noteq> k" using l(3) j(1) k(2) by auto
    ultimately show "\<exists>l < length (bc_calls s'). owns (bc_calls s' ! l) = Some v \<and> fst (bc_calls s' ! l) = j"
      using own [of l] by (intro exI [of _ l]) (simp add: calls)
  qed
qed

lemma owners_step:
  assumes "bond_step s s'" "owners_kept s"
  shows "owners_kept s'"
  using assms(1)
proof cases
  case (register k i)
  then show ?thesis by (intro owners_register [OF assms(2)])
next
  case (unregister k i w)
  then show ?thesis by (intro owners_unregister [OF assms(2)])
qed (erule (1) owners_same [OF assms(2)]; simp)+

lemma signals_same:
  assumes "signals_kept s" "k < length (bc_calls s)" "bc_calls s ! k = (i, p)"
    "not_signalled (i, q) = not_signalled (i, p)" "\<And>w. q = Joined w \<Longrightarrow> w < bc_fresh s"
    "bc_calls s' = (bc_calls s)[k := (i, q)]" "bc_done s' = bc_done s" "bc_fresh s' = bc_fresh s" "bc_panicked s' = bc_panicked s"
  shows "signals_kept s'"
proof -
  have "not_signalled (bc_calls s' ! j) = not_signalled (bc_calls s ! j)" for j
    using assms(2,3,4,6) by (auto simp: nth_list_update)
  moreover have "\<forall>j < length (bc_calls s). \<forall>w. snd (bc_calls s' ! j) = Joined w \<longrightarrow> w < bc_fresh s"
    using assms(1,2,5,6) by (auto simp: signals_kept_def nth_list_update)
  ultimately show ?thesis using assms(1) unfolding signals_kept_def assms(7,8,9) by (simp add: assms(6))
qed

lemma signalled_owner: "not_signalled c = Some w \<Longrightarrow> owns c = Some w"
  by (cases c rule: not_signalled.cases) auto

lemma signals_keptI:
  assumes "\<not> bc_panicked s" "\<And>w. w \<in> bc_done s \<Longrightarrow> w < bc_fresh s"
    "\<And>k w. k < length (bc_calls s) \<Longrightarrow> not_signalled (bc_calls s ! k) = Some w \<Longrightarrow> w \<notin> bc_done s"
    "\<And>w. w < bc_fresh s \<Longrightarrow> w \<notin> bc_done s \<Longrightarrow> \<exists>k < length (bc_calls s). not_signalled (bc_calls s ! k) = Some w"
    "\<And>k w. k < length (bc_calls s) \<Longrightarrow> snd (bc_calls s ! k) = Joined w \<Longrightarrow> w < bc_fresh s"
  shows "signals_kept s"
  using assms unfolding signals_kept_def by blast

lemma signals_keptD:
  assumes "signals_kept s"
  shows "\<not> bc_panicked s" "w \<in> bc_done s \<Longrightarrow> w < bc_fresh s"
    "k < length (bc_calls s) \<Longrightarrow> not_signalled (bc_calls s ! k) = Some w \<Longrightarrow> w \<notin> bc_done s"
    "w < bc_fresh s \<Longrightarrow> w \<notin> bc_done s \<Longrightarrow> \<exists>k < length (bc_calls s). not_signalled (bc_calls s ! k) = Some w"
    "k < length (bc_calls s) \<Longrightarrow> snd (bc_calls s ! k) = Joined w \<Longrightarrow> w < bc_fresh s"
  using assms unfolding signals_kept_def by blast+

lemma signals_register:
  assumes ok: "signals_kept s" and k: "k < length (bc_calls s)" "bc_calls s ! k = (i, Calling)"
    and s': "s' = (set_phase k i (Registered (bc_fresh s)) s)
      \<lparr>bc_bonding := (bc_bonding s)(i \<mapsto> bc_fresh s), bc_fresh := Suc (bc_fresh s)\<rparr>"
  shows "signals_kept s'"
proof -
  have calls: "bc_calls s' = (bc_calls s)[k := (i, Registered (bc_fresh s))]" using s' by simp
  have ns: "not_signalled (bc_calls s' ! l) = (if l = k then Some (bc_fresh s) else not_signalled (bc_calls s ! l))"
    "\<And>w. snd (bc_calls s' ! l) = Joined w \<Longrightarrow> snd (bc_calls s ! l) = Joined w" if "l < length (bc_calls s)" for l
    using that k by (auto simp: calls nth_list_update split: if_splits)
  show ?thesis
  proof (rule signals_keptI)
    fix w
    assume w: "w < bc_fresh s'" "w \<notin> bc_done s'"
    show "\<exists>l < length (bc_calls s'). not_signalled (bc_calls s' ! l) = Some w"
    proof (cases "w = bc_fresh s")
      case True
      then show ?thesis using ns(1) [OF k(1)] k(1) by (intro exI [of _ k]) (simp add: calls)
    next
      case False
      then obtain l where l: "l < length (bc_calls s)" "not_signalled (bc_calls s ! l) = Some w"
        using signals_keptD(4) [OF ok, of w] w by (auto simp: s')
      moreover have "l \<noteq> k" using l(2) k(2) by auto
      ultimately show ?thesis using ns(1) [of l] by (intro exI [of _ l]) (simp add: calls)
    qed
  next
    fix l w
    assume "l < length (bc_calls s')" "not_signalled (bc_calls s' ! l) = Some w"
    then show "w \<notin> bc_done s'"
      using signals_keptD(3) [OF ok, of l w] signals_keptD(2) [OF ok, of w] ns(1) [of l] by (cases "l = k") (auto simp: s')
  next
    fix l w
    assume "l < length (bc_calls s')" "snd (bc_calls s' ! l) = Joined w"
    then show "w < bc_fresh s'"
      using signals_keptD(5) [OF ok, of l w] ns(2) [of l w] by (simp add: s')
  qed (use signals_keptD(1,2) [OF ok] in \<open>auto simp: s' intro: less_SucI\<close>)
qed

lemma signals_signal:
  assumes ow: "owners_kept s" and ok: "signals_kept s" and k: "k < length (bc_calls s)" "bc_calls s ! k = (i, Exchanging w)"
    and s': "s' = (set_phase k i (Signalled w) s)\<lparr>bc_done := insert w (bc_done s), bc_panicked := bc_panicked s \<or> w \<in> bc_done s\<rparr>"
  shows "signals_kept s'"
proof -
  have calls: "bc_calls s' = (bc_calls s)[k := (i, Signalled w)]" using s' by simp
  have w: "w < bc_fresh s" "w \<notin> bc_done s"
    using owner_registered(1) [OF ow k(1), of w] ok k unfolding signals_kept_def by fastforce+
  have ns: "not_signalled (bc_calls s' ! l) = (if l = k then None else not_signalled (bc_calls s ! l))"
    "\<And>v. snd (bc_calls s' ! l) = Joined v \<Longrightarrow> snd (bc_calls s ! l) = Joined v" if "l < length (bc_calls s)" for l
    using that k by (auto simp: calls nth_list_update split: if_splits)
  show ?thesis
  proof (rule signals_keptI)
    fix v
    assume v: "v < bc_fresh s'" "v \<notin> bc_done s'"
    then obtain l where l: "l < length (bc_calls s)" "not_signalled (bc_calls s ! l) = Some v"
      using signals_keptD(4) [OF ok, of v] by (auto simp: s')
    moreover have "l \<noteq> k" using l(2) v(2) k(2) by (auto simp: s')
    ultimately show "\<exists>l < length (bc_calls s'). not_signalled (bc_calls s' ! l) = Some v"
      using ns(1) [of l] by (intro exI [of _ l]) (simp add: calls)
  next
    fix l v
    assume l: "l < length (bc_calls s')" "not_signalled (bc_calls s' ! l) = Some v"
    then have l': "l \<noteq> k" "l < length (bc_calls s)" "not_signalled (bc_calls s ! l) = Some v"
      using ns(1) [of l] by (auto simp: calls split: if_splits)
    then have "v \<noteq> w" using owner_unique [OF ow l'(2) k(1), of w] signalled_owner [OF l'(3)] k(2) by auto
    then show "v \<notin> bc_done s'" using signals_keptD(3) [OF ok l'(2,3)] by (simp add: s')
  next
    fix l v
    assume "l < length (bc_calls s')" "snd (bc_calls s' ! l) = Joined v"
    then show "v < bc_fresh s'"
      using signals_keptD(5) [OF ok, of l v] ns(2) [of l v] by (simp add: s')
  qed (use w signals_keptD(1,2) [OF ok] in \<open>auto simp: s'\<close>)
qed

lemma signals_step:
  assumes "bond_step s s'" "owners_kept s" "signals_kept s"
  shows "signals_kept s'"
  using assms(1)
proof cases
  case (join k i w)
  obtain l where "l < length (bc_calls s)" "owns (bc_calls s ! l) = Some w" by (rule registered_owner [OF assms(2) join(4)])
  then have "w < bc_fresh s" by (rule owner_registered(1) [OF assms(2)])
  then show ?thesis by (intro signals_same [OF assms(3) join(2,3), of "Joined w"]) (simp_all add: join)
next
  case (register k i)
  then show ?thesis by (intro signals_register [OF assms(3)])
next
  case (signal k i w)
  then show ?thesis by (intro signals_signal [OF assms(2,3)])
qed (erule (1) signals_same [OF assms(3)]; simp)+

lemma distinct_map_filterI:
  assumes "\<And>k l. k < length xs \<Longrightarrow> l < length xs \<Longrightarrow> P (xs ! k) \<Longrightarrow> P (xs ! l) \<Longrightarrow> f (xs ! k) = f (xs ! l) \<Longrightarrow> k = l"
  shows "distinct (map f (filter P xs))"
  using assms
proof (induction xs)
  case (Cons x xs)
  have "distinct (map f (filter P xs))"
    using Cons.prems [of "Suc k" "Suc l" for k l] by (intro Cons.IH) simp
  moreover have "f x \<noteq> f (xs ! k)" if "P x" "k < length xs" "P (xs ! k)" for k
    using Cons.prems [of 0 "Suc k"] that by auto
  ultimately show ?case by (auto simp: in_set_conv_nth)
qed simp

lemma bonds_ok_call: "bonds_ok s \<Longrightarrow> bonds_ok (s\<lparr>bc_calls := bc_calls s @ [(i, Calling)]\<rparr>)"
proof -
  assume ok: "bonds_ok s"
  let ?s = "s\<lparr>bc_calls := bc_calls s @ [(i, Calling)]\<rparr>"
  have "slots_kept ?s" using ok by (simp add: bonds_ok_def slots_kept_def)
  moreover have "owners_kept ?s"
  proof (rule owners_keptI)
    fix j w
    assume "bc_bonding ?s j = Some w"
    then obtain k where "k < length (bc_calls s)" "owns (bc_calls s ! k) = Some w" "fst (bc_calls s ! k) = j"
      using ok registered_owner [of s j w] by (auto simp: bonds_ok_def)
    then show "\<exists>k < length (bc_calls ?s). owns (bc_calls ?s ! k) = Some w \<and> fst (bc_calls ?s ! k) = j"
      by (intro exI [of _ k]) (simp add: nth_append)
  qed (use ok in \<open>auto simp: bonds_ok_def nth_append less_Suc_eq split: if_splits
      dest: owner_registered owner_unique\<close>)
  moreover have "signals_kept ?s"
  proof (rule signals_keptI)
    fix w
    assume "w < bc_fresh ?s" "w \<notin> bc_done ?s"
    then obtain k where "k < length (bc_calls s)" "not_signalled (bc_calls s ! k) = Some w"
      using ok signals_keptD(4) [of s w] by (auto simp: bonds_ok_def)
    then show "\<exists>k < length (bc_calls ?s). not_signalled (bc_calls ?s ! k) = Some w"
      by (intro exI [of _ k]) (simp add: nth_append)
  qed (use ok in \<open>auto simp: bonds_ok_def nth_append less_Suc_eq split: if_splits
      dest: signals_keptD\<close>)
  ultimately show ?thesis by (simp add: bonds_ok_def)
qed

lemma bonds_ok_reach: "bond_reach s \<Longrightarrow> bonds_ok s"
proof (induction rule: bond_reach.induct)
  case start
  show ?case by (simp add: bonds_ok_def no_calls_def slots_kept_def owners_kept_def signals_kept_def)
next
  case (call s i)
  then show ?case by (intro bonds_ok_call)
next
  case (step s s')
  then show ?case by (auto simp: bonds_ok_def intro: slots_step owners_step signals_step)
qed

section \<open>Progress\<close>

definition all_returned :: "bond_calls \<Rightarrow> bool" where
  "all_returned s \<longleftrightarrow> (\<forall>c \<in> set (bc_calls s). snd c = Returned)"

text \<open>The steps a call can still take.\<close>

fun steps_left :: "phase \<Rightarrow> nat" where
  "steps_left Calling = 5"
| "steps_left (Joined _) = 1"
| "steps_left (Registered _) = 4"
| "steps_left (Exchanging _) = 3"
| "steps_left (Signalled _) = 2"
| "steps_left (Released _) = 1"
| "steps_left Returned = 0"

definition work :: "bond_calls \<Rightarrow> nat" where
  "work s = sum_list (map (\<lambda>c. steps_left (snd c)) (bc_calls s))"

lemma work_update:
  assumes "k < length cs" "f y < f (cs ! k)"
  shows "sum_list (map f (cs[k := y])) < (sum_list (map f cs) :: nat)"
  using assms
proof (induction cs arbitrary: k)
  case (Cons c cs)
  then show ?case by (cases k) auto
qed simp

lemma work_decreases: "bond_step s s' \<Longrightarrow> work s' < work s"
  by (induction rule: bond_step.induct) (auto simp: work_def intro!: work_update)

lemma holder_steps:
  assumes ok: "bonds_ok s" and c: "c \<in> set (bc_calls s)" "holds_slot c"
  shows "\<exists>s'. bond_step s s'"
proof -
  obtain i p where p: "c = (i, p)" by (cases c)
  obtain k where k: "k < length (bc_calls s)" "bc_calls s ! k = (i, p)" using c(1) p by (auto simp: in_set_conv_nth)
  have "filter holds_slot (bc_calls s) \<noteq> []" using c by (auto simp: filter_empty_conv)
  then have free: "bc_slots s < maxBondingPingPongs"
    using ok by (cases "filter holds_slot (bc_calls s)") (auto simp: bonds_ok_def slots_kept_def)
  show ?thesis
  proof (cases p)
    case (Exchanging w)
    then show ?thesis using bond_step.signal [OF k(1), of i w] k(2) by auto
  next
    case (Signalled w)
    then show ?thesis using bond_step.release [OF k(1), of i w] k(2) free by auto
  qed (use c(2) p in auto)
qed

lemma waiting_steps:
  assumes ok: "bonds_ok s" and k: "k < length (bc_calls s)" "not_signalled (bc_calls s ! k) = Some w"
  shows "\<exists>s'. bond_step s s'"
proof (cases "filter holds_slot (bc_calls s)")
  case Nil
  obtain i p where p: "bc_calls s ! k = (i, p)" by (cases "bc_calls s ! k")
  have "p \<noteq> Exchanging w" using Nil k(1) p nth_mem [OF k(1)] by (auto simp: filter_empty_conv)
  then have "bc_calls s ! k = (i, Registered w)" using k(2) p by (cases p) auto
  moreover have "0 < bc_slots s" using ok Nil by (simp add: bonds_ok_def slots_kept_def maxBondingPingPongs_def)
  ultimately show ?thesis using bond_step.acquire [OF k(1)] by auto
next
  case (Cons c cs)
  then have "c \<in> set (filter holds_slot (bc_calls s))" by simp
  then have "c \<in> set (bc_calls s)" "holds_slot c" by simp_all
  then show ?thesis by (rule holder_steps [OF ok])
qed

lemma bonding_steps:
  assumes ok: "bonds_ok s" and "\<not> all_returned s"
  shows "\<exists>s'. bond_step s s'"
proof -
  obtain k i p where k: "k < length (bc_calls s)" "bc_calls s ! k = (i, p)" and p: "p \<noteq> Returned"
    using assms(2) by (auto simp: all_returned_def in_set_conv_nth)
  show ?thesis
  proof (cases p)
    case Calling
    then show ?thesis using k by (cases "bc_bonding s i") (auto dest: bond_step.register bond_step.join)
  next
    case (Joined w)
    then have "w < bc_fresh s" using ok k signals_keptD(5) [of s k w] by (simp add: bonds_ok_def)
    then consider "w \<in> bc_done s" | l where "l < length (bc_calls s)" "not_signalled (bc_calls s ! l) = Some w"
      using ok signals_keptD(4) [of s w] by (auto simp: bonds_ok_def)
    then show ?thesis using bond_step.wake [OF k(1), of i w] k(2) Joined waiting_steps [OF ok] by cases auto
  next
    case (Released w)
    then show ?thesis using bond_step.unregister [OF k(1), of i w] k(2) by auto
  qed (use k p waiting_steps [OF ok k(1)] holder_steps [OF ok nth_mem [OF k(1)]] in auto)
qed

lemma bonding_finishes:
  assumes "bonds_ok s"
  shows "\<exists>s'. bond_step\<^sup>*\<^sup>* s s' \<and> all_returned s' \<and> bonds_ok s'"
  using assms
proof (induction "work s" arbitrary: s rule: less_induct)
  case less
  show ?case
  proof (cases "all_returned s")
    case False
    obtain s1 where s1: "bond_step s s1" using bonding_steps [OF less.prems False] by blast
    then have "bonds_ok s1" using less.prems by (auto simp: bonds_ok_def intro: slots_step owners_step signals_step)
    then show ?thesis using less.hyps [OF work_decreases [OF s1]] s1 by (meson converse_rtranclp_into_rtranclp)
  qed (use less.prems in blast)
qed

lemma work_run: "(bond_step ^^ n) s s' \<Longrightarrow> n + work s' \<le> work s"
proof (induction n arbitrary: s')
  case (Suc n)
  then obtain s1 where "(bond_step ^^ n) s s1" "bond_step s1 s'" by auto
  then show ?case using Suc.IH [of s1] work_decreases [of s1 s'] by simp
qed simp

lemma work_bound: "work s \<le> 5 * length (bc_calls s)"
proof -
  have "steps_left p \<le> 5" for p by (cases p) auto
  then have "sum_list (map (\<lambda>c. steps_left (snd c)) cs) \<le> 5 * length cs" for cs :: "(nodeid \<times> phase) list"
    by (induction cs) (auto simp: add_mono)
  then show ?thesis by (simp add: work_def)
qed

section \<open>Two calls for one node\<close>

text \<open>The first call holds a slot, the second waits for it.\<close>

definition demo_calls :: "nodeid \<Rightarrow> bond_calls" where
  "demo_calls i = \<lparr>bc_bonding = [i \<mapsto> 0], bc_slots = 15, bc_done = {}, bc_calls = [(i, Exchanging 0), (i, Joined 0)],
     bc_fresh = 1, bc_panicked = False\<rparr>"

lemma demo_calls_reach: "bond_reach (demo_calls i)"
proof -
  let ?s1 = "no_calls\<lparr>bc_calls := [(i, Calling)]\<rparr>"
  let ?s2 = "?s1\<lparr>bc_calls := [(i, Calling), (i, Calling)]\<rparr>"
  let ?s3 = "?s2\<lparr>bc_calls := [(i, Registered 0), (i, Calling)], bc_bonding := [i \<mapsto> 0], bc_fresh := 1\<rparr>"
  let ?s4 = "?s3\<lparr>bc_calls := [(i, Exchanging 0), (i, Calling)], bc_slots := 15\<rparr>"
  have "bond_reach ?s1" using bond_reach.call [OF bond_reach.start, of i] by (simp add: no_calls_def)
  then have 2: "bond_reach ?s2" using bond_reach.call [of ?s1 i] by simp
  have "bond_step ?s2 ?s3" using bond_step.register [of 0 ?s2 i] by (simp add: set_phase_def no_calls_def)
  then have 3: "bond_reach ?s3" by (rule bond_reach.step [OF 2])
  have "bond_step ?s3 ?s4"
    using bond_step.acquire [of 0 ?s3 i 0] by (simp add: set_phase_def no_calls_def maxBondingPingPongs_def)
  then have 4: "bond_reach ?s4" by (rule bond_reach.step [OF 3])
  have "bond_step ?s4 (demo_calls i)"
    using bond_step.join [of 1 ?s4 i 0] by (simp add: set_phase_def no_calls_def demo_calls_def)
  then show ?thesis by (rule bond_reach.step [OF 4])
qed

section \<open>Properties\<close>

text \<open>
  C2: However calls of bond are made and interleaved, at most sixteen of them exchange pings at a time, the free
  slots and the calls holding one always add up to sixteen, no two calls exchange pings with the same node at the same
  time, and no process is signalled twice, which would panic.
\<close>

theorem bonding_exclusive:
  assumes "bond_reach s"
  shows "bc_slots s + length (filter holds_slot (bc_calls s)) = 16 \<and>
    distinct (map fst (filter holds_slot (bc_calls s))) \<and> \<not> bc_panicked s"
proof -
  have ok: "slots_kept s" "owners_kept s" "signals_kept s" using bonds_ok_reach [OF assms] by (simp_all add: bonds_ok_def)
  have own: "\<exists>w. owns c = Some w" if "holds_slot c" for c using that by (cases c rule: holds_slot.cases) auto
  have "k = l" if kl: "k < length (bc_calls s)" "l < length (bc_calls s)" "holds_slot (bc_calls s ! k)" "holds_slot (bc_calls s ! l)"
      "fst (bc_calls s ! k) = fst (bc_calls s ! l)" for k l
  proof -
    obtain v w where vw: "owns (bc_calls s ! k) = Some v" "owns (bc_calls s ! l) = Some w" using own kl(3,4) by blast
    then have "v = w" using owner_registered(2) [OF ok(2) kl(1) vw(1)] owner_registered(2) [OF ok(2) kl(2) vw(2)] kl(5) by simp
    then show ?thesis using owner_unique [OF ok(2) kl(1,2)] vw by simp
  qed
  then have "distinct (map fst (filter holds_slot (bc_calls s)))" by (intro distinct_map_filterI)
  then show ?thesis
    using ok(1) signals_keptD(1) [OF ok(3)] by (simp add: slots_kept_def maxBondingPingPongs_def)
qed

theorem bonding_exclusive_witness:
  "bond_reach (demo_calls (id_of [1])) \<and>
   bc_slots (demo_calls (id_of [1])) + length (filter holds_slot (bc_calls (demo_calls (id_of [1])))) = 16 \<and>
   distinct (map fst (filter holds_slot (bc_calls (demo_calls (id_of [1]))))) \<and> \<not> bc_panicked (demo_calls (id_of [1]))"
  using bonding_exclusive [OF demo_calls_reach] demo_calls_reach by blast



end
