(* ===== verification/Lookup.thy ===== *)
theory Lookup
  imports Bond
begin

text \<open>
  The network search of discover/table.go. \<^verbatim>\<open>Lookup\<close> keeps up to three queries in flight, each in a
  goroutine of its own that ends by sending the nodes it could bond with; replies are taken in the
  order they arrive, which is an argument here. Theory Search puts the loop, its queries and \<^verbatim>\<open>refresh\<close> together.
\<close>

definition maxFindnodeFailures :: int where "maxFindnodeFailures = 5"

record lookup_state =
  lk_asked :: "nodeid list"
  lk_seen :: "nodeid list"
  lk_pending :: nat
  lk_result :: nodesByDistance
  lk_queries :: "node list"

text \<open>\<^verbatim>\<open>lk_queries\<close> logs the nodes a query was started for.\<close>

fun ask_loop :: "node list \<Rightarrow> nodeid list \<Rightarrow> nat \<Rightarrow> nodeid list \<times> nat \<times> node list" where
  "ask_loop [] asked pend = (asked, pend, [])"
| "ask_loop (n # ns) asked pend =
     (if pend < alpha then
        if node_ID n \<notin> set asked then
          (let (asked', pend', qs) = ask_loop ns (node_ID n # asked) (pend + 1) in (asked', pend', n # qs))
        else ask_loop ns asked pend
      else (asked, pend, []))"

definition lookup_ask :: "lookup_state \<Rightarrow> lookup_state" where
  "lookup_ask s =
     (let (asked, pend, qs) = ask_loop (nbd_entries (lk_result s)) (lk_asked s) (lk_pending s)
      in s\<lparr>lk_asked := asked, lk_pending := pend, lk_queries := lk_queries s @ qs\<rparr>)"

fun absorb :: "node list \<Rightarrow> nodeid list \<Rightarrow> nodesByDistance \<Rightarrow> nodeid list \<times> nodesByDistance" where
  "absorb [] seen h = (seen, h)"
| "absorb (n # ns) seen h =
     (if node_ID n \<notin> set seen then absorb ns (node_ID n # seen) (push h n bucketSize)
      else absorb ns seen h)"

definition lookup_reply :: "node list \<Rightarrow> lookup_state \<Rightarrow> lookup_state" where
  "lookup_reply ns s =
     (let (seen, h) = absorb ns (lk_seen s) (lk_result s)
      in s\<lparr>lk_seen := seen, lk_result := h, lk_pending := lk_pending s - 1\<rparr>)"

text \<open>The loop ends with a result, or waits for a reply that has not arrived.\<close>

datatype lookup_outcome = Found lookup_state | Waiting lookup_state

fun lookup_loop :: "node list list \<Rightarrow> lookup_state \<Rightarrow> lookup_outcome" where
  "lookup_loop [] s = (let s1 = lookup_ask s in if lk_pending s1 = 0 then Found s1 else Waiting s1)"
| "lookup_loop (r # rs) s =
     (let s1 = lookup_ask s in if lk_pending s1 = 0 then Found s1 else lookup_loop rs (lookup_reply r s1))"

text \<open>
  The start of \<^verbatim>\<open>Lookup\<close>: mark the bucket of the target and take the closest known nodes; \<^verbatim>\<open>None\<close> stands for
  an empty table, in which case \<^verbatim>\<open>Lookup\<close> calls \<^verbatim>\<open>refresh\<close> and returns nothing.
\<close>

definition lookup_start :: "time \<Rightarrow> nodeid \<Rightarrow> table \<Rightarrow> table \<times> lookup_state option" where
  "lookup_start now targetID tab =
     (let target = ByteHash256 (id_bytes targetID);
          tab1 = update_bucket tab (bucket_index tab target) (\<lambda>b. b\<lparr>lastLookup := now\<rparr>);
          result = closest tab1 target bucketSize
      in (tab1, if nbd_entries result = [] then None
                else Some \<lparr>lk_asked = [node_ID (self tab)], lk_seen = [], lk_pending = 0, lk_result = result, lk_queries = []\<rparr>))"

text \<open>
  The goroutine of one query: it ends by sending the nodes it could bond with. A query that failed counts against the
  node, which is dropped from the table after five failures; when the count cannot be stored, the goroutine returns
  without a reply (\<^verbatim>\<open>Ok None\<close>).
\<close>

definition query_reply :: "network \<Rightarrow> node list \<Rightarrow> ('db udp, unit, node list option) prog" where
  "query_reply nw r t = (case bondall nw r t of (t1, Ok ns) \<Rightarrow> (t1, Ok (Some ns)) | (t1, _) \<Rightarrow> (t1, Panic))"

definition lookup_query :: "network \<Rightarrow> nodeid \<Rightarrow> node \<Rightarrow> ('db udp, unit, node list option) prog" where
  "lookup_query nw targetID n t =
     (case nw_findnode nw (node_ID n) (node_addr n) targetID of
        (r, None) \<Rightarrow> query_reply nw r t
      | (r, Some _) \<Rightarrow>
          (let fails = findFails (node_ID n) (u_db t) + 1 in
           case on_db (updateFindFails (node_ID n) fails) t of
             (t1, Ok _) \<Rightarrow>
               query_reply nw r (if fails \<ge> maxFindnodeFailures then t1\<lparr>u_table := del_node n (u_table t1)\<rparr> else t1)
           | (t1, Err _) \<Rightarrow> (t1, Ok None)
           | (t1, Panic) \<Rightarrow> (t1, Panic)))"

section \<open>What the loop asks\<close>

definition ask_ok :: "node list \<Rightarrow> nodeid list \<Rightarrow> nat \<Rightarrow> nodeid list \<times> nat \<times> node list \<Rightarrow> bool" where
  "ask_ok ns asked pend r \<longleftrightarrow>
     (case r of (asked', pend', qs) \<Rightarrow>
        set asked' = set asked \<union> node_ID ` set qs \<and> pend' = pend + length qs \<and> (pend \<le> alpha \<longrightarrow> pend' \<le> alpha) \<and>
        distinct (map node_ID qs) \<and> (\<forall>q \<in> set qs. node_ID q \<notin> set asked) \<and>
        (pend' < alpha \<longrightarrow> node_ID ` set ns \<subseteq> set asked') \<and> set qs \<subseteq> set ns)"

lemma ask_loop_ok: "ask_ok ns asked pend (ask_loop ns asked pend)"
proof (induction ns asked pend rule: ask_loop.induct)
  case (2 n ns asked pend)
  show ?case
  proof (cases "pend < alpha \<and> node_ID n \<notin> set asked")
    case True
    obtain asked' pend' qs where r: "ask_loop ns (node_ID n # asked) (pend + 1) = (asked', pend', qs)"
      by (cases "ask_loop ns (node_ID n # asked) (pend + 1)")
    with 2(1) True have "ask_ok ns (node_ID n # asked) (pend + 1) (asked', pend', qs)" by simp
    with True r show ?thesis by (auto simp: ask_ok_def)
  next
    case False
    show ?thesis
    proof (cases "pend < alpha")
      case True
      obtain asked' pend' qs where r: "ask_loop ns asked pend = (asked', pend', qs)" by (cases "ask_loop ns asked pend")
      with 2(2) True False have "ask_ok ns asked pend (asked', pend', qs)" by simp
      moreover have "ask_loop (n # ns) asked pend = (asked', pend', qs)" using True False r by simp
      ultimately show ?thesis using True False unfolding ask_ok_def by (simp only: prod.case) auto
    qed (simp add: ask_ok_def)
  qed
qed (simp add: ask_ok_def)

text \<open>The nodes of a list whose identifier occurs for the first time.\<close>

fun firsts :: "nodeid set \<Rightarrow> node list \<Rightarrow> node list" where
  "firsts seen [] = []"
| "firsts seen (n # ns) = (if node_ID n \<in> seen then firsts seen ns else n # firsts (insert (node_ID n) seen) ns)"

lemma firsts_append: "firsts seen (xs @ ys) = firsts seen xs @ firsts (seen \<union> node_ID ` set xs) ys"
  by (induction xs arbitrary: seen) (auto simp: insert_absorb Un_insert_left)

lemma set_firsts: "set (firsts seen ns) \<subseteq> set ns"
  by (induction ns arbitrary: seen) auto

lemma absorb_seen: "set (fst (absorb ns seen h)) = set seen \<union> node_ID ` set ns"
  by (induction ns seen h rule: absorb.induct) auto

lemma absorb_pushes: "snd (absorb ns seen h) = foldl (\<lambda>c n. push c n bucketSize) h (firsts (set seen) ns)"
  by (induction ns seen h rule: absorb.induct) simp_all

text \<open>
  Between two turns of the loop, after the given replies: every query is either answered or pending, no
  node is asked twice, and the result holds the closest of all nodes known so far.
\<close>

definition lookup_inv :: "nodeid \<Rightarrow> hash \<Rightarrow> node list \<Rightarrow> node list list \<Rightarrow> lookup_state \<Rightarrow> bool" where
  "lookup_inv me target known replies s \<longleftrightarrow>
     length (lk_queries s) = length replies + lk_pending s \<and> lk_pending s \<le> alpha \<and>
     distinct (map node_ID (lk_queries s)) \<and> set (lk_asked s) = insert me (node_ID ` set (lk_queries s)) \<and>
     me \<notin> node_ID ` set (lk_queries s) \<and> set (lk_queries s) \<subseteq> set known \<union> set (concat replies) \<and>
     set (lk_seen s) = node_ID ` set (concat replies) \<and>
     lk_result s = foldl (\<lambda>c n. push c n bucketSize) \<lparr>nbd_entries = [], nbd_target = target\<rparr>
       (known @ firsts {} (concat replies))"

lemma result_entries:
  assumes "lookup_inv me target known replies s"
  shows "nbd_entries (lk_result s) =
    take 16 (sort_key (\<lambda>n. xor_dist target (node_Hash n)) (known @ firsts {} (concat replies)))"
  using assms unfolding lookup_inv_def
  by (simp add: nbd_entries_foldl_push nbd.push_all bucketSize_def del: foldl_append)

lemma result_known:
  assumes "lookup_inv me target known replies s"
  shows "set (nbd_entries (lk_result s)) \<subseteq> set known \<union> set (concat replies)"
proof -
  have "set (nbd_entries (lk_result s)) \<subseteq> set (known @ firsts {} (concat replies))"
    unfolding result_entries [OF assms] using set_take_subset by (metis set_sort)
  then show ?thesis using set_firsts [of "{}" "concat replies"] by auto
qed

lemma lookup_ask_inv:
  assumes "lookup_inv me target known replies s"
  shows "lookup_inv me target known replies (lookup_ask s)"
    and "lk_pending (lookup_ask s) = 0 \<Longrightarrow>
      node_ID ` set (nbd_entries (lk_result (lookup_ask s))) \<subseteq> set (lk_asked (lookup_ask s))"
proof -
  obtain asked pend qs where r: "ask_loop (nbd_entries (lk_result s)) (lk_asked s) (lk_pending s) = (asked, pend, qs)"
    by (cases "ask_loop (nbd_entries (lk_result s)) (lk_asked s) (lk_pending s)")
  have ok: "ask_ok (nbd_entries (lk_result s)) (lk_asked s) (lk_pending s) (asked, pend, qs)"
    using ask_loop_ok [of "nbd_entries (lk_result s)" "lk_asked s" "lk_pending s"] r by simp
  have s: "lookup_ask s = s\<lparr>lk_asked := asked, lk_pending := pend, lk_queries := lk_queries s @ qs\<rparr>"
    by (simp add: lookup_ask_def r)
  have "set qs \<subseteq> set known \<union> set (concat replies)" using ok result_known [OF assms] by (auto simp: ask_ok_def)
  moreover have "node_ID ` set qs \<inter> node_ID ` set (lk_queries s) = {}" "me \<notin> node_ID ` set qs"
    using ok assms unfolding ask_ok_def lookup_inv_def by auto
  ultimately show "lookup_inv me target known replies (lookup_ask s)"
    using assms ok unfolding s lookup_inv_def ask_ok_def by auto
  show "node_ID ` set (nbd_entries (lk_result (lookup_ask s))) \<subseteq> set (lk_asked (lookup_ask s))"
    if "lk_pending (lookup_ask s) = 0"
    using that ok unfolding s ask_ok_def by (auto simp: alpha_def)
qed

lemma lookup_reply_inv:
  assumes "lookup_inv me target known replies s" "0 < lk_pending s"
  shows "lookup_inv me target known (replies @ [r]) (lookup_reply r s)"
proof -
  have s: "lk_seen (lookup_reply r s) = fst (absorb r (lk_seen s) (lk_result s))"
    "lk_result (lookup_reply r s) = snd (absorb r (lk_seen s) (lk_result s))"
    "lk_pending (lookup_reply r s) = lk_pending s - 1" "lk_queries (lookup_reply r s) = lk_queries s"
    "lk_asked (lookup_reply r s) = lk_asked s"
    by (simp_all add: lookup_reply_def split: prod.split)
  have "firsts {} (concat (replies @ [r])) = firsts {} (concat replies) @ firsts (set (lk_seen s)) r"
    using assms(1) by (simp add: firsts_append lookup_inv_def)
  then have "lk_result (lookup_reply r s) = foldl (\<lambda>c n. push c n bucketSize) \<lparr>nbd_entries = [], nbd_target = target\<rparr>
      (known @ firsts {} (concat (replies @ [r])))"
    using assms(1) unfolding s(2) absorb_pushes by (simp add: lookup_inv_def)
  moreover have "set (lk_seen (lookup_reply r s)) = node_ID ` set (concat (replies @ [r]))"
    using assms(1) unfolding s(1) absorb_seen by (simp add: lookup_inv_def image_Un)
  ultimately show ?thesis using assms unfolding lookup_inv_def s(3-5) by auto
qed

text \<open>How a search ends, or what it waits for.\<close>

lemma lookup_loop_inv:
  assumes "lookup_inv me target known replies s"
  shows "case lookup_loop rs s of
      Found s' \<Rightarrow> (\<exists>k \<le> length rs. lookup_inv me target known (replies @ take k rs) s' \<and> lk_pending s' = 0 \<and>
         node_ID ` set (nbd_entries (lk_result s')) \<subseteq> set (lk_asked s'))
    | Waiting s' \<Rightarrow> lookup_inv me target known (replies @ rs) s' \<and> 0 < lk_pending s'"
  using assms
proof (induction rs s arbitrary: replies rule: lookup_loop.induct)
  case (1 s)
  then show ?case using lookup_ask_inv [OF 1] by (auto simp: Let_def)
next
  case (2 r rs s)
  note ask = lookup_ask_inv [OF 2(2)]
  show ?case
  proof (cases "lk_pending (lookup_ask s) = 0")
    case True
    then show ?thesis using ask by (auto simp: Let_def intro: exI [of _ 0])
  next
    case False
    then have "lookup_inv me target known (replies @ [r]) (lookup_reply r (lookup_ask s))"
      using lookup_reply_inv [OF ask(1)] by simp
    from 2(1) [OF refl False this] False show ?thesis
      by (cases "lookup_loop rs (lookup_reply r (lookup_ask s))") (auto simp: Let_def intro: exI [of _ "Suc _"])
  qed
qed

lemma all_entries_touch: "all_entries (update_bucket tab i (\<lambda>b. b\<lparr>lastLookup := now\<rparr>)) = all_entries tab"
proof -
  have "map entries ((buckets tab)[i := (buckets tab ! i)\<lparr>lastLookup := now\<rparr>]) = map entries (buckets tab)"
    by (simp add: map_update) (metis list_update_beyond list_update_id map_update not_le nth_map)
  then show ?thesis by (simp add: all_entries_def update_bucket_def)
qed

lemma lookup_start_inv:
  assumes "lookup_start now targetID tab = (tab1, Some s)"
  shows "lookup_inv (node_ID (self tab)) (ByteHash256 (id_bytes targetID)) (all_entries tab) [] s"
proof -
  have "all_entries tab1 = all_entries tab"
    using assms by (auto simp: lookup_start_def Let_def all_entries_touch)
  then show ?thesis
    using assms by (auto simp: lookup_start_def Let_def lookup_inv_def closest_foldl split: if_splits)
qed

lemma lookup_queries_bound:
  assumes "lookup_inv me target known replies s" "node_ID ` set (known @ concat replies) \<subseteq> U" "finite U"
  shows "length (lk_queries s) \<le> card U"
proof -
  have "length (lk_queries s) = card (node_ID ` set (lk_queries s))"
    using assms(1) unfolding lookup_inv_def by (metis distinct_card length_map list.set_map)
  also have "\<dots> \<le> card U"
  proof (rule card_mono [OF assms(3)])
    have "set (lk_queries s) \<subseteq> set (known @ concat replies)" using assms(1) unfolding lookup_inv_def by simp
    then show "node_ID ` set (lk_queries s) \<subseteq> U" using assms(2) by (metis image_mono order.trans)
  qed
  finally show ?thesis .
qed

section \<open>The properties\<close>

text \<open>
  C9: What a search finds. A search over a table with nodes asks no node twice and never the node
  itself, has at most three queries open, and can only end when every query was answered; then it has
  asked every node of its result, and the result is exactly the sixteen nodes closest to the target
  among the nodes of the table and the nodes of the replies, nearest first. It does end: with as many
  replies as there are node identifiers in play.
\<close>

theorem lookup_finds_closest:
  assumes "lookup_start now targetID tab = (tab1, Some s)"
  shows "case lookup_loop replies s of
      Found s' \<Rightarrow> (\<exists>k \<le> length replies. length (lk_queries s') = k \<and>
         distinct (map node_ID (lk_queries s')) \<and> node_ID (self tab) \<notin> node_ID ` set (lk_queries s') \<and>
         node_ID ` set (nbd_entries (lk_result s')) \<subseteq> insert (node_ID (self tab)) (node_ID ` set (lk_queries s')) \<and>
         nbd_entries (lk_result s') =
           take 16 (sort_key (\<lambda>n. xor_dist (ByteHash256 (id_bytes targetID)) (node_Hash n))
             (all_entries tab @ firsts {} (concat (take k replies)))))
    | Waiting s' \<Rightarrow> length (lk_queries s') = length replies + lk_pending s' \<and> 0 < lk_pending s' \<and> lk_pending s' \<le> 3 \<and>
         length replies < card (node_ID ` set (all_entries tab @ concat replies))"
proof -
  let ?me = "node_ID (self tab)" and ?t = "ByteHash256 (id_bytes targetID)"
  note inv = lookup_loop_inv [OF lookup_start_inv [OF assms], of replies]
  show ?thesis
  proof (cases "lookup_loop replies s")
    case (Found s')
    then obtain k where k: "k \<le> length replies" "lookup_inv ?me ?t (all_entries tab) (take k replies) s'"
      "lk_pending s' = 0" "node_ID ` set (nbd_entries (lk_result s')) \<subseteq> set (lk_asked s')" using inv by auto
    then show ?thesis
      using Found result_entries [OF k(2)] by (auto simp: lookup_inv_def)
  next
    case (Waiting s')
    then have w: "lookup_inv ?me ?t (all_entries tab) replies s'" "0 < lk_pending s'" using inv by simp_all
    have "length (lk_queries s') \<le> card (node_ID ` set (all_entries tab @ concat replies))"
      by (rule lookup_queries_bound [OF w(1)]) simp_all
    then show ?thesis using Waiting w by (auto simp: lookup_inv_def alpha_def)
  qed
qed

lemma lookup_loop_later:
  "lookup_loop rs s = Waiting s' \<Longrightarrow>
   lookup_loop (rs @ later) s = (case later of [] \<Rightarrow> Waiting s' | m # ms \<Rightarrow> lookup_loop ms (lookup_reply m s'))"
  by (induction rs s rule: lookup_loop.induct) (auto simp: Let_def split: if_splits list.split)

fun outcome_state :: "lookup_outcome \<Rightarrow> lookup_state" where
  "outcome_state (Found s) = s"
| "outcome_state (Waiting s) = s"

lemma lookup_queries_grow: "length (lk_queries s) \<le> length (lk_queries (outcome_state (lookup_loop rs s)))"
proof -
  have a: "length (lk_queries s) \<le> length (lk_queries (lookup_ask s))" for s
    by (simp add: lookup_ask_def split: prod.split)
  have r: "lk_queries (lookup_reply m s) = lk_queries s" for m s
    by (simp add: lookup_reply_def split: prod.split)
  show ?thesis
  proof (induction rs s rule: lookup_loop.induct)
    case (2 m ms s)
    then show ?case using a [of s] r [of m "lookup_ask s"] by (auto simp: Let_def)
  qed (use a in \<open>simp add: Let_def\<close>)
qed

lemma lookup_needs_all_replies:
  assumes "lookup_start now targetID tab = (tab1, Some s)" "lookup_loop replies s = Waiting s'"
    and "length later < lk_pending s'"
  shows "\<exists>s''. lookup_loop (replies @ later) s = Waiting s''"
proof (cases "lookup_loop (replies @ later) s")
  case (Found s'')
  note inv = lookup_loop_inv [OF lookup_start_inv [OF assms(1)]]
  have q: "length (lk_queries s') = length replies + lk_pending s'"
    using inv [of replies] assms(2) by (simp add: lookup_inv_def)
  have "length (lk_queries s'') \<le> length (replies @ later)"
    using inv [of "replies @ later"] Found by (auto simp: lookup_inv_def)
  moreover have "length (lk_queries s') \<le> length (lk_queries s'')"
  proof (cases later)
    case Nil
    then show ?thesis using Found assms(2) by simp
  next
    case (Cons m ms)
    have "lk_queries (lookup_reply m s') = lk_queries s'" by (simp add: lookup_reply_def split: prod.split)
    moreover have "lookup_loop ms (lookup_reply m s') = Found s''"
      using Found Cons lookup_loop_later [OF assms(2), of later] by simp
    ultimately show ?thesis using lookup_queries_grow [of "lookup_reply m s'" ms] by simp
  qed
  ultimately show ?thesis using q assms(3) by simp
qed blast

text \<open>
  A search hangs when the database fails. A query whose failure count cannot be stored sends no
  reply, and as long as fewer replies arrive than queries are open, the search does not end.
\<close>

theorem lookup_hangs_without_reply:
  assumes "lookup_start now targetID tab = (tab1, Some s)" "lookup_loop replies s = Waiting s'"
    and "snd (nw_findnode nw (node_ID n) (node_addr n) targetID) \<noteq> None"
    and "snd (updateFindFails (node_ID n) (findFails (node_ID n) (u_db t) + 1) (u_db t)) = Err e"
  shows "snd (lookup_query nw targetID n t) = Ok None \<and>
    (\<forall>later. length later < lk_pending s' \<longrightarrow> (\<exists>s''. lookup_loop (replies @ later) s = Waiting s''))"
proof -
  have "snd (lookup_query nw targetID n t) = Ok None"
    using assms(3,4) by (auto simp: lookup_query_def on_db_def Let_def split: prod.splits option.splits)
  then show ?thesis using lookup_needs_all_replies [OF assms(1,2)] by blast
qed

text \<open>
  A search may return a node twice: the nodes it starts from are not marked as seen. When the only
  node of the table names itself in its reply, the result holds it twice.
\<close>

theorem lookup_returns_node_twice:
  assumes "all_entries tab = [n]" "node_ID n \<noteq> node_ID (self tab)"
    and "lookup_start now targetID tab = (tab1, Some s)"
  shows "\<exists>s'. lookup_loop [[n]] s = Found s' \<and> nbd_entries (lk_result s') = [n, n]"
proof -
  let ?me = "node_ID (self tab)" and ?t = "ByteHash256 (id_bytes targetID)"
  note inv = lookup_loop_inv [OF lookup_start_inv [OF assms(3)], of "[[n]]", unfolded assms(1)]
  have s: "lk_asked s = [?me]" "lk_pending s = 0" "lk_queries s = []"
    using assms(3) by (auto simp: lookup_start_def Let_def split: if_splits)
  have "nbd_entries (lk_result s) = [n]"
    using result_entries [OF lookup_start_inv [OF assms(3)]] assms(1) by simp
  then have ask: "lk_pending (lookup_ask s) = 1" "lk_queries (lookup_ask s) = [n]"
    using s assms(2) by (simp_all add: lookup_ask_def alpha_def)
  show ?thesis
  proof (cases "lookup_loop [[n]] s")
    case (Waiting s')
    then have "length (lk_queries s') = 1 + lk_pending s'" "0 < lk_pending s'" "distinct (map node_ID (lk_queries s'))"
      "set (lk_queries s') \<subseteq> {n}" using inv by (auto simp: lookup_inv_def)
    moreover have "length (lk_queries s') \<le> 1"
      using calculation(3,4) by (cases "lk_queries s'"; cases "tl (lk_queries s')") auto
    ultimately show ?thesis by simp
  next
    case (Found s')
    then obtain k where k: "k \<le> 1" "lookup_inv ?me ?t [n] (take k [[n]]) s'" "lk_pending s' = 0" using inv by auto
    have "1 \<le> length (lk_queries s')"
      using lookup_queries_grow [of "lookup_reply [n] (lookup_ask s)" "[]"] Found ask
      by (simp add: Let_def lookup_reply_def split: prod.splits if_splits)
    then have "k = 1" using k by (auto simp: lookup_inv_def)
    then show ?thesis using Found result_entries [OF k(2)] by (simp add: insort_key.simps)
  qed
qed

section \<open>An example\<close>

definition demo_found :: node where
  "demo_found = newNode [10, 0, 0, 2] 9001 9001 (id_of [2])"

definition demo_search :: table where
  "demo_search = bond_insert True demo_found (newTable (id_of [1]) \<lparr>ua_IP = [10, 0, 0, 1], ua_Port = 9001\<rparr>)"

lemma demo_search_simps:
  "all_entries demo_search = [demo_found]" "node_ID (self demo_search) = id_of [1]" "node_ID demo_found \<noteq> id_of [1]"
proof -
  show "all_entries demo_search = [demo_found]" by (simp add: demo_search_def bond_insert_first)
  show "node_ID (self demo_search) = id_of [1]" by (simp add: demo_search_def bond_insert_def newTable_def)
  show "node_ID demo_found \<noteq> id_of [1]" unfolding nodeid_eq_iff by (simp add: demo_found_def array_of_def go_copy_def)
qed

lemma demo_starts: "\<exists>tab1 s. lookup_start 0 (id_of [9]) demo_search = (tab1, Some s)"
proof -
  have "nbd_entries (closest (update_bucket demo_search i (\<lambda>b. b\<lparr>lastLookup := 0\<rparr>)) h bucketSize) = [demo_found]" for i h
    unfolding closest_eq all_entries_touch demo_search_simps(1) by (simp add: bucketSize_def)
  then show ?thesis by (simp add: lookup_start_def Let_def)
qed

theorem lookup_finds_closest_witness:
  "\<exists>tab1 s s'. lookup_start 0 (id_of [9]) demo_search = (tab1, Some s) \<and> lookup_loop [] s = Waiting s' \<and>
     0 < lk_pending s' \<and> lk_pending s' \<le> 3"
proof -
  obtain tab1 s where s: "lookup_start 0 (id_of [9]) demo_search = (tab1, Some s)" using demo_starts by blast
  from lookup_finds_closest [OF this, of "[]"] s show ?thesis
    by (cases "lookup_loop [] s") (auto simp: demo_search_simps)
qed

definition read_only_db :: "(bytes \<times> bytes) list nodeDB" where
  "read_only_db = demo_db\<lparr>ndb_storage := (ndb_storage demo_db)\<lparr>st_engine := list_engine\<lparr>eng_set := \<lambda>_ _ _. None\<rparr>\<rparr>\<rparr>"

lemma read_only_fails: "snd (updateFindFails i n read_only_db) = Err (StorageErr WriteErr)"
  by (simp add: updateFindFails_def storeInt64_def on_storage_def SetData_def read_only_db_def)

theorem lookup_hangs_without_reply_witness:
  "\<exists>tab1 s s'. lookup_start 0 (id_of [9]) demo_search = (tab1, Some s) \<and> lookup_loop [] s = Waiting s' \<and>
     snd (lookup_query (demo_network\<lparr>nw_findnode := \<lambda>_ _ _. ([], Some ErrTimeout)\<rparr>) (id_of [9]) demo_found
       ((demo_udp 1)\<lparr>u_db := read_only_db\<rparr>)) = Ok None"
proof -
  obtain tab1 s where s: "lookup_start 0 (id_of [9]) demo_search = (tab1, Some s)" using demo_starts by blast
  have "nbd_entries (lk_result s) = [demo_found]"
    using result_entries [OF lookup_start_inv [OF s]] by (simp add: demo_search_simps)
  moreover have "lk_asked s = [id_of [1]]" "lk_pending s = 0"
    using s by (auto simp: lookup_start_def Let_def demo_search_simps split: if_splits)
  ultimately have "lk_pending (lookup_ask s) = 1" using demo_search_simps(3) by (simp add: lookup_ask_def alpha_def)
  then obtain s' where s': "lookup_loop [] s = Waiting s'" by (simp add: Let_def)
  then show ?thesis
    using lookup_hangs_without_reply [OF s s', of "demo_network\<lparr>nw_findnode := \<lambda>_ _ _. ([], Some ErrTimeout)\<rparr>" demo_found
        "(demo_udp 1)\<lparr>u_db := read_only_db\<rparr>"] s
    by (simp add: read_only_fails)
qed

theorem lookup_returns_node_twice_witness:
  "\<exists>tab1 s s'. lookup_start 0 (id_of [9]) demo_search = (tab1, Some s) \<and>
     lookup_loop [[demo_found]] s = Found s' \<and> nbd_entries (lk_result s') = [demo_found, demo_found]"
proof -
  obtain tab1 s where s: "lookup_start 0 (id_of [9]) demo_search = (tab1, Some s)" using demo_starts by blast
  from lookup_returns_node_twice [OF demo_search_simps(1) _ this] s show ?thesis by (simp add: demo_search_simps)
qed

end
