(* ===== verification/Search.thy ===== *)
theory Search
  imports Lookup
begin

text \<open>
  The operations \<^verbatim>\<open>Lookup\<close>, \<^verbatim>\<open>refresh\<close> and \<^verbatim>\<open>Bootstrap\<close> of discover/table.go as a whole: the loop of theory Lookup with the
  queries it starts, each of which talks to the network, bonds with the nodes it was told about and changes the table and the
  database. The order in which open queries end is an argument, with what the network answers meanwhile.
\<close>

text \<open>
  How an operation ends: it returns, waits for a reply that nothing will send, panics, or the bound on nested calls was
  too small.
\<close>

datatype 'a run = Done 'a | Blocked | Crashed | Unfinished

text \<open>
  The network and the chance a call meets: the time, what \<^verbatim>\<open>rand.Read\<close> returns, the answers while it bonds with seeds, and the
  schedules of the two searches \<^verbatim>\<open>refresh\<close> may run.
\<close>

type_synonym schedule = "(nat \<times> network) list"

record world =
  w_now :: time
  w_random :: "nodeid option"
  w_net :: network
  w_first :: schedule
  w_second :: schedule

section \<open>The search\<close>

text \<open>
  The wait for replies. An entry of the schedule is the end of one of the open queries. The loop reads nothing the queries write
  but their replies, so that a reply can be taken at the moment its query ends. A schedule that ends leaves the search waiting.
\<close>

fun search_wait :: "schedule \<Rightarrow> nodeid \<Rightarrow> lookup_state \<Rightarrow> node list \<Rightarrow> 'db udp \<Rightarrow> 'db udp \<times> node list run" where
  "search_wait [] targetID s opn t = (t, Blocked)"
| "search_wait ((k, nw) # rest) targetID s opn t =
     (if opn = [] then (t, Blocked)
      else
        let i = k mod length opn; others = take i opn @ drop (Suc i) opn in
        case lookup_query nw targetID (opn ! i) t of
          (t1, Ok (Some ns)) \<Rightarrow>
            (let s1 = lookup_ask (lookup_reply ns s);
                 started = drop (length (lk_queries s)) (lk_queries s1)
             in if lk_pending s1 = 0 then (t1, Done (nbd_entries (lk_result s1)))
                else search_wait rest targetID s1 (others @ started) t1)
        | (t1, Ok None) \<Rightarrow> search_wait rest targetID s others t1
        | (t1, _) \<Rightarrow> (t1, Crashed))"

definition search_run :: "schedule \<Rightarrow> nodeid \<Rightarrow> lookup_state \<Rightarrow> 'db udp \<Rightarrow> 'db udp \<times> node list run" where
  "search_run sched targetID s t =
     (let s1 = lookup_ask s in
      if lk_pending s1 = 0 then (t, Done (nbd_entries (lk_result s1)))
      else search_wait sched targetID s1 (lk_queries s1) t)"

section \<open>Lookup and refresh\<close>

definition table_empty :: "table \<Rightarrow> bool" where
  "table_empty tab \<longleftrightarrow> (\<forall>b \<in> set (buckets tab). entries b = [])"

text \<open>The nodes \<^verbatim>\<open>refresh\<close> bonds with: the bootstrap nodes and up to ten seeds of the database.\<close>

definition refresh_nodes :: "('db udp, db_error, node list) prog" where
  "refresh_nodes t =
     (case querySeeds 10 (u_db t) of
        (db, Ok seeds) \<Rightarrow> (t\<lparr>u_db := db\<rparr>, Ok (nursery (u_table t) @ seeds))
      | (db, r) \<Rightarrow> (t\<lparr>u_db := db\<rparr>, r))"

fun ignore_result :: "'s \<times> 'a run \<Rightarrow> 'b \<Rightarrow> 's \<times> 'b run" where
  "ignore_result (t, Done _) x = (t, Done x)"
| "ignore_result (t, Blocked) x = (t, Blocked)"
| "ignore_result (t, Crashed) x = (t, Crashed)"
| "ignore_result (t, Unfinished) x = (t, Unfinished)"

text \<open>
  \<^verbatim>\<open>Lookup\<close> calls \<^verbatim>\<open>refresh\<close> when the table is empty, and \<^verbatim>\<open>refresh\<close> calls \<^verbatim>\<open>Lookup\<close>. The number bounds the nesting; \<^verbatim>\<open>W\<close> gives the
  world a call at each depth meets.
\<close>

fun Lookup :: "nat \<Rightarrow> (nat \<Rightarrow> world) \<Rightarrow> schedule \<Rightarrow> nodeid \<Rightarrow> 'db udp \<Rightarrow> 'db udp \<times> node list run"
  and refresh :: "nat \<Rightarrow> (nat \<Rightarrow> world) \<Rightarrow> 'db udp \<Rightarrow> 'db udp \<times> unit run"
  and refresh_seed :: "nat \<Rightarrow> (nat \<Rightarrow> world) \<Rightarrow> 'db udp \<Rightarrow> 'db udp \<times> unit run"
where
  "Lookup 0 W sched targetID t = (t, Unfinished)"
| "Lookup (Suc n) W sched targetID t =
     (case lookup_start (w_now (W n)) targetID (u_table t) of
        (tab, None) \<Rightarrow> ignore_result (refresh n W (t\<lparr>u_table := tab\<rparr>)) []
      | (tab, Some s) \<Rightarrow> search_run sched targetID s (t\<lparr>u_table := tab\<rparr>))"
| "refresh 0 W t = (t, Unfinished)"
| "refresh (Suc n) W t =
     (if table_empty (u_table t) then refresh_seed n W t
      else
        case w_random (W n) of None \<Rightarrow> (t, Done ())
        | Some targetID \<Rightarrow>
            (case Lookup n W (w_first (W n)) targetID t of
               (t1, Done []) \<Rightarrow> refresh_seed n W t1
             | r \<Rightarrow> ignore_result r ()))"
| "refresh_seed 0 W t = (t, Unfinished)"
| "refresh_seed (Suc n) W t =
     (case refresh_nodes t of
        (t1, Ok nodes) \<Rightarrow>
          (case bondall (w_net (W n)) nodes t1 of
             (t2, Ok bonded) \<Rightarrow>
               if bonded = [] then (t2, Done ())
               else ignore_result (Lookup n W (w_second (W n)) (node_ID (self (u_table t2))) t2) ()
           | (t2, _) \<Rightarrow> (t2, Crashed))
      | (t1, _) \<Rightarrow> (t1, Crashed))"

definition Bootstrap :: "nat \<Rightarrow> (nat \<Rightarrow> world) \<Rightarrow> node list \<Rightarrow> 'db udp \<Rightarrow> 'db udp \<times> unit run" where
  "Bootstrap n W nodes t = refresh n W (t\<lparr>u_table := (u_table t)\<lparr>nursery := nodes\<rparr>\<rparr>)"

section \<open>Tables with nodes\<close>

text \<open>A table of the right shape with at least one node.\<close>

definition shaped :: "'db udp \<Rightarrow> bool" where
  "shaped t \<longleftrightarrow> length (buckets (u_table t)) = nBuckets"

definition inhabited :: "'db udp \<Rightarrow> bool" where
  "inhabited t \<longleftrightarrow> shaped t \<and> \<not> table_empty (u_table t)"

lemma table_empty_iff: "table_empty tab \<longleftrightarrow> all_entries tab = []"
  by (auto simp: table_empty_def all_entries_def)

lemma bond_insert_inhabited:
  assumes "length (buckets tab) = nBuckets"
  shows "\<not> table_empty (bond_insert r n tab)" "length (buckets (bond_insert r n tab)) = nBuckets"
proof -
  let ?i = "bucket_index tab (node_Hash n)"
  let ?b = "case bump (buckets tab ! ?i) n of (b', True) \<Rightarrow> b' | (_, False) \<Rightarrow> pingreplace r n (buckets tab ! ?i)"
  have "entries ?b \<noteq> []"
    by (auto simp: bump_entries pingreplace_entries bucketSize_def split: option.split)
  moreover have "?b \<in> set (buckets (bond_insert r n tab))"
    using bucket_index_less [of tab "node_Hash n"] assms
    by (simp add: bond_insert_def update_bucket_def set_update_memI)
  ultimately show "\<not> table_empty (bond_insert r n tab)" by (auto simp: table_empty_def)
  show "length (buckets (bond_insert r n tab)) = nBuckets" using assms by (simp add: bond_insert_def)
qed

text \<open>Programs that leave the table alone.\<close>

definition keeps_table :: "('db udp, 'e, 'a) prog \<Rightarrow> bool" where
  "keeps_table m \<longleftrightarrow> (\<forall>t. u_table (fst (m t)) = u_table t)"

lemma keeps_tableD: "keeps_table m \<Longrightarrow> m t = (t', r) \<Longrightarrow> u_table t' = u_table t"
  by (metis keeps_table_def fst_conv)

lemma keeps_bind: "keeps_table m \<Longrightarrow> (\<And>x. keeps_table (f x)) \<Longrightarrow> keeps_table (prog_bind m f)"
  unfolding keeps_table_def prog_bind_def by (simp split: prod.split res.split) (metis fst_conv)

lemma keeps_on_db: "keeps_table (on_db m)"
  by (simp add: keeps_table_def on_db_def split: prod.split res.split)

lemma keeps_tab_ping: "keeps_table (tab_ping nw i addr)"
  unfolding tab_ping_def
  by (intro keeps_bind keeps_on_db)
    (auto simp: keeps_table_def fail_def split: prod.split option.split intro!: keeps_bind [unfolded keeps_table_def, rule_format]
      keeps_on_db [unfolded keeps_table_def, rule_format])

lemma keeps_pingpong: "keeps_table (pingpong nw i addr p)"
proof -
  have "keeps_table (\<lambda>t. let n = newNode (ua_IP addr) (of_int (ua_Port addr)) p i in
      case on_db (updateNode n) t of (t1, Panic) \<Rightarrow> (t1, Panic) | (t1, _) \<Rightarrow> (t1, Ok n))"
    using keeps_tableD [OF keeps_on_db [of "updateNode n" for n]]
    by (auto simp: keeps_table_def Let_def split: prod.split res.split)
  then show ?thesis unfolding pingpong_def by (intro keeps_bind keeps_tab_ping)
qed

lemma keeps_bond_ask: "keeps_table (bond_ask nw i addr p known)"
  using keeps_tableD [OF keeps_pingpong] by (auto simp: keeps_table_def bond_ask_def Let_def split: prod.split res.split)

lemma bond_place_table:
  assumes "bond_place nw n t = (t', r)"
  shows "(\<exists>d. u_table t' = bond_insert d n (u_table t)) \<or> r = Panic \<and> u_table t' = u_table t"
  using assms
  by (auto simp: bond_place_def Let_def dest!: keeps_tableD [OF keeps_tab_ping] split: if_splits prod.splits res.splits)

lemma place_shape:
  assumes "bond_place nw n t = (t', r)" "shaped t"
  shows "shaped t'" "inhabited t \<or> r \<noteq> Panic \<Longrightarrow> inhabited t'"
  using bond_place_table [OF assms(1)] bond_insert_inhabited [of "u_table t"] assms(2)
  by (auto simp: shaped_def inhabited_def)

lemma bond_shape:
  assumes "bond nw i addr p t = (t', r)" "shaped t"
  shows "shaped t'" "inhabited t \<or> (\<exists>n e. r = Ok (Some n, e)) \<Longrightarrow> inhabited t'"
proof -
  have same: "shaped t2 = shaped t1 \<and> inhabited t2 = inhabited t1" if "u_table t2 = u_table t1" for t1 t2 :: "'a udp"
    using that by (simp add: shaped_def inhabited_def)
  note keep = keeps_tableD [OF keeps_bond_ask] keeps_tableD [OF keeps_on_db]
  show "shaped t'" "inhabited t \<or> (\<exists>n e. r = Ok (Some n, e)) \<Longrightarrow> inhabited t'"
    using assms by (auto simp: bond_def dest!: keep dest: same place_shape split: res.splits prod.splits option.splits)
qed

lemma bondall_shape:
  assumes "bondall nw ns t = (t', r)" "shaped t"
  shows "shaped t' \<and> (inhabited t \<longrightarrow> inhabited t') \<and> (\<forall>m ms. r = Ok (m # ms) \<longrightarrow> inhabited t')"
  using assms
proof (induction ns arbitrary: t r)
  case (Cons n ns)
  obtain t1 q where q: "bond nw (node_ID n) (node_addr n) (node_TCP n) t = (t1, q)" by fastforce
  note sh = bond_shape [OF q Cons.prems(2)]
  show ?case
  proof (cases q)
    case (Ok x)
    obtain m e where x: "x = (m, e)" by fastforce
    obtain t2 rs where rs: "bondall nw ns t1 = (t2, rs)" by fastforce
    have t2: "t2 = t'" using Cons.prems(1) by (auto simp: q Ok x rs split: res.splits)
    have IH: "shaped t' \<and> (inhabited t1 \<longrightarrow> inhabited t') \<and> (\<forall>m ms. rs = Ok (m # ms) \<longrightarrow> inhabited t')"
      using Cons.IH [OF rs [unfolded t2]] sh(1) by blast
    moreover have "inhabited t'" if "r = Ok (n' # ms)" for n' ms
      using that Cons.prems(1) IH sh(2) by (cases m; cases rs) (auto simp: q Ok x rs split: res.splits)
    ultimately show ?thesis using sh(2) by blast
  qed (use Cons.prems(1) sh in \<open>auto simp: q\<close>)
qed auto

lemma length_del_node [simp]: "length (buckets (del_node n tab)) = length (buckets tab)"
  by (simp add: del_node_def)

lemma del_node_shape: "shaped (t\<lparr>u_table := del_node n (u_table t)\<rparr>) \<longleftrightarrow> shaped t"
  by (simp add: shaped_def)

lemma query_reply_shape: "query_reply nw r t = (t', q) \<Longrightarrow> shaped t \<Longrightarrow> shaped t'"
  using bondall_shape [of nw r t] by (auto simp: query_reply_def split: prod.splits res.splits)

lemma on_db_shape: "on_db m t = (t', q) \<Longrightarrow> shaped t' \<longleftrightarrow> shaped t"
  using keeps_tableD [OF keeps_on_db] by (fastforce simp: shaped_def)

lemma lookup_query_shape:
  assumes "lookup_query nw targetID n t = (t', r)" "shaped t"
  shows "shaped t'"
proof -
  obtain ns e where ns: "nw_findnode nw (node_ID n) (node_addr n) targetID = (ns, e)" by fastforce
  let ?fails = "findFails (node_ID n) (u_db t) + 1"
  obtain t1 q where t1: "on_db (updateFindFails (node_ID n) ?fails) t = (t1, q)" by fastforce
  have "shaped t1" using on_db_shape [OF t1] assms(2) by simp
  then show ?thesis
    using assms ns t1
    by (cases e; cases q) (auto simp: lookup_query_def Let_def del_node_shape dest!: query_reply_shape split: if_splits)
qed

lemma search_wait_shape: "shaped t \<Longrightarrow> shaped (fst (search_wait sched targetID s opn t)) \<and> snd (search_wait sched targetID s opn t) \<noteq> Unfinished"
proof (induction sched targetID s opn t rule: search_wait.induct)
  case (2 k nw rest targetID s opn t)
  show ?case
  proof (cases "opn = []")
    case False
    let ?i = "k mod length opn"
    obtain t1 r where q: "lookup_query nw targetID (opn ! ?i) t = (t1, r)" by fastforce
    have "shaped t1" by (rule lookup_query_shape [OF q 2(3)])
    then show ?thesis
      using False 2(1) [OF False refl refl, of t1] 2(2) [OF False refl refl, of t1] q
      by (cases r) (auto simp: Let_def split: option.split)
  qed (use 2(3) in simp)
qed simp

lemma lookup_start_shape:
  assumes "lookup_start now targetID (u_table t) = (tab, r)"
  shows "shaped (t\<lparr>u_table := tab\<rparr>) \<longleftrightarrow> shaped t" "inhabited t \<Longrightarrow> r \<noteq> None"
proof -
  have tab: "tab = update_bucket (u_table t) (bucket_index (u_table t) (ByteHash256 (id_bytes targetID)))
      (\<lambda>b. b\<lparr>lastLookup := now\<rparr>)"
    using assms by (simp add: lookup_start_def Let_def)
  then show "shaped (t\<lparr>u_table := tab\<rparr>) \<longleftrightarrow> shaped t" by (simp add: shaped_def)
  assume "inhabited t"
  then have "all_entries tab \<noteq> []" by (simp add: inhabited_def table_empty_iff tab all_entries_touch)
  then have "nbd_entries (closest tab (ByteHash256 (id_bytes targetID)) bucketSize) \<noteq> []"
    by (simp add: closest_eq bucketSize_def) (metis length_0_conv length_sort)
  then show "r \<noteq> None" using assms tab by (auto simp: lookup_start_def Let_def)
qed

lemma search_run_shape:
  "shaped t \<Longrightarrow> shaped (fst (search_run sched targetID s t)) \<and> snd (search_run sched targetID s t) \<noteq> Unfinished"
  using search_wait_shape [of t] by (simp add: search_run_def Let_def)

section \<open>Nesting\<close>

lemma Lookup_inhabited:
  assumes "inhabited t"
  shows "shaped (fst (Lookup (Suc n) W sched targetID t)) \<and> snd (Lookup (Suc n) W sched targetID t) \<noteq> Unfinished"
proof -
  obtain tab r where st: "lookup_start (w_now (W n)) targetID (u_table t) = (tab, r)" by fastforce
  obtain s where s: "r = Some s" using lookup_start_shape(2) [OF st assms] by auto
  have "shaped (t\<lparr>u_table := tab\<rparr>)" using lookup_start_shape(1) [OF st] assms by (simp add: inhabited_def)
  then show ?thesis using search_run_shape st s by (simp del: Lookup.simps(1))
qed

lemma ignore_result_snd: "snd (ignore_result p x) = Unfinished \<longleftrightarrow> snd p = Unfinished"
  by (cases p; cases "snd p") auto

lemma refresh_seed_finishes:
  assumes "shaped t"
  shows "snd (refresh_seed (Suc (Suc n)) W t) \<noteq> Unfinished"
proof -
  obtain t1 r where r: "refresh_nodes t = (t1, r)" by fastforce
  have "u_table t1 = u_table t" using r by (auto simp: refresh_nodes_def split: prod.splits res.splits)
  then have sh1: "shaped t1" using assms by (simp add: shaped_def)
  show ?thesis
  proof (cases r)
    case (Ok nodes)
    obtain t2 q where q: "bondall (w_net (W (Suc n))) nodes t1 = (t2, q)" by fastforce
    show ?thesis
    proof (cases q)
      case qok: (Ok bonded)
      show ?thesis
      proof (cases bonded)
        case (Cons m ms)
        then have "inhabited t2" using bondall_shape [OF q sh1] qok by blast
        then show ?thesis using r Ok q qok Cons Lookup_inhabited [of t2 n W]
          by (simp add: ignore_result_snd del: Lookup.simps refresh.simps)
      qed (use r Ok q qok in simp)
    qed (use r Ok q in simp_all)
  qed (use r in simp_all)
qed

section \<open>Searches that end\<close>

text \<open>
  A state that knows only nodes of the given identifiers: those of the table and the records of the database, which can all be
  read, each under the identifier of its node and with an address of a valid length.
\<close>

definition record_ok :: "nodeid set \<Rightarrow> nodeid \<Rightarrow> (db_error, node option) res \<Rightarrow> bool" where
  "record_ok U i r \<longleftrightarrow> (case r of Ok None \<Rightarrow> True | Ok (Some n) \<Rightarrow> node_ID n = i \<and> i \<in> U \<and> ip_ok (node_IP n) | _ \<Rightarrow> False)"

definition knows :: "nodeid set \<Rightarrow> 'db udp \<Rightarrow> bool" where
  "knows U t \<longleftrightarrow> db_ok (u_db t) \<and> shaped t \<and> node_ID ` set (all_entries (u_table t)) \<subseteq> U \<and>
     (\<forall>i. record_ok U i (db_node i (u_db t)))"

text \<open>Answers with sensible times, that name nodes of the given identifiers with addresses of a valid length.\<close>

definition names_only :: "nodeid set \<Rightarrow> network \<Rightarrow> bool" where
  "names_only U nw \<longleftrightarrow> network_ok nw \<and>
     (\<forall>i a x. \<forall>n \<in> set (fst (nw_findnode nw i a x)). ip_ok (node_IP n) \<and> node_ID n \<in> U)"

lemma v4_normal_ip: "ip_ok ip \<Longrightarrow> ip_ok (normal_ip ip)"
  by (auto simp: ip_ok_def normal_ip_def To16_def To4_def v4InV6Prefix_def split: if_splits)

lemma update_bucket_entries:
  assumes "set (entries (f (buckets tab ! i))) \<subseteq> A \<union> set (entries (buckets tab ! i))" "i < length (buckets tab)"
  shows "set (all_entries (update_bucket tab i f)) \<subseteq> A \<union> set (all_entries tab)"
proof -
  have "entries b \<noteq> [] \<longrightarrow> set (entries b) \<subseteq> A \<union> set (all_entries tab)" if "b \<in> set ((buckets tab)[i := f (buckets tab ! i)])" for b
    using set_update_subset_insert [of "buckets tab" i] that assms nth_mem [OF assms(2)] by (fastforce simp: all_entries_def)
  then show ?thesis by (fastforce simp: all_entries_def update_bucket_def)
qed

lemma bond_insert_entries:
  assumes "length (buckets tab) = nBuckets"
  shows "set (all_entries (bond_insert r n tab)) \<subseteq> {n} \<union> set (all_entries tab)"
  unfolding bond_insert_def using bucket_index_less [of tab "node_Hash n"] assms
  by (intro update_bucket_entries)
    (auto simp: bump_entries pingreplace_entries split: option.splits if_splits dest: in_set_takeD in_set_dropD in_set_butlastD)

lemma del_node_entries:
  assumes "length (buckets tab) = nBuckets"
  shows "set (all_entries (del_node n tab)) \<subseteq> set (all_entries tab)"
proof -
  have "set (all_entries (del_node n tab)) \<subseteq> {} \<union> set (all_entries tab)"
    unfolding del_node_def using bucket_index_less [of tab "node_Hash n"] assms
    by (intro update_bucket_entries) (auto split: option.splits dest: in_set_takeD in_set_dropD)
  then show ?thesis by simp
qed

lemma bond_knows:
  assumes "knows U t" "network_ok nw" "ip_ok (ua_IP addr)" "i \<in> U"
  shows "\<exists>t' n e. bond nw i addr p t = (t', Ok (n, e)) \<and> knows U t' \<and> (\<forall>m. n = Some m \<longrightarrow> node_ID m = i)"
proof -
  have rec: "record_ok U i (db_node i (u_db t))" using assms(1) by (simp add: knows_def)
  then obtain known where known: "db_node i (u_db t) = Ok known" "\<forall>n. known = Some n \<longrightarrow> node_ID n = i"
    by (auto simp: record_ok_def split: res.splits option.splits)
  have db: "db_ok (u_db t)" and sh: "shaped t" using assms(1) by (simp_all add: knows_def)
  define asks where "asks \<longleftrightarrow> known = None \<or> findFails i (u_db t) > 0"
  define err where "err = (if asks then fst (nw_ping nw i addr) else None)"
  define n where "n = (if asks \<and> err = None then Some (newNode (ua_IP addr) (of_int (ua_Port addr)) p i) else known)"
  obtain t' where t': "bond nw i addr p t = (t', Ok (n, map_option PingFailed err))" "db_ok (u_db t')"
    "case n of None \<Rightarrow> u_table t' = u_table t | Some m \<Rightarrow> (\<exists>r. u_table t' = bond_insert r m (u_table t)) \<and> findFails i (u_db t') = 0"
    "\<forall>j. db_node j (u_db t') = (if j = i \<and> asks \<and> err = None
        then Ok (Some (newNode (normal_ip (ua_IP addr)) (of_int (ua_Port addr)) p i)) else db_node j (u_db t))"
    using bond_result [OF db assms(2,3) known(1) asks_def err_def n_def] by blast
  have nid: "node_ID m = i" if "n = Some m" for m
    using that known(2) by (auto simp: n_def newNode_def split: if_splits)
  have "node_ID ` set (all_entries (u_table t')) \<subseteq> U"
  proof (cases n)
    case None
    then show ?thesis using t'(3) assms(1) by (simp add: knows_def)
  next
    case (Some m)
    then obtain r where "u_table t' = bond_insert r m (u_table t)" using t'(3) by auto
    then have "set (all_entries (u_table t')) \<subseteq> {m} \<union> set (all_entries (u_table t))"
      using bond_insert_entries [of "u_table t" r m] sh by (simp add: shaped_def)
    then show ?thesis using assms(1,4) nid [OF Some] by (auto simp: knows_def)
  qed
  moreover have "record_ok U j (db_node j (u_db t'))" for j
    using t'(4) assms v4_normal_ip [OF assms(3)] by (auto simp: knows_def record_ok_def newNode_def)
  ultimately have "knows U t'" using t'(2) bond_shape(1) [OF t'(1) sh] by (simp add: knows_def)
  then show ?thesis using t'(1) nid by blast
qed

lemma bondall_knows:
  assumes "knows U t" "network_ok nw" "\<forall>n \<in> set ns. ip_ok (node_IP n)" "node_ID ` set ns \<subseteq> U"
  shows "\<exists>t' rs. bondall nw ns t = (t', Ok rs) \<and> knows U t' \<and> node_ID ` set rs \<subseteq> U"
  using assms
proof (induction ns arbitrary: t)
  case (Cons n ns)
  have "ip_ok (ua_IP (node_addr n))" "node_ID n \<in> U" using Cons.prems(3,4) by (simp_all add: node_addr_def)
  then obtain t1 m e where b: "bond nw (node_ID n) (node_addr n) (node_TCP n) t = (t1, Ok (m, e))" "knows U t1"
    "\<forall>x. m = Some x \<longrightarrow> node_ID x = node_ID n" using bond_knows [OF Cons.prems(1,2)] by blast
  obtain t2 rs where rs: "bondall nw ns t1 = (t2, Ok rs)" "knows U t2" "node_ID ` set rs \<subseteq> U"
    using Cons.IH [OF b(2) Cons.prems(2)] Cons.prems(3,4) by auto
  then show ?case using b Cons.prems(4) by (cases m) auto
qed auto

lemma query_reply_knows:
  assumes "knows U t" "network_ok nw" "\<forall>n \<in> set ns. ip_ok (node_IP n)" "node_ID ` set ns \<subseteq> U"
  shows "\<exists>t' rs. query_reply nw ns t = (t', Ok (Some rs)) \<and> knows U t' \<and> node_ID ` set rs \<subseteq> U"
  using bondall_knows [OF assms] by (auto simp: query_reply_def)

lemma knows_table:
  assumes "knows U t" "length (buckets tab) = nBuckets" "set (all_entries tab) \<subseteq> set (all_entries (u_table t))"
  shows "knows U (t\<lparr>u_table := tab\<rparr>)"
  using assms by (auto simp: knows_def shaped_def)

lemma knows_del_node: "knows U t \<Longrightarrow> knows U (t\<lparr>u_table := del_node n (u_table t)\<rparr>)"
proof -
  assume t: "knows U t"
  then have "length (buckets (u_table t)) = nBuckets" by (simp add: knows_def shaped_def)
  with knows_table [OF t, of "del_node n (u_table t)"] del_node_entries [of "u_table t" n] show ?thesis by simp
qed

lemma lookup_query_knows:
  assumes "knows U t" "names_only U nw"
  shows "\<exists>t' rs. lookup_query nw targetID n t = (t', Ok (Some rs)) \<and> knows U t' \<and> node_ID ` set rs \<subseteq> U"
proof -
  obtain ns e where ns: "nw_findnode nw (node_ID n) (node_addr n) targetID = (ns, e)" by fastforce
  have "\<forall>m \<in> set (fst (nw_findnode nw (node_ID n) (node_addr n) targetID)). ip_ok (node_IP m) \<and> node_ID m \<in> U"
    using assms(2) unfolding names_only_def by blast
  then have nw: "network_ok nw" "\<forall>n \<in> set ns. ip_ok (node_IP n)" "node_ID ` set ns \<subseteq> U"
    using assms(2) ns by (auto simp: names_only_def)
  note reply = query_reply_knows [OF _ nw]
  show ?thesis
  proof (cases e)
    case None
    then show ?thesis using reply [OF assms(1)] ns by (auto simp: lookup_query_def)
  next
    case (Some x)
    let ?fails = "findFails (node_ID n) (u_db t) + 1"
    obtain db where db: "updateFindFails (node_ID n) ?fails (u_db t) = (db, Ok ())" "db_ok db"
      "\<And>j. db_node j db = db_node j (u_db t)"
      by (rule fails_keep_nodes [of "u_db t" "node_ID n" ?fails]) (use assms(1) in \<open>auto simp: knows_def\<close>)
    let ?t1 = "t\<lparr>u_db := db\<rparr>"
    have "knows U ?t1" using assms(1) db(2,3) by (simp add: knows_def shaped_def)
    then have "knows U (if ?fails \<ge> maxFindnodeFailures then ?t1\<lparr>u_table := del_node n (u_table ?t1)\<rparr> else ?t1)"
      using knows_del_node [of U ?t1 n] by simp
    moreover have "on_db (updateFindFails (node_ID n) ?fails) t = (?t1, Ok ())" using db(1) by (rule on_db_Ok)
    ultimately show ?thesis
      using reply [of "if ?fails \<ge> maxFindnodeFailures then ?t1\<lparr>u_table := del_node n (u_table ?t1)\<rparr> else ?t1"] ns Some
      by (auto simp: lookup_query_def Let_def)
  qed
qed

text \<open>What a search that has ended returns, for the replies it has got.\<close>

definition found :: "nodeid \<Rightarrow> node list \<Rightarrow> node list list \<Rightarrow> node list" where
  "found targetID known replies =
     take 16 (sort_key (\<lambda>n. xor_dist (ByteHash256 (id_bytes targetID)) (node_Hash n)) (known @ firsts {} (concat replies)))"

lemma queries_grow: "length (lk_queries s) \<le> length (lk_queries (lookup_ask (lookup_reply ns s)))"
  by (simp add: lookup_ask_def lookup_reply_def split: prod.split)

lemma search_wait_ends:
  assumes "lookup_inv me (ByteHash256 (id_bytes targetID)) known replies s" "0 < lk_pending s" "length opn = lk_pending s"
    and "knows U t" "\<forall>(k, nw) \<in> set sched. names_only U nw"
    and "finite U" "node_ID ` set (known @ concat replies) \<subseteq> U" "card U \<le> length replies + length sched"
  shows "\<exists>t' rs. search_wait sched targetID s opn t = (t', Done (found targetID known rs)) \<and> knows U t' \<and>
    length rs \<le> card U \<and> node_ID ` set (concat rs) \<subseteq> U"
  using assms
proof (induction sched arbitrary: s opn t replies)
  case Nil
  have "length replies + lk_pending s \<le> card U"
    using lookup_queries_bound [OF Nil.prems(1,7,6)] Nil.prems(1) by (simp add: lookup_inv_def)
  then show ?case using Nil.prems(2,8) by simp
next
  case (Cons c sched)
  obtain k nw where c: "c = (k, nw)" by (cases c)
  let ?i = "k mod length opn"
  have opn: "opn \<noteq> []" "?i < length opn" using Cons.prems(2,3) by auto
  obtain t1 ns where q: "lookup_query nw targetID (opn ! ?i) t = (t1, Ok (Some ns))" "knows U t1" "node_ID ` set ns \<subseteq> U"
    using lookup_query_knows [OF Cons.prems(4), of nw targetID "opn ! ?i"] Cons.prems(5) c by auto
  let ?s1 = "lookup_ask (lookup_reply ns s)"
  let ?opn = "(take ?i opn @ drop (Suc ?i) opn) @ drop (length (lk_queries s)) (lk_queries ?s1)"
  have inv0: "lookup_inv me (ByteHash256 (id_bytes targetID)) known (replies @ [ns]) (lookup_reply ns s)"
    by (rule lookup_reply_inv [OF Cons.prems(1,2)])
  note inv = lookup_ask_inv [OF inv0]
  have U: "node_ID ` set (known @ concat (replies @ [ns])) \<subseteq> U" using Cons.prems(7) q(3) by auto
  have step: "search_wait (c # sched) targetID s opn t =
      (if lk_pending ?s1 = 0 then (t1, Done (nbd_entries (lk_result ?s1))) else search_wait sched targetID ?s1 ?opn t1)"
    using opn(1) q(1) c by (simp add: Let_def)
  show ?case
  proof (cases "lk_pending ?s1 = 0")
    case True
    have "nbd_entries (lk_result ?s1) = found targetID known (replies @ [ns])"
      using result_entries [OF inv(1)] by (simp add: found_def)
    moreover have "length (replies @ [ns]) \<le> card U"
      using lookup_queries_bound [OF inv(1) U Cons.prems(6)] True inv(1) by (simp add: lookup_inv_def)
    ultimately show ?thesis using True step q(2) U by (intro exI [of _ t1] exI [of _ "replies @ [ns]"]) auto
  next
    case False
    have "length ?opn = lk_pending ?s1"
      using opn(2) Cons.prems(1,3) inv(1) queries_grow [of s ns] unfolding lookup_inv_def by (simp add: min_def)
    then show ?thesis
      using Cons.IH [OF inv(1) _ _ q(2) _ Cons.prems(6) U] False Cons.prems(5,8) step by simp
  qed
qed

lemma Lookup_ends:
  assumes "knows U t" "inhabited t" "\<forall>(k, nw) \<in> set sched. names_only U nw" "finite U" "card U \<le> length sched"
  shows "\<exists>t' rs. Lookup (Suc n) W sched targetID t = (t', Done (found targetID (all_entries (u_table t)) rs)) \<and>
    knows U t' \<and> length rs \<le> card U \<and> node_ID ` set (concat rs) \<subseteq> U"
proof -
  obtain tab r where st: "lookup_start (w_now (W n)) targetID (u_table t) = (tab, r)" by fastforce
  obtain s where s: "r = Some s" using lookup_start_shape(2) [OF st assms(2)] by auto
  have tab: "all_entries tab = all_entries (u_table t)" "length (buckets tab) = nBuckets"
    using st lookup_start_shape(1) [OF st] assms(2)
    by (auto simp: lookup_start_def Let_def all_entries_touch inhabited_def shaped_def)
  have t1: "knows U (t\<lparr>u_table := tab\<rparr>)" using knows_table [OF assms(1) tab(2)] tab(1) by simp
  have U: "node_ID ` set (all_entries (u_table t) @ concat []) \<subseteq> U" using assms(1) by (simp add: knows_def)
  note inv = lookup_ask_inv [OF lookup_start_inv [OF st [unfolded s]]]
  let ?s1 = "lookup_ask s"
  have q: "length (lk_queries ?s1) = lk_pending ?s1" using inv(1) by (simp add: lookup_inv_def)
  show ?thesis
  proof (cases "lk_pending ?s1 = 0")
    case True
    have "nbd_entries (lk_result ?s1) = found targetID (all_entries (u_table t)) []"
      using result_entries [OF inv(1)] by (simp add: found_def)
    then show ?thesis using st s True t1 by (intro exI [of _ "t\<lparr>u_table := tab\<rparr>"] exI [of _ "[]"]) (simp add: search_run_def)
  next
    case False
    then show ?thesis
      using search_wait_ends [OF inv(1) _ q t1 assms(3,4) U] assms(5) st s by (simp add: search_run_def Let_def)
  qed
qed

lemma same_others_record:
  assumes "same_others db db'"
  shows "db_node i db' = db_node i db \<or> db_node i db' = Ok None"
proof (cases "got (makeKey i nodeDBDiscoverRoot) db' = None")
  case False
  then have "got (makeKey i nodeDBDiscoverRoot) db' = got (makeKey i nodeDBDiscoverRoot) db"
    using assms unfolding same_others_def by metis
  then show ?thesis using node_other by metis
qed (simp add: db_node_def)

lemma refresh_seed_ends:
  assumes "knows U t" "ndb_seeder (u_db t) = None" "finite U"
    and "\<forall>m \<in> set (nursery (u_table t)). ip_ok (node_IP m) \<and> node_ID m \<in> U"
    and "names_only U (w_net (W (Suc n)))" "\<forall>(k, nw) \<in> set (w_second (W (Suc n))). names_only U nw"
    and "card U \<le> length (w_second (W (Suc n)))"
  shows "\<exists>t'. refresh_seed (Suc (Suc n)) W t = (t', Done ()) \<and> knows U t'"
proof -
  have rec: "record_ok U i (db_node i (u_db t))" for i using assms(1) by (simp add: knows_def)
  have np: "\<forall>i. db_node i (u_db t) \<noteq> Panic"
  proof
    fix i
    show "db_node i (u_db t) \<noteq> Panic" using rec [of i] by (auto simp: record_ok_def)
  qed
  have db: "db_ok (u_db t)" using assms(1) by (simp add: knows_def)
  obtain db' seeds where sd: "querySeeds 10 (u_db t) = (db', Ok seeds)" "same_others (u_db t) db'"
    "\<forall>nd \<in> set seeds. good_seed (u_db t) nd" by (rule querySeeds_result [OF db np assms(2)])
  let ?t1 = "t\<lparr>u_db := db'\<rparr>" and ?nodes = "nursery (u_table t) @ seeds"
  have "record_ok U i (db_node i db')" for i
    using same_others_record [OF sd(2), of i] rec [of i] by (auto simp: record_ok_def)
  then have t1: "knows U ?t1" using assms(1) sd(2) by (simp add: knows_def shaped_def same_others_def)
  have seeds: "ip_ok (node_IP m) \<and> node_ID m \<in> U" if "m \<in> set seeds" for m
  proof -
    have "good_seed (u_db t) m" using sd(3) that by blast
    then obtain i where "db_node i (u_db t) = Ok (Some m)" unfolding good_seed_def by blast
    then show ?thesis using rec [of i] by (simp add: record_ok_def)
  qed
  have nw: "network_ok (w_net (W (Suc n)))" using assms(5) by (simp add: names_only_def)
  obtain t2 bonded where b: "bondall (w_net (W (Suc n))) ?nodes ?t1 = (t2, Ok bonded)" "knows U t2"
    using bondall_knows [OF t1 nw, of ?nodes] assms(4) seeds by auto
  have step: "refresh_seed (Suc (Suc n)) W t = (if bonded = [] then (t2, Done ())
      else ignore_result (Lookup (Suc n) W (w_second (W (Suc n))) (node_ID (self (u_table t2))) t2) ())"
    using sd(1) b(1) by (simp add: refresh_nodes_def del: Lookup.simps)
  show ?thesis
  proof (cases bonded)
    case Nil
    then show ?thesis using step b(2) by simp
  next
    case (Cons m ms)
    have "inhabited t2" using bondall_shape [OF b(1)] t1 Cons by (simp add: knows_def)
    then show ?thesis
      using Lookup_ends [OF b(2) _ assms(6,3,7), of n W "node_ID (self (u_table t2))"] step Cons by (auto simp del: Lookup.simps)
  qed
qed

text \<open>Worlds in which every network names known nodes only, with schedules that end every query.\<close>

definition world_ok :: "nodeid set \<Rightarrow> world \<Rightarrow> bool" where
  "world_ok U w \<longleftrightarrow> names_only U (w_net w) \<and> (\<forall>(k, nw) \<in> set (w_first w). names_only U nw) \<and>
     (\<forall>(k, nw) \<in> set (w_second w). names_only U nw) \<and> card U \<le> length (w_first w) \<and> card U \<le> length (w_second w)"

lemma found_nonempty: "known \<noteq> [] \<Longrightarrow> found targetID known rs \<noteq> []"
  by (simp add: found_def) (metis append_is_Nil_conv length_0_conv length_sort)

lemma refresh_ends:
  assumes "knows U t" "ndb_seeder (u_db t) = None" "finite U"
    and "\<forall>m \<in> set (nursery (u_table t)). ip_ok (node_IP m) \<and> node_ID m \<in> U" "\<forall>k. world_ok U (W k)"
  shows "\<exists>t'. refresh (Suc (Suc (Suc n))) W t = (t', Done ()) \<and> knows U t'"
proof (cases "table_empty (u_table t)")
  case True
  have "world_ok U (W (Suc n))" using assms(5) by blast
  then show ?thesis using True refresh_seed_ends [OF assms(1-4), of W n]
    by (simp add: world_ok_def del: refresh_seed.simps)
next
  case False
  then have t: "inhabited t" "all_entries (u_table t) \<noteq> []"
    using assms(1) by (simp_all add: inhabited_def knows_def table_empty_iff)
  have w: "\<forall>(k, nw) \<in> set (w_first (W (Suc (Suc n)))). names_only U nw" "card U \<le> length (w_first (W (Suc (Suc n))))"
    using assms(5) unfolding world_ok_def by blast+
  show ?thesis
  proof (cases "w_random (W (Suc (Suc n)))")
    case (Some targetID)
    obtain t1 rs where t1: "Lookup (Suc (Suc n)) W (w_first (W (Suc (Suc n)))) targetID t =
        (t1, Done (found targetID (all_entries (u_table t)) rs))" "knows U t1"
      using Lookup_ends [OF assms(1) t(1) w(1) assms(3) w(2), of "Suc n" W targetID] by blast
    then show ?thesis
      using False Some found_nonempty [OF t(2), of targetID rs]
      by (cases "found targetID (all_entries (u_table t)) rs") (simp_all del: Lookup.simps refresh_seed.simps)
  qed (use False assms(1) in simp)
qed

section \<open>The properties\<close>

text \<open>
  C14: A search ends. When the database works and every answer names nodes of a finite set, a search over a table with nodes
  returns, whatever the order in which its queries end, after at most as many replies as there are nodes; its result is the
  sixteen nodes closest to the target among the nodes of the table and those of the replies.
\<close>

theorem search_completes:
  assumes "knows U t" "\<not> table_empty (u_table t)" "finite U"
    and "\<forall>(k, nw) \<in> set sched. names_only U nw" "card U \<le> length sched"
  shows "\<exists>t' rs. Lookup (Suc n) W sched targetID t = (t', Done (take 16 (sort_key
      (\<lambda>m. xor_dist (ByteHash256 (id_bytes targetID)) (node_Hash m)) (all_entries (u_table t) @ firsts {} (concat rs))))) \<and>
    length rs \<le> card U \<and> node_ID ` set (concat rs) \<subseteq> U \<and> knows U t'"
proof -
  have "inhabited t" using assms(1,2) by (simp add: inhabited_def knows_def)
  from Lookup_ends [OF assms(1) this assms(4,3,5), of n W targetID] show ?thesis unfolding found_def by blast
qed

text \<open>
  C15: Lookup and refresh call each other, but never more than four calls deep: a search over an empty table refreshes, seeding
  searches again only after a node was bonded with, and then the table is not empty. So a call never runs away, whatever the
  network answers and even when the database fails.
\<close>

theorem refresh_nesting_bounded:
  assumes "length (buckets (u_table t)) = 257"
  shows "snd (refresh (n + 3) W t) \<noteq> Unfinished \<and> snd (Lookup (n + 4) W sched targetID t) \<noteq> Unfinished"
proof -
  have sh: "shaped t" using assms by (simp add: shaped_def nBuckets_def hashBits_def)
  have ref: "snd (refresh (Suc (Suc (Suc n))) W u) \<noteq> Unfinished" if "shaped u" for u :: "'a udp"
  proof (cases "table_empty (u_table u)")
    case True
    then show ?thesis using refresh_seed_finishes [OF that] by (simp del: refresh_seed.simps)
  next
    case False
    then have u: "inhabited u" using that by (simp add: inhabited_def)
    show ?thesis
    proof (cases "w_random (W (Suc (Suc n)))")
      case (Some x)
      obtain u1 r where r: "Lookup (Suc (Suc n)) W (w_first (W (Suc (Suc n)))) x u = (u1, r)" by fastforce
      have "shaped u1" "r \<noteq> Unfinished" using Lookup_inhabited [OF u, of "Suc n" W _ x] r by (metis fst_conv, metis snd_conv)
      then show ?thesis
        using False Some r refresh_seed_finishes [of u1 n W]
        by (simp add: ignore_result_snd del: Lookup.simps refresh_seed.simps split: run.split list.split)
    qed (use False in simp)
  qed
  obtain tab q where st: "lookup_start (w_now (W (n + 3))) targetID (u_table t) = (tab, q)" by fastforce
  have tab: "shaped (t\<lparr>u_table := tab\<rparr>)" using lookup_start_shape(1) [OF st] sh by simp
  have "snd (Lookup (Suc (n + 3)) W sched targetID t) \<noteq> Unfinished"
    using st ref [OF tab] search_run_shape [OF tab] by (cases q) (simp_all add: ignore_result_snd numeral_3_eq_3 del: refresh.simps)
  then show ?thesis using ref [OF sh] by (simp add: numeral_eq_Suc)
qed


section \<open>An example\<close>

text \<open>A node that knows one other node, in a network where every query returns that node.\<close>

definition demo_state :: "(bytes \<times> bytes) list udp" where
  "demo_state = (demo_udp 1)\<lparr>u_table := demo_search, u_db := demo_db\<rparr>"

definition demo_answers :: network where
  "demo_answers = demo_network\<lparr>nw_findnode := \<lambda>_ _ _. ([demo_found], None)\<rparr>"

definition demo_world :: world where
  "demo_world = \<lparr>w_now = 0, w_random = Some (id_of [7]), w_net = demo_answers, w_first = [(0, demo_answers)], w_second = [(0, demo_answers)]\<rparr>"

lemma demo_names: "names_only {id_of [2]} demo_answers"
  by (simp add: names_only_def network_ok_def demo_answers_def demo_network_def sane_def demo_found_def newNode_def ip_ok_def To4_def)

lemma demo_world_ok: "world_ok {id_of [2]} demo_world"
  using demo_names by (simp add: world_ok_def demo_world_def)

lemma demo_shape: "length (buckets demo_search) = nBuckets"
  by (simp add: demo_search_def bond_insert_def newTable_def)

lemma demo_knows: "knows {id_of [2]} demo_state" "\<not> table_empty (u_table demo_state)"
proof -
  have "db_node i demo_db = Ok None" for i by (simp add: db_node_def demo_db_got)
  then show "knows {id_of [2]} demo_state"
    using demo_shape by (simp add: knows_def demo_state_def demo_db_ok shaped_def demo_search_simps record_ok_def demo_found_def newNode_def)
  show "\<not> table_empty (u_table demo_state)" by (simp add: demo_state_def table_empty_iff demo_search_simps)
qed

theorem search_completes_witness:
  "\<exists>t' rs. Lookup 1 (\<lambda>_. demo_world) [(0, demo_answers)] (id_of [9]) demo_state = (t', Done (take 16 (sort_key
      (\<lambda>m. xor_dist (ByteHash256 (id_bytes (id_of [9]))) (node_Hash m)) ([demo_found] @ firsts {} (concat rs))))) \<and> length rs \<le> 1"
proof -
  have "all_entries (u_table demo_state) = [demo_found]" by (simp add: demo_state_def demo_search_simps)
  then show ?thesis
    using search_completes [OF demo_knows, of "[(0, demo_answers)]" 0 "\<lambda>_. demo_world" "id_of [9]"] demo_names
    by (simp del: Lookup.simps) blast
qed

theorem refresh_nesting_bounded_witness:
  "snd (refresh 3 (\<lambda>_. demo_world) demo_state) \<noteq> Unfinished \<and>
   snd (Lookup 4 (\<lambda>_. demo_world) [(0, demo_answers)] (id_of [9]) demo_state) \<noteq> Unfinished"
proof -
  have "length (buckets (u_table demo_state)) = 257"
    using demo_shape by (simp add: demo_state_def nBuckets_def hashBits_def)
  from refresh_nesting_bounded [OF this, of 0] show ?thesis by (simp del: Lookup.simps refresh.simps)
qed


end
