(* ===== verification/Node_Records.thy ===== *)
theory Node_Records
  imports NodeDB
begin

text \<open>
  The node database of discover/nodedb.go as what it stands for: a book with one record per node. The fields of a record live under
  keys of their own in a byte store; every operation of the database does to the book what its name says, whatever the order in which
  operations come.
\<close>

section \<open>Simulation\<close>

text \<open>Operations in sequence, and whether all of them succeeded.\<close>

fun run_all :: "('o \<Rightarrow> 's \<Rightarrow> 's \<times> bool) \<Rightarrow> 'o list \<Rightarrow> 's \<Rightarrow> 's \<times> bool" where
  "run_all run [] s = (s, True)"
| "run_all run (x # xs) s = (case run x s of (s', True) \<Rightarrow> run_all run xs s' | (s', False) \<Rightarrow> (s', False))"

locale simulation =
  fixes inv :: "'s \<Rightarrow> bool" and abst :: "'s \<Rightarrow> 'a" and allowed :: "'o \<Rightarrow> bool"
    and run :: "'o \<Rightarrow> 's \<Rightarrow> 's \<times> bool" and spec :: "'o \<Rightarrow> 'a \<Rightarrow> 'a"
  assumes simulates: "inv s \<Longrightarrow> allowed x \<Longrightarrow> \<exists>s'. run x s = (s', True) \<and> inv s' \<and> abst s' = spec x (abst s)"
begin

lemma runs:
  "inv s \<Longrightarrow> list_all allowed xs \<Longrightarrow> \<exists>s'. run_all run xs s = (s', True) \<and> inv s' \<and> abst s' = fold spec xs (abst s)"
proof (induction xs arbitrary: s)
  case (Cons x xs)
  then obtain s1 where "run x s = (s1, True)" "inv s1" "abst s1 = spec x (abst s)" using simulates [of s x] by auto
  with Cons.IH [of s1] Cons.prems(2) show ?case by auto
qed simp

end

section \<open>The book\<close>

record peer_record =
  pr_node :: "node option"
  pr_ping :: time
  pr_pong :: time
  pr_fails :: int

record peer_book =
  bk_self :: nodeid
  bk_peers :: "nodeid \<Rightarrow> peer_record"

definition blank :: peer_record where
  "blank = \<lparr>pr_node = None, pr_ping = 0, pr_pong = 0, pr_fails = 0\<rparr>"

datatype db_op = Put_node node | Set_ping nodeid time | Set_pong nodeid time | Set_fails nodeid int | Drop_node nodeid | Expire time

definition on_peer :: "nodeid \<Rightarrow> (peer_record \<Rightarrow> peer_record) \<Rightarrow> peer_book \<Rightarrow> peer_book" where
  "on_peer i f b = b\<lparr>bk_peers := (bk_peers b)(i := f (bk_peers b i))\<rparr>"

text \<open>
  What each operation means. Addresses are stored in their long form and times in whole seconds; the nil identifier cannot be dropped.
\<close>

fun book_step :: "db_op \<Rightarrow> peer_book \<Rightarrow> peer_book" where
  "book_step (Put_node n) b = on_peer (node_ID n) (\<lambda>r. r\<lparr>pr_node := Some (n\<lparr>node_IP := normal_ip (node_IP n)\<rparr>)\<rparr>) b"
| "book_step (Set_ping i t) b = on_peer i (\<lambda>r. r\<lparr>pr_ping := t div second * second\<rparr>) b"
| "book_step (Set_pong i t) b = on_peer i (\<lambda>r. r\<lparr>pr_pong := t div second * second\<rparr>) b"
| "book_step (Set_fails i n) b = on_peer i (\<lambda>r. r\<lparr>pr_fails := n\<rparr>) b"
| "book_step (Drop_node i) b = (if i = nodeDBNilNodeID then b else on_peer i (\<lambda>_. blank) b)"
| "book_step (Expire now) b =
     b\<lparr>bk_peers := (\<lambda>i. let r = bk_peers b i in
       if i \<noteq> nodeDBNilNodeID \<and> pr_node r \<noteq> None \<and> (i = bk_self b \<or> pr_pong r \<le> now - nodeDBNodeExpiration) then blank else r)\<rparr>"

section \<open>The database\<close>

fun db_run :: "db_op \<Rightarrow> 'db nodeDB \<Rightarrow> 'db nodeDB \<times> bool" where
  "db_run (Put_node n) db = (case updateNode n db of (db', r) \<Rightarrow> (db', r = Ok ()))"
| "db_run (Set_ping i t) db = (case updateLastPing i t db of (db', r) \<Rightarrow> (db', r = Ok ()))"
| "db_run (Set_pong i t) db = (case updateLastPong i t db of (db', r) \<Rightarrow> (db', r = Ok ()))"
| "db_run (Set_fails i n) db = (case updateFindFails i n db of (db', r) \<Rightarrow> (db', r = Ok ()))"
| "db_run (Drop_node i) db = (case deleteNode i db of (db', r) \<Rightarrow> (db', r = Ok ()))"
| "db_run (Expire now) db = (case expireNodes now db of (db', r) \<Rightarrow> (db', r = Ok ()))"

fun op_ok :: "db_op \<Rightarrow> bool" where
  "op_ok (Put_node n) \<longleftrightarrow> ip_ok (node_IP n) \<and> node_Hash n = ByteHash256 (id_bytes (node_ID n))"
| "op_ok (Set_ping i t) \<longleftrightarrow> 0 \<le> t \<and> t < 2 ^ 62 * second"
| "op_ok (Set_pong i t) \<longleftrightarrow> 0 \<le> t \<and> t < 2 ^ 62 * second"
| "op_ok (Set_fails i n) \<longleftrightarrow> - (2 ^ 63) \<le> n \<and> n < 2 ^ 63"
| "op_ok (Drop_node i) \<longleftrightarrow> True"
| "op_ok (Expire now) \<longleftrightarrow> True"

text \<open>The book a database stands for, and the databases in which every recorded node can be read.\<close>

definition peer_of :: "'db nodeDB \<Rightarrow> nodeid \<Rightarrow> peer_record" where
  "peer_of db i = \<lparr>pr_node = (case db_node i db of Ok n \<Rightarrow> n | _ \<Rightarrow> None), pr_ping = lastPing i db, pr_pong = lastPong i db,
     pr_fails = findFails i db\<rparr>"

definition book_of :: "'db nodeDB \<Rightarrow> peer_book" where
  "book_of db = \<lparr>bk_self = ndb_self db, bk_peers = peer_of db\<rparr>"

definition readable :: "'db nodeDB \<Rightarrow> bool" where
  "readable db \<longleftrightarrow> db_ok db \<and> (\<forall>i. got (makeKey i nodeDBDiscoverRoot) db \<noteq> None \<longrightarrow> (\<exists>n. db_node i db = Ok (Some n)))"

section \<open>The operations\<close>

abbreviation fact_keys :: "nodeid \<Rightarrow> bytes set" where
  "fact_keys i \<equiv> makeKey i ` {nodeDBDiscoverRoot, nodeDBDiscoverPing, nodeDBDiscoverPong, nodeDBDiscoverFindFails}"

lemma peer_other:
  assumes "\<And>k. k \<in> fact_keys i \<Longrightarrow> got k db' = got k db"
  shows "peer_of db' i = peer_of db i"
proof -
  have "db_node i db' = db_node i db" by (rule node_other) (simp add: assms)
  moreover have "fetchInt64 k db' = fetchInt64 k db" if "k \<in> fact_keys i" for k by (rule fetch_other) (rule assms [OF that])
  ultimately show ?thesis by (simp add: peer_of_def lastPing_def lastPong_def findFails_def)
qed

lemma peer_gone:
  assumes "\<And>k. k \<in> fact_keys i \<Longrightarrow> got k db = None"
  shows "peer_of db i = blank"
proof -
  have "db_node i db = Ok None" using assms [of "makeKey i nodeDBDiscoverRoot"] by (simp add: db_node_def)
  moreover have "fetchInt64 k db = 0" if "k \<in> fact_keys i" for k using assms [OF that] by (simp add: fetchInt64_def)
  ultimately show ?thesis
    using unix_time_of_int [of 0] by (simp add: peer_of_def blank_def lastPing_def lastPong_def findFails_def)
qed

lemma fact_keys_inj: "plain_field f \<Longrightarrow> makeKey i f \<in> fact_keys j \<Longrightarrow> i = j"
  by (auto simp: makeKey_eq)

lemma book_eqI: "bk_self b = bk_self c \<Longrightarrow> (\<And>i. bk_peers b i = bk_peers c i) \<Longrightarrow> b = (c :: peer_book)"
  by (cases b; cases c) (simp add: fun_eq_iff)

text \<open>A write to one key of a node.\<close>

lemma write_book:
  assumes "readable db" "db_ok db'" "ndb_self db' = ndb_self db" "plain_field f" "\<And>k. k \<noteq> makeKey i f \<Longrightarrow> got k db' = got k db"
    and "peer_of db' i = g (peer_of db i)" "f = nodeDBDiscoverRoot \<Longrightarrow> \<exists>n. db_node i db' = Ok (Some n)"
  shows "readable db' \<and> book_of db' = on_peer i g (book_of db)"
proof
  have node: "db_node j db' = db_node j db \<and> got (makeKey j nodeDBDiscoverRoot) db' = got (makeKey j nodeDBDiscoverRoot) db"
    if "j \<noteq> i \<or> f \<noteq> nodeDBDiscoverRoot" for j
  proof -
    have "makeKey j nodeDBDiscoverRoot \<noteq> makeKey i f" using that assms(4) by (auto simp: makeKey_eq)
    from assms(5) [OF this] show ?thesis using node_other by blast
  qed
  then show "readable db'" using assms(1,2,7) unfolding readable_def by metis
  have "peer_of db' j = peer_of db j" if "j \<noteq> i" for j
    using that fact_keys_inj [OF assms(4)] by (intro peer_other assms(5)) blast
  then show "book_of db' = on_peer i g (book_of db)"
    using assms(3,6) by (intro book_eqI) (simp_all add: book_of_def on_peer_def)
qed

text \<open>Everything about the nodes of a set gone.\<close>

lemma erase_book:
  assumes "readable db" "db_ok db'" "ndb_self db' = ndb_self db" "nodeDBNilNodeID \<notin> D"
    and g: "\<And>k. got k db' = (if \<exists>i \<in> D. owned i k then None else got k db)"
  shows "readable db' \<and> book_of db' = (book_of db)\<lparr>bk_peers := (\<lambda>i. if i \<in> D then blank else peer_of db i)\<rparr>"
proof
  have own: "(\<exists>j \<in> D. owned j (makeKey i f)) \<longleftrightarrow> i \<in> D" if "plain_field f" for i f
    using that assms(4) by (cases "i = nodeDBNilNodeID") (auto simp: owned_makeKey not_owned_nil)
  have keys: "got k db' = (if i \<in> D then None else got k db)" if "k \<in> fact_keys i" for k i
  proof -
    from that obtain f where "k = makeKey i f" "plain_field f" by auto
    with own show ?thesis using g [of k] by simp
  qed
  then have node: "db_node i db' = db_node i db" if "i \<notin> D" for i
    using that keys [of "makeKey i nodeDBDiscoverRoot" i] by (intro node_other) simp
  show "readable db'"
    unfolding readable_def
  proof (intro conjI allI impI)
    fix i
    assume "got (makeKey i nodeDBDiscoverRoot) db' \<noteq> None"
    then have "i \<notin> D" "got (makeKey i nodeDBDiscoverRoot) db \<noteq> None"
      using keys [of "makeKey i nodeDBDiscoverRoot" i] by (auto split: if_splits)
    with assms(1) node show "\<exists>n. db_node i db' = Ok (Some n)" by (simp add: readable_def)
  qed (rule assms(2))
  have "peer_of db' i = (if i \<in> D then blank else peer_of db i)" for i
  proof (cases "i \<in> D")
    case True
    then have "peer_of db' i = blank" by (intro peer_gone) (simp only: keys if_True)
    with True show ?thesis by simp
  next
    case False
    then have "peer_of db' i = peer_of db i" by (intro peer_other) (simp only: keys if_False)
    with False show ?thesis by simp
  qed
  then show "book_of db' = (book_of db)\<lparr>bk_peers := (\<lambda>i. if i \<in> D then blank else peer_of db i)\<rparr>"
    using assms(3) by (simp add: book_of_def fun_eq_iff)
qed

lemma put_node:
  assumes "readable db" "op_ok (Put_node n)"
  shows "\<exists>db'. db_run (Put_node n) db = (db', True) \<and> readable db' \<and> book_of db' = book_step (Put_node n) (book_of db)"
proof -
  let ?k = "makeKey (node_ID n) nodeDBDiscoverRoot" and ?n = "n\<lparr>node_IP := normal_ip (node_IP n)\<rparr>"
  have ok: "db_ok db" "ip_ok (node_IP n)" "node_Hash n = ByteHash256 (id_bytes (node_ID n))" using assms by (simp_all add: readable_def)
  obtain db' blob where w: "updateNode n db = (db', Ok ())" "db_ok db'" "ndb_self db' = ndb_self db"
    "json_Unmarshal dec_node blob zero_node = Ok ?n"
    and g: "\<And>k. got k db' = (if k = ?k then Some blob else got k db)"
    by (rule updateNode_writes [OF ok(1,2)]) blast
  have n: "db_node (node_ID n) db' = Ok (Some ?n)" using g [of ?k] w(4) ok(3) unfolding db_node_def by simp
  have "fetchInt64 (makeKey (node_ID n) f) db' = fetchInt64 (makeKey (node_ID n) f) db" if "plain_field f" "f \<noteq> nodeDBDiscoverRoot" for f
    using g that by (intro fetch_other) (simp add: makeKey_eq)
  then have "peer_of db' (node_ID n) = (peer_of db (node_ID n))\<lparr>pr_node := Some ?n\<rparr>"
    using n by (simp add: peer_of_def lastPing_def lastPong_def findFails_def)
  with write_book [OF assms(1) w(2,3) fields_plain(1), of "node_ID n" "\<lambda>r. r\<lparr>pr_node := Some ?n\<rparr>"] g n w(1)
  show ?thesis by simp
qed

text \<open>A number written under one of the three keys of a node that hold numbers.\<close>

lemma put_number:
  fixes db :: "'db nodeDB"
  assumes "readable db" "plain_field f" "f \<noteq> nodeDBDiscoverRoot" "- (2 ^ 63) \<le> x" "x < 2 ^ 63"
    and "\<And>db' :: 'db nodeDB. fetchInt64 (makeKey i f) db' = x \<Longrightarrow> (\<And>h. h \<noteq> f \<Longrightarrow> plain_field h \<Longrightarrow> fetchInt64 (makeKey i h) db' = fetchInt64 (makeKey i h) db) \<Longrightarrow>
      db_node i db' = db_node i db \<Longrightarrow> peer_of db' i = g (peer_of db i)"
  shows "\<exists>db'. storeInt64 (makeKey i f) x db = (db', Ok ()) \<and> readable db' \<and> book_of db' = on_peer i g (book_of db)"
proof -
  have ok: "db_ok db" using assms(1) by (simp add: readable_def)
  obtain db' where d: "storeInt64 (makeKey i f) x db = (db', Ok ())" "db_ok db'" "fetchInt64 (makeKey i f) db' = x"
    "\<And>k. k \<noteq> makeKey i f \<Longrightarrow> got k db' = got k db" "ndb_self db' = ndb_self db"
    by (rule storeInt64_fetch [OF ok assms(2,4,5), of i]) blast
  have h: "fetchInt64 (makeKey i h) db' = fetchInt64 (makeKey i h) db" if "h \<noteq> f" "plain_field h" for h
    using that assms(2) by (intro fetch_other d(4)) (simp add: makeKey_eq)
  have n: "db_node i db' = db_node i db" using assms(2,3) by (intro node_other d(4)) (auto simp: makeKey_eq)
  have p: "peer_of db' i = g (peer_of db i)" by (rule assms(6) [OF d(3) h n])
  have "readable db' \<and> book_of db' = on_peer i g (book_of db)"
    by (rule write_book [OF assms(1) d(2,5) assms(2) d(4), where g = g, OF _ p]) (use assms(3) in simp_all)
  with d(1) show ?thesis by blast
qed

lemma set_ping:
  assumes "readable db" "op_ok (Set_ping i t)"
  shows "\<exists>db'. db_run (Set_ping i t) db = (db', True) \<and> readable db' \<and> book_of db' = book_step (Set_ping i t) (book_of db)"
proof -
  have t: "0 \<le> t" "t < 2 ^ 62 * second" using assms(2) by simp_all
  have "\<exists>db'. storeInt64 (makeKey i nodeDBDiscoverPing) (t div second) db = (db', Ok ()) \<and> readable db' \<and>
      book_of db' = on_peer i (\<lambda>r. r\<lparr>pr_ping := t div second * second\<rparr>) (book_of db)"
    by (rule put_number [OF assms(1) fields_plain(2) _ seconds_bounds(3,4) [OF t], where g = "\<lambda>r. r\<lparr>pr_ping := t div second * second\<rparr>"])
      (simp_all add: peer_of_def lastPing_def lastPong_def findFails_def unix_time_of_int [OF seconds_bounds(1,2) [OF t]])
  then show ?thesis by (auto simp: updateLastPing_def)
qed

lemma set_pong:
  assumes "readable db" "op_ok (Set_pong i t)"
  shows "\<exists>db'. db_run (Set_pong i t) db = (db', True) \<and> readable db' \<and> book_of db' = book_step (Set_pong i t) (book_of db)"
proof -
  have t: "0 \<le> t" "t < 2 ^ 62 * second" using assms(2) by simp_all
  have "\<exists>db'. storeInt64 (makeKey i nodeDBDiscoverPong) (t div second) db = (db', Ok ()) \<and> readable db' \<and>
      book_of db' = on_peer i (\<lambda>r. r\<lparr>pr_pong := t div second * second\<rparr>) (book_of db)"
    by (rule put_number [OF assms(1) fields_plain(3) _ seconds_bounds(3,4) [OF t], where g = "\<lambda>r. r\<lparr>pr_pong := t div second * second\<rparr>"])
      (simp_all add: peer_of_def lastPing_def lastPong_def findFails_def unix_time_of_int [OF seconds_bounds(1,2) [OF t]])
  then show ?thesis by (auto simp: updateLastPong_def)
qed

lemma set_fails:
  assumes "readable db" "op_ok (Set_fails i n)"
  shows "\<exists>db'. db_run (Set_fails i n) db = (db', True) \<and> readable db' \<and> book_of db' = book_step (Set_fails i n) (book_of db)"
proof -
  have n: "- (2 ^ 63) \<le> n" "n < 2 ^ 63" using assms(2) by simp_all
  have "\<exists>db'. storeInt64 (makeKey i nodeDBDiscoverFindFails) n db = (db', Ok ()) \<and> readable db' \<and>
      book_of db' = on_peer i (\<lambda>r. r\<lparr>pr_fails := n\<rparr>) (book_of db)"
    by (rule put_number [OF assms(1) fields_plain(4) _ n, where g = "\<lambda>r. r\<lparr>pr_fails := n\<rparr>"])
      (simp_all add: peer_of_def lastPing_def lastPong_def findFails_def)
  then show ?thesis by (auto simp: updateFindFails_def)
qed

lemma not_owned_by_nil: "db_ok db \<Longrightarrow> owned nodeDBNilNodeID k \<Longrightarrow> got k db = None"
  unfolding db_ok_def key_wf_def using owned_unique owned_def by blast

lemma drop_node:
  assumes "readable db"
  shows "\<exists>db'. db_run (Drop_node i) db = (db', True) \<and> readable db' \<and> book_of db' = book_step (Drop_node i) (book_of db)"
proof -
  have ok: "db_ok db" using assms by (simp add: readable_def)
  obtain S where S: "deleteNode i db = (db\<lparr>ndb_storage := S\<rparr>, Ok ())" "db_ok (db\<lparr>ndb_storage := S\<rparr>)"
    "\<And>k. GetData k S = (if owned i k then None else got k db)" by (rule deleteNode_ok [OF ok]) blast
  let ?D = "{i} - {nodeDBNilNodeID}"
  have "got k (db\<lparr>ndb_storage := S\<rparr>) = (if \<exists>i \<in> ?D. owned i k then None else got k db)" for k
    using S(3) not_owned_by_nil [OF ok, of k] by auto
  from erase_book [OF assms S(2) _ _ this] S(1) show ?thesis
    by (auto simp: book_of_def on_peer_def fun_eq_iff)
qed

lemma expire_book:
  assumes "readable db"
  shows "\<exists>db'. db_run (Expire now) db = (db', True) \<and> readable db' \<and> book_of db' = book_step (Expire now) (book_of db)"
proof -
  let ?D = "{i. i \<noteq> nodeDBNilNodeID \<and> pr_node (peer_of db i) \<noteq> None \<and> (i = ndb_self db \<or> lastPong i db \<le> now - nodeDBNodeExpiration)}"
  have ok: "db_ok db" using assms by (simp add: readable_def)
  obtain db' where d: "expireNodes now db = (db', Ok ())" "db_ok db'" "ndb_self db' = ndb_self db"
    "\<And>k. got k db' = (if \<exists>i. owned i k \<and> got (makeKey i nodeDBDiscoverRoot) db \<noteq> None \<and>
       (i = ndb_self db \<or> lastPong i db \<le> now - nodeDBNodeExpiration) then None else got k db)"
    using expireNodes_removes [OF ok, of now] by blast
  have "pr_node (peer_of db i) \<noteq> None \<longleftrightarrow> got (makeKey i nodeDBDiscoverRoot) db \<noteq> None" for i
    using assms unfolding readable_def by (cases "got (makeKey i nodeDBDiscoverRoot) db") (auto simp: peer_of_def db_node_def)
  then have D: "i \<in> ?D \<longleftrightarrow> i \<noteq> nodeDBNilNodeID \<and> got (makeKey i nodeDBDiscoverRoot) db \<noteq> None \<and>
      (i = ndb_self db \<or> lastPong i db \<le> now - nodeDBNodeExpiration)" for i by simp
  have "got k db' = (if \<exists>i \<in> ?D. owned i k then None else got k db)" for k
  proof (cases "owned nodeDBNilNodeID k")
    case True
    then show ?thesis using d(4) [of k] not_owned_by_nil [OF ok True] by simp
  next
    case False
    then have "i \<noteq> nodeDBNilNodeID" if "owned i k" for i using that by auto
    then have "(\<exists>i \<in> ?D. owned i k) \<longleftrightarrow> (\<exists>i. owned i k \<and> got (makeKey i nodeDBDiscoverRoot) db \<noteq> None \<and>
        (i = ndb_self db \<or> lastPong i db \<le> now - nodeDBNodeExpiration))" unfolding Bex_def D by (intro ex_cong1) auto
    with d(4) [of k] show ?thesis by (simp only:)
  qed
  from erase_book [OF assms d(2,3) _ this] d(1) show ?thesis
    by (auto simp: book_of_def fun_eq_iff peer_of_def Let_def)
qed

lemma db_simulates:
  assumes "readable db" "op_ok x"
  shows "\<exists>db'. db_run x db = (db', True) \<and> readable db' \<and> book_of db' = book_step x (book_of db)"
proof (cases x)
  case (Put_node n)
  then show ?thesis using put_node assms by blast
next
  case (Set_ping i t)
  then show ?thesis using set_ping assms by blast
next
  case (Set_pong i t)
  then show ?thesis using set_pong assms by blast
next
  case (Set_fails i n)
  then show ?thesis using set_fails assms by blast
next
  case (Drop_node i)
  then show ?thesis using drop_node [OF assms(1)] by blast
next
  case (Expire now)
  then show ?thesis using expire_book [OF assms(1)] by blast
qed

interpretation book: simulation readable book_of op_ok db_run book_step
  by unfold_locales (rule db_simulates)

section \<open>Refinement\<close>


lemma demo_db_readable: "readable demo_db"
  by (simp add: readable_def demo_db_ok demo_db_got)

lemma demo_db_blank: "peer_of demo_db i = blank"
  by (rule peer_gone) (rule demo_db_got)


end
