(* ===== verification/Go_Strings.thy ===== *)
theory Go_Strings
  imports Prelude
begin

text \<open>
  What the program uses of Go's package strings, on strings as UTF-8 bytes. Case conversion is exact for ASCII and for the few
  other characters that are converted to ASCII letters; all others are kept as they are, so that the results can be compared
  with ASCII names.
\<close>

section \<open>Splitting\<close>

text \<open>\<^verbatim>\<open>strings.Split\<close> at a one-byte separator.\<close>

fun split_at :: "byte \<Rightarrow> bytes \<Rightarrow> bytes list" where
  "split_at c [] = [[]]"
| "split_at c (b # bs) =
     (if b = c then [] # split_at c bs
      else case split_at c bs of [] \<Rightarrow> [[b]] | f # fs \<Rightarrow> (b # f) # fs)"

text \<open>\<^verbatim>\<open>strings.Join\<close>.\<close>

fun join_with :: "byte \<Rightarrow> bytes list \<Rightarrow> bytes" where
  "join_with c [] = []"
| "join_with c [s] = s"
| "join_with c (s # t # ts) = s @ c # join_with c (t # ts)"

text \<open>The part before the first separator, and the part after it if there is one.\<close>

definition cut_at :: "byte \<Rightarrow> bytes \<Rightarrow> bytes \<times> bytes option" where
  "cut_at c s = (takeWhile (\<lambda>b. b \<noteq> c) s, case dropWhile (\<lambda>b. b \<noteq> c) s of [] \<Rightarrow> None | _ # r \<Rightarrow> Some r)"

text \<open>The parts around the last separator.\<close>

definition cut_last :: "byte \<Rightarrow> bytes \<Rightarrow> (bytes \<times> bytes) option" where
  "cut_last c s =
     (case cut_at c (rev s) of (after, Some before) \<Rightarrow> Some (rev before, rev after) | (_, None) \<Rightarrow> None)"

lemma split_at_nonempty [simp]: "split_at c s \<noteq> []"
  by (induction s) (auto split: list.split)

lemma split_at_plain: "c \<notin> set s \<Longrightarrow> split_at c s = [s]"
  by (induction s) auto

lemma split_at_append: "c \<notin> set s \<Longrightarrow> split_at c (s @ c # t) = s # split_at c t"
  by (induction s) auto

lemma split_join:
  assumes "\<forall>s \<in> set ss. c \<notin> set s" "ss \<noteq> []"
  shows "split_at c (join_with c ss) = ss"
  using assms by (induction c ss rule: join_with.induct) (auto simp: split_at_plain split_at_append)

lemma cut_at_none: "c \<notin> set s \<Longrightarrow> cut_at c s = (s, None)"
proof -
  assume "c \<notin> set s"
  then have "\<forall>b \<in> set s. b \<noteq> c" by auto
  then have *: "takeWhile (\<lambda>b. b \<noteq> c) s = s" "dropWhile (\<lambda>b. b \<noteq> c) s = []"
    by (simp_all add: dropWhile_eq_Nil_conv)
  show ?thesis unfolding cut_at_def * by simp
qed

lemma cut_at_append: "c \<notin> set s \<Longrightarrow> cut_at c (s @ c # t) = (s, Some t)"
proof -
  assume "c \<notin> set s"
  then have "\<forall>b \<in> set s. b \<noteq> c" by auto
  then show ?thesis by (simp add: cut_at_def takeWhile_append2 dropWhile_append2)
qed

lemma cut_last_append: "c \<notin> set t \<Longrightarrow> cut_last c (s @ c # t) = Some (s, t)"
  using cut_at_append [of c "rev t" "rev s"] by (simp add: cut_last_def)

lemma cut_last_none: "c \<notin> set s \<Longrightarrow> cut_last c s = None"
  using cut_at_none [of c "rev s"] by (simp add: cut_last_def)

section \<open>Case\<close>

text \<open>\<^verbatim>\<open>strings.ToLower\<close>: the dotted capital I and the Kelvin sign become ASCII letters.\<close>

fun ToLower :: "bytes \<Rightarrow> bytes" where
  "ToLower [] = []"
| "ToLower (b # bs) =
     (if b = 0xC4 \<and> take 1 bs = [0xB0] then 105 # ToLower (drop 1 bs)
      else if b = 0xE2 \<and> take 2 bs = [0x84, 0xAA] then 107 # ToLower (drop 2 bs)
      else if 65 \<le> b \<and> b \<le> 90 then (b + 32) # ToLower bs
      else b # ToLower bs)"

text \<open>\<^verbatim>\<open>strings.ToUpper\<close>: the dotless i and the long s become ASCII letters.\<close>

fun ToUpper :: "bytes \<Rightarrow> bytes" where
  "ToUpper [] = []"
| "ToUpper (b # bs) =
     (if b = 0xC4 \<and> take 1 bs = [0xB1] then 73 # ToUpper (drop 1 bs)
      else if b = 0xC5 \<and> take 1 bs = [0xBF] then 83 # ToUpper (drop 1 bs)
      else if 97 \<le> b \<and> b \<le> 122 then (b - 32) # ToUpper bs
      else b # ToUpper bs)"

declare ToLower.simps [simp del] ToUpper.simps [simp del]

definition ascii :: "bytes \<Rightarrow> bool" where
  "ascii s \<longleftrightarrow> (\<forall>b \<in> set s. b < 128)"

lemma ToLower_ascii: "ascii s \<Longrightarrow> ToLower s = map (\<lambda>b. if 65 \<le> b \<and> b \<le> 90 then b + 32 else b) s"
  by (induction s) (auto simp: ascii_def ToLower.simps)

lemma ToUpper_ascii: "ascii s \<Longrightarrow> ToUpper s = map (\<lambda>b. if 97 \<le> b \<and> b \<le> 122 then b - 32 else b) s"
  by (induction s) (auto simp: ascii_def ToUpper.simps)

lemma lower_upper_byte:
  fixes b :: byte
  assumes "97 \<le> b" "b \<le> 122"
  shows "65 \<le> b - 32" "b - 32 \<le> 90" "b - 32 + 32 = b"
  using assms by (auto simp: word_le_nat_alt unat_sub_if')

text \<open>Upper case does not change what a string is in lower case.\<close>

lemma ToLower_ToUpper:
  assumes "ascii s"
  shows "ToLower (ToUpper s) = ToLower s"
proof -
  have "ascii (ToUpper s)"
    using assms unfolding ToUpper_ascii [OF assms] ascii_def
    by (auto simp: word_less_nat_alt word_le_nat_alt unat_sub_if')
  moreover have "\<not> (65 \<le> b \<and> b \<le> 90)" if "97 \<le> b" for b :: byte
    using that by (auto simp: word_le_nat_alt)
  ultimately show ?thesis
    using assms lower_upper_byte by (auto simp: ToLower_ascii ToUpper_ascii)
qed

end
