(* ===== verification/Port_Mapping.thy ===== *)
theory Port_Mapping
  imports Go_Json_Decode Go_Strings
begin

text \<open>
  Port mapping (package nat): the mechanisms a description selects, the discovery of a router by NAT-PMP or UPnP, and the loop that
  keeps a mapping alive. The clients of the two protocols are libraries; what they answer is an argument.
\<close>

section \<open>Networks of package net\<close>

record ipnet =
  in_IP :: bytes
  in_Mask :: bytes

datatype ifaddr = IPNet ipnet | Other_addr

text \<open>\<^verbatim>\<open>net.Interfaces\<close> and \<^verbatim>\<open>Addrs\<close> of each of them; \<^verbatim>\<open>None\<close> is an error.\<close>

type_synonym interfaces = "ifaddr list option list option"

definition networkNumberAndMask :: "ipnet \<Rightarrow> bytes \<times> bytes" where
  "networkNumberAndMask n =
     (let ip = (case To4 (in_IP n) of Some ip4 \<Rightarrow> ip4 | None \<Rightarrow> in_IP n); m = in_Mask n in
      if length ip \<noteq> 4 \<and> length ip \<noteq> 16 then ([], [])
      else if length m = 4 then (if length ip = 4 then (ip, m) else ([], []))
      else if length m = 16 then (ip, if length ip = 4 then drop 12 m else m)
      else ([], []))"

definition Contains :: "ipnet \<Rightarrow> bytes \<Rightarrow> bool" where
  "Contains n ip \<longleftrightarrow>
     (case networkNumberAndMask n of (nn, m) \<Rightarrow>
        let x = (case To4 ip of Some ip4 \<Rightarrow> ip4 | None \<Rightarrow> ip) in
        length x = length nn \<and> (\<forall>i < length x. nn ! i AND m ! i = x ! i AND m ! i))"

text \<open>\<^verbatim>\<open>Mask\<close>; \<^verbatim>\<open>None\<close> is the nil address.\<close>

definition IP_Mask :: "bytes \<Rightarrow> bytes \<Rightarrow> bytes option" where
  "IP_Mask ip msk =
     (let msk1 = (if length msk = 16 \<and> length ip = 4 \<and> take 12 msk = replicate 12 255 then drop 12 msk else msk);
          ip1 = (if length msk1 = 4 \<and> length ip = 16 \<and> take 12 ip = v4InV6Prefix then drop 12 ip else ip)
      in if length ip1 = length msk1 then Some (map2 (AND) ip1 msk1) else None)"

section \<open>NAT-PMP\<close>

text \<open>The client of a gateway: its external address, and whether it accepts a mapping.\<close>

record pmp_client =
  pc_external :: "bytes \<Rightarrow> bytes option"
  pc_map :: "bytes \<Rightarrow> bytes \<Rightarrow> int \<Rightarrow> int \<Rightarrow> int \<Rightarrow> bool"

definition lan10 :: ipnet where "lan10 = \<lparr>in_IP = [10, 0, 0, 0], in_Mask = [255, 0, 0, 0]\<rparr>"
definition lan176 :: ipnet where "lan176 = \<lparr>in_IP = [172, 16, 0, 0], in_Mask = [255, 240, 0, 0]\<rparr>"
definition lan192 :: ipnet where "lan192 = \<lparr>in_IP = [192, 168, 0, 0], in_Mask = [255, 255, 0, 0]\<rparr>"

text \<open>The router is assumed to be the first host of the network of an interface.\<close>

definition gateway_of :: "ipnet \<Rightarrow> bytes option" where
  "gateway_of x =
     (if Contains lan10 (in_IP x) \<or> Contains lan176 (in_IP x) \<or> Contains lan192 (in_IP x) then
        (case IP_Mask (in_IP x) (in_Mask x) of None \<Rightarrow> None
         | Some masked \<Rightarrow> map_option (\<lambda>ip. ip[3 := ip ! 3 OR 1]) (To4 masked))
      else None)"

fun addr_gateways :: "ifaddr list \<Rightarrow> bytes list" where
  "addr_gateways [] = []"
| "addr_gateways (IPNet x # as) = (case gateway_of x of None \<Rightarrow> [] | Some gw \<Rightarrow> [gw]) @ addr_gateways as"
| "addr_gateways (Other_addr # as) = addr_gateways as"

text \<open>An interface whose addresses cannot be read ends the search with what was found so far.\<close>

fun iface_gateways :: "ifaddr list option list \<Rightarrow> bytes list" where
  "iface_gateways [] = []"
| "iface_gateways (None # _) = []"
| "iface_gateways (Some as # ifaces) = addr_gateways as @ iface_gateways ifaces"

definition potentialGateways :: "interfaces \<Rightarrow> bytes list" where
  "potentialGateways ifs = (case ifs of None \<Rightarrow> [] | Some ifaces \<Rightarrow> iface_gateways ifaces)"

text \<open>The order in which the gateways' answers arrive; the timer fires in the end.\<close>

datatype pmp_event = Answer nat | Timeout

fun pmp_wait :: "pmp_client \<Rightarrow> bytes list \<Rightarrow> nat \<Rightarrow> pmp_event list \<Rightarrow> bytes option" where
  "pmp_wait c gws 0 es = None"
| "pmp_wait c gws (Suc k) [] = None"
| "pmp_wait c gws (Suc k) (Timeout # es) = None"
| "pmp_wait c gws (Suc k) (Answer i # es) =
     (if i < length gws \<and> pc_external c (gws ! i) \<noteq> None then Some (gws ! i) else pmp_wait c gws k es)"

section \<open>UPnP\<close>

datatype service_type = WANIPConnection_1 | WANIPConnection_2 | WANPPPConnection_1 | Other_service

text \<open>A service of a device: its type, its client, and the NAT status it reports (\<^verbatim>\<open>None\<close> is an error).\<close>

record upnp_service =
  us_type :: service_type
  us_client :: nat
  us_nat :: "bool option"

text \<open>A root device: the address its base URL resolves to, and its services in the order they are visited.\<close>

record upnp_root =
  ur_addr :: "bytes option"
  ur_services :: "upnp_service list"

record upnp =
  up_addr :: "bytes option"
  up_service :: string
  up_client :: nat

definition make_upnp :: "upnp_root \<Rightarrow> upnp_service \<Rightarrow> string \<Rightarrow> upnp" where
  "make_upnp root sc service = \<lparr>up_addr = ur_addr root, up_service = service, up_client = us_client sc\<rparr>"

fun igd1_matcher :: "upnp_root \<Rightarrow> upnp_service \<Rightarrow> upnp option" where
  "igd1_matcher root sc =
     (case us_type sc of
        WANIPConnection_1 \<Rightarrow> Some (make_upnp root sc ''IGDv1-IP1'')
      | WANPPPConnection_1 \<Rightarrow> Some (make_upnp root sc ''IGDv1-PPP1'')
      | _ \<Rightarrow> None)"

fun igd2_matcher :: "upnp_root \<Rightarrow> upnp_service \<Rightarrow> upnp option" where
  "igd2_matcher root sc =
     (case us_type sc of
        WANIPConnection_1 \<Rightarrow> Some (make_upnp root sc ''IGDv2-IP1'')
      | WANIPConnection_2 \<Rightarrow> Some (make_upnp root sc ''IGDv2-IP2'')
      | WANPPPConnection_1 \<Rightarrow> Some (make_upnp root sc ''IGDv2-PPP1'')
      | Other_service \<Rightarrow> None)"

text \<open>
  \<^verbatim>\<open>discover\<close>: the flag \<^verbatim>\<open>found\<close> and the values sent on the channel while the services of a device, and then the devices, are
  visited.
\<close>

fun visit_services :: "(upnp_root \<Rightarrow> upnp_service \<Rightarrow> upnp option) \<Rightarrow> upnp_root \<Rightarrow> upnp_service list \<Rightarrow>
    bool \<times> upnp option list \<Rightarrow> bool \<times> upnp option list" where
  "visit_services matcher root [] (found, out) = (found, out)"
| "visit_services matcher root (sc # scs) (found, out) =
     visit_services matcher root scs
       (if found then (found, out)
        else case matcher root sc of None \<Rightarrow> (found, out)
        | Some u \<Rightarrow> if us_nat sc = Some True then (True, out @ [Some u]) else (found, out))"

fun visit_devices :: "(upnp_root \<Rightarrow> upnp_service \<Rightarrow> upnp option) \<Rightarrow> upnp_root option list \<Rightarrow>
    bool \<times> upnp option list \<Rightarrow> bool \<times> upnp option list" where
  "visit_devices matcher [] s = s"
| "visit_devices matcher (d # ds) s =
     (if fst s then s
      else visit_devices matcher ds (case d of None \<Rightarrow> s | Some root \<Rightarrow> visit_services matcher root (ur_services root) s))"

definition discover_sends :: "(upnp_root \<Rightarrow> upnp_service \<Rightarrow> upnp option) \<Rightarrow> upnp_root option list option \<Rightarrow> upnp option list" where
  "discover_sends matcher devs =
     (case devs of None \<Rightarrow> [None]
      | Some ds \<Rightarrow> (case visit_devices matcher ds (False, []) of (found, out) \<Rightarrow> if found then out else out @ [None]))"

section \<open>Mappers\<close>

datatype device = ExtIP bytes | Pmp bytes | Upnp upnp

datatype mech = UPnP_or_PMP | UPnP_mech | PMP_mech

text \<open>A mapper is known, or still to be discovered: \<^verbatim>\<open>autodisc\<close> holds the result once its discovery has run.\<close>

datatype mapper = Known device | Autodisc mech "device option option"

fun mech_what :: "mech \<Rightarrow> string" where
  "mech_what UPnP_or_PMP = ''UPnP or NAT-PMP''"
| "mech_what UPnP_mech = ''UPnP''"
| "mech_what PMP_mech = ''NAT-PMP''"

text \<open>The local network during one call: what the libraries answer, and in which order concurrent answers arrive.\<close>

record lan =
  ln_interfaces :: interfaces
  ln_pmp :: pmp_client
  ln_pmp_order :: "pmp_event list"
  ln_igd1 :: "upnp_root option list option"
  ln_igd2 :: "upnp_root option list option"
  ln_igd1_first :: bool
  ln_upnp_first :: bool
  ln_upnp_external :: "nat \<Rightarrow> bytes option"
  ln_upnp_add :: "nat \<Rightarrow> uint16 \<Rightarrow> bytes \<Rightarrow> uint16 \<Rightarrow> bytes \<Rightarrow> bytes \<Rightarrow> uint32 \<Rightarrow> bool"
  ln_upnp_delete :: "nat \<Rightarrow> uint16 \<Rightarrow> bytes \<Rightarrow> bool"

text \<open>
  The loop over a channel that is read at most \<^verbatim>\<open>k\<close> times until a value is not nil. The outer \<^verbatim>\<open>None\<close> is a read that no send answers.
\<close>

fun first_found :: "nat \<Rightarrow> 'a option list \<Rightarrow> 'a option option" where
  "first_found 0 sends = Some None"
| "first_found (Suc k) [] = None"
| "first_found (Suc k) (Some c # sends) = Some (Some c)"
| "first_found (Suc k) (None # sends) = first_found k sends"

definition upnp_sends :: "lan \<Rightarrow> upnp option list" where
  "upnp_sends L =
     (let s1 = discover_sends igd1_matcher (ln_igd1 L); s2 = discover_sends igd2_matcher (ln_igd2 L)
      in if ln_igd1_first L then s1 @ s2 else s2 @ s1)"

definition discoverUPnP :: "lan \<Rightarrow> device option" where
  "discoverUPnP L = (case first_found 2 (upnp_sends L) of Some r \<Rightarrow> map_option Upnp r | None \<Rightarrow> None)"

definition discoverPMP :: "lan \<Rightarrow> device option" where
  "discoverPMP L =
     (let gws = potentialGateways (ln_interfaces L)
      in map_option Pmp (pmp_wait (ln_pmp L) gws (length gws) (ln_pmp_order L)))"

definition any_sends :: "lan \<Rightarrow> device option list" where
  "any_sends L = (if ln_upnp_first L then [discoverUPnP L, discoverPMP L] else [discoverPMP L, discoverUPnP L])"

fun doit :: "lan \<Rightarrow> mech \<Rightarrow> device option" where
  "doit L UPnP_or_PMP = (case first_found 2 (any_sends L) of Some r \<Rightarrow> r | None \<Rightarrow> None)"
| "doit L UPnP_mech = discoverUPnP L"
| "doit L PMP_mech = discoverPMP L"

section \<open>Descriptions\<close>

datatype nat_error =
    InvalidIP
  | MissingIP
  | UnknownMech bytes
  | NoRouter string
  | BadLifetime
  | BadIPInResponse
  | ClientErr

definition Any :: mapper where "Any = Autodisc UPnP_or_PMP None"
definition UPnP :: mapper where "UPnP = Autodisc UPnP_mech None"

definition PMP :: "bytes option \<Rightarrow> mapper" where
  "PMP gateway = (case gateway of Some gw \<Rightarrow> Known (Pmp gw) | None \<Rightarrow> Autodisc PMP_mech None)"

text \<open>\<^verbatim>\<open>Parse\<close>; \<^verbatim>\<open>Ok None\<close> is the nil mapper. \<^verbatim>\<open>58\<close> is the colon.\<close>

definition Parse :: "bytes \<Rightarrow> (nat_error, mapper option) res" where
  "Parse spec =
     (case cut_at 58 spec of (part0, arg) \<Rightarrow>
        let mech = str_of (ToLower part0); ip = Option.bind arg ParseIP in
        if arg \<noteq> None \<and> ip = None then Err InvalidIP
        else if mech \<in> {'''', ''none'', ''off''} then Ok None
        else if mech \<in> {''any'', ''auto'', ''on''} then Ok (Some Any)
        else if mech \<in> {''extip'', ''ip''} then
          (case ip of None \<Rightarrow> Err MissingIP | Some a \<Rightarrow> Ok (Some (Known (ExtIP a))))
        else if mech = ''upnp'' then Ok (Some UPnP)
        else if mech \<in> {''pmp'', ''natpmp'', ''nat-pmp''} then Ok (Some (PMP ip))
        else Err (UnknownMech part0))"

section \<open>Operations of mappers\<close>

text \<open>What is sent to a router.\<close>

datatype request =
    Pmp_map bytes bytes int int int
  | Upnp_add nat uint16 bytes uint16 bytes bytes uint32
  | Upnp_delete nat uint16 bytes

text \<open>Division of durations truncates towards zero.\<close>

definition seconds_of :: "time \<Rightarrow> int" where
  "seconds_of d = (if d < 0 then - (- d div second) else d div second)"

text \<open>The address of the interface whose network holds the device.\<close>

fun addr_in_net :: "bytes \<Rightarrow> ifaddr list \<Rightarrow> bytes option" where
  "addr_in_net ip [] = None"
| "addr_in_net ip (IPNet x # as) = (if Contains x ip then Some (in_IP x) else addr_in_net ip as)"
| "addr_in_net ip (Other_addr # as) = addr_in_net ip as"

fun iface_in_net :: "bytes \<Rightarrow> ifaddr list option list \<Rightarrow> bytes option" where
  "iface_in_net ip [] = None"
| "iface_in_net ip (None # _) = None"
| "iface_in_net ip (Some as # ifaces) = (case addr_in_net ip as of Some a \<Rightarrow> Some a | None \<Rightarrow> iface_in_net ip ifaces)"

definition internalAddress :: "interfaces \<Rightarrow> upnp \<Rightarrow> bytes option" where
  "internalAddress ifs u =
     (case (up_addr u, ifs) of (Some ip, Some ifaces) \<Rightarrow> iface_in_net ip ifaces | _ \<Rightarrow> None)"

definition upnp_DeleteMapping :: "lan \<Rightarrow> bytes \<Rightarrow> int \<Rightarrow> int \<Rightarrow> upnp \<Rightarrow> request list \<times> (nat_error, unit) res" where
  "upnp_DeleteMapping L protocol extport intport u =
     ([Upnp_delete (up_client u) (of_int extport) (ToUpper protocol)],
      if ln_upnp_delete L (up_client u) (of_int extport) (ToUpper protocol) then Ok () else Err ClientErr)"

text \<open>When the own address in the network of the device is not found, nothing is mapped and no error is returned.\<close>

definition upnp_AddMapping :: "lan \<Rightarrow> bytes \<Rightarrow> int \<Rightarrow> int \<Rightarrow> bytes \<Rightarrow> time \<Rightarrow> upnp \<Rightarrow> request list \<times> (nat_error, unit) res" where
  "upnp_AddMapping L protocol extport intport desc lifetime u =
     (case internalAddress (ln_interfaces L) u of None \<Rightarrow> ([], Ok ())
      | Some ip \<Rightarrow>
          (let proto = ToUpper protocol;
               del = fst (upnp_DeleteMapping L proto extport intport u);
               lifetimeS = of_int (seconds_of lifetime) :: uint32
           in (del @ [Upnp_add (up_client u) (of_int extport) proto (of_int intport) (IP_String ip) desc lifetimeS],
               if ln_upnp_add L (up_client u) (of_int extport) proto (of_int intport) (IP_String ip) desc lifetimeS
               then Ok () else Err ClientErr)))"

definition pmp_AddMapping :: "lan \<Rightarrow> bytes \<Rightarrow> int \<Rightarrow> int \<Rightarrow> time \<Rightarrow> bytes \<Rightarrow> request list \<times> (nat_error, unit) res" where
  "pmp_AddMapping L protocol extport intport lifetime gw =
     (if lifetime \<le> 0 then ([], Err BadLifetime)
      else
        ([Pmp_map gw (ToLower protocol) intport extport (seconds_of lifetime)],
         if pc_map (ln_pmp L) gw (ToLower protocol) intport extport (seconds_of lifetime) then Ok () else Err ClientErr))"

definition pmp_DeleteMapping :: "lan \<Rightarrow> bytes \<Rightarrow> int \<Rightarrow> bytes \<Rightarrow> request list \<times> (nat_error, unit) res" where
  "pmp_DeleteMapping L protocol intport gw =
     ([Pmp_map gw (ToLower protocol) intport 0 0],
      if pc_map (ln_pmp L) gw (ToLower protocol) intport 0 0 then Ok () else Err ClientErr)"

fun device_AddMapping :: "lan \<Rightarrow> bytes \<Rightarrow> int \<Rightarrow> int \<Rightarrow> bytes \<Rightarrow> time \<Rightarrow> device \<Rightarrow> request list \<times> (nat_error, unit) res" where
  "device_AddMapping L protocol extport intport name lifetime (ExtIP ip) = ([], Ok ())"
| "device_AddMapping L protocol extport intport name lifetime (Pmp gw) = pmp_AddMapping L protocol extport intport lifetime gw"
| "device_AddMapping L protocol extport intport name lifetime (Upnp u) = upnp_AddMapping L protocol extport intport name lifetime u"

fun device_DeleteMapping :: "lan \<Rightarrow> bytes \<Rightarrow> int \<Rightarrow> int \<Rightarrow> device \<Rightarrow> request list \<times> (nat_error, unit) res" where
  "device_DeleteMapping L protocol extport intport (ExtIP ip) = ([], Ok ())"
| "device_DeleteMapping L protocol extport intport (Pmp gw) = pmp_DeleteMapping L protocol intport gw"
| "device_DeleteMapping L protocol extport intport (Upnp u) = upnp_DeleteMapping L protocol extport intport u"

definition pmp_ExternalIP :: "lan \<Rightarrow> bytes \<Rightarrow> (nat_error, bytes) res" where
  "pmp_ExternalIP L gw = (case pc_external (ln_pmp L) gw of Some ip \<Rightarrow> Ok ip | None \<Rightarrow> Err ClientErr)"

definition upnp_ExternalIP :: "lan \<Rightarrow> upnp \<Rightarrow> (nat_error, bytes) res" where
  "upnp_ExternalIP L u =
     (case ln_upnp_external L (up_client u) of None \<Rightarrow> Err ClientErr
      | Some t \<Rightarrow> (case ParseIP t of Some ip \<Rightarrow> Ok ip | None \<Rightarrow> Err BadIPInResponse))"

fun device_ExternalIP :: "lan \<Rightarrow> device \<Rightarrow> (nat_error, bytes) res" where
  "device_ExternalIP L (ExtIP ip) = Ok ip"
| "device_ExternalIP L (Pmp gw) = pmp_ExternalIP L gw"
| "device_ExternalIP L (Upnp u) = upnp_ExternalIP L u"

text \<open>\<^verbatim>\<open>wait\<close>: the discovery runs once, in the first call.\<close>

fun wait :: "lan \<Rightarrow> mapper \<Rightarrow> mapper \<times> (nat_error, device) res" where
  "wait L (Known d) = (Known d, Ok d)"
| "wait L (Autodisc m found) =
     (let r = (case found of None \<Rightarrow> doit L m | Some r \<Rightarrow> r)
      in (Autodisc m (Some r), case r of Some d \<Rightarrow> Ok d | None \<Rightarrow> Err (NoRouter (mech_what m))))"

definition AddMapping :: "lan \<Rightarrow> bytes \<Rightarrow> int \<Rightarrow> int \<Rightarrow> bytes \<Rightarrow> time \<Rightarrow> mapper \<Rightarrow> mapper \<times> request list \<times> (nat_error, unit) res" where
  "AddMapping L protocol extport intport name lifetime m =
     (case wait L m of
        (m', Ok d) \<Rightarrow> (m', device_AddMapping L protocol extport intport name lifetime d)
      | (m', Err e) \<Rightarrow> (m', [], Err e)
      | (m', Panic) \<Rightarrow> (m', [], Panic))"

definition DeleteMapping :: "lan \<Rightarrow> bytes \<Rightarrow> int \<Rightarrow> int \<Rightarrow> mapper \<Rightarrow> mapper \<times> request list \<times> (nat_error, unit) res" where
  "DeleteMapping L protocol extport intport m =
     (case wait L m of
        (m', Ok d) \<Rightarrow> (m', device_DeleteMapping L protocol extport intport d)
      | (m', Err e) \<Rightarrow> (m', [], Err e)
      | (m', Panic) \<Rightarrow> (m', [], Panic))"

definition ExternalIP :: "lan \<Rightarrow> mapper \<Rightarrow> mapper \<times> (nat_error, bytes) res" where
  "ExternalIP L m =
     (case wait L m of
        (m', Ok d) \<Rightarrow> (m', device_ExternalIP L d)
      | (m', Err e) \<Rightarrow> (m', Err e)
      | (m', Panic) \<Rightarrow> (m', Panic))"

fun device_String :: "device \<Rightarrow> bytes" where
  "device_String (ExtIP ip) = bytes_of ''ExtIP('' @ IP_String ip @ bytes_of '')''"
| "device_String (Pmp gw) = bytes_of ''NAT-PMP('' @ IP_String gw @ bytes_of '')''"
| "device_String (Upnp u) = bytes_of (''UPNP '' @ up_service u)"

fun mapper_String :: "mapper \<Rightarrow> bytes" where
  "mapper_String (Known d) = device_String d"
| "mapper_String (Autodisc m (Some (Some d))) = device_String d"
| "mapper_String (Autodisc m _) = bytes_of (mech_what m)"

section \<open>Keeping a mapping alive\<close>

definition mapTimeout :: time where "mapTimeout = 20 * 60 * second"
definition mapUpdateInterval :: time where "mapUpdateInterval = 15 * 60 * second"

text \<open>The events of the loop: a value on the channel, its closing, and the timer, each with its time.\<close>

datatype map_event = Value | Closed time lan | Refresh time lan

fun map_loop :: "bytes \<Rightarrow> int \<Rightarrow> int \<Rightarrow> bytes \<Rightarrow> map_event list \<Rightarrow> mapper \<Rightarrow> (time \<times> request) list \<times> bool" where
  "map_loop protocol extport intport name [] m = ([], False)"
| "map_loop protocol extport intport name (Value # es) m = map_loop protocol extport intport name es m"
| "map_loop protocol extport intport name (Closed t L # es) m =
     (case DeleteMapping L protocol extport intport m of (m', rqs, _) \<Rightarrow> (map (Pair t) rqs, True))"
| "map_loop protocol extport intport name (Refresh t L # es) m =
     (case AddMapping L protocol extport intport name mapTimeout m of (m', rqs, _) \<Rightarrow>
        (case map_loop protocol extport intport name es m' of (log, ended) \<Rightarrow> (map (Pair t) rqs @ log, ended)))"

text \<open>\<^verbatim>\<open>Map\<close>: the requests it makes with their times, and whether it has returned.\<close>

definition Map :: "time \<Rightarrow> lan \<Rightarrow> mapper \<Rightarrow> bytes \<Rightarrow> int \<Rightarrow> int \<Rightarrow> bytes \<Rightarrow> map_event list \<Rightarrow> (time \<times> request) list \<times> bool" where
  "Map now L m protocol extport intport name es =
     (case AddMapping L protocol extport intport name mapTimeout m of (m', rqs, _) \<Rightarrow>
        (case map_loop protocol extport intport name es m' of (log, ended) \<Rightarrow> (map (Pair now) rqs @ log, ended)))"

section \<open>Descriptions that parse\<close>

lemma ToLower_cut:
  assumes "58 \<notin> set name" "rest = [] \<or> (\<exists>r. rest = 58 # r)"
  shows "cut_at 58 (name @ rest) = (name, case rest of [] \<Rightarrow> None | _ # r \<Rightarrow> Some r)"
  using assms cut_at_none [of 58 name] cut_at_append [of 58 name] by auto

lemma ToUpper_no_colon:
  assumes "ascii name" "58 \<notin> set name"
  shows "58 \<notin> set (ToUpper name)"
proof
  assume "58 \<in> set (ToUpper name)"
  then obtain b where b: "b \<in> set name" "(if 97 \<le> b \<and> b \<le> 122 then b - 32 else b) = 58"
    unfolding ToUpper_ascii [OF assms(1)] by auto
  have "b - 32 \<noteq> 58" if "97 \<le> b" "b \<le> 122"
    using lower_upper_byte(1) [OF that] by auto
  then show False using b assms(2) by (auto split: if_splits)
qed

text \<open>The outcome of \<^verbatim>\<open>Parse\<close> without the name an error quotes.\<close>

definition forget_name :: "(nat_error, 'a) res \<Rightarrow> (nat_error, 'a) res" where
  "forget_name r = (case r of Err (UnknownMech n) \<Rightarrow> Err (UnknownMech []) | _ \<Rightarrow> r)"

lemma Parse_case:
  assumes "ascii name" "58 \<notin> set name" "rest = [] \<or> (\<exists>r. rest = 58 # r)"
  shows "forget_name (Parse (ToUpper name @ rest)) = forget_name (Parse (name @ rest))"
proof -
  have u: "cut_at 58 (ToUpper name @ rest) = (ToUpper name, case rest of [] \<Rightarrow> None | _ # r \<Rightarrow> Some r)"
    using ToLower_cut [OF ToUpper_no_colon [OF assms(1,2)] assms(3)] .
  show ?thesis
    unfolding Parse_def u ToLower_cut [OF assms(2,3)] prod.case Let_def ToLower_ToUpper [OF assms(1)]
    by (simp add: forget_name_def)
qed

lemma Parse_named:
  assumes "ip_ok ip" "ip \<noteq> []" "ToLower (bytes_of name) = bytes_of low" "58 \<notin> set (bytes_of name)"
  shows "low \<in> {''extip'', ''ip''} \<Longrightarrow> Parse (bytes_of name @ 58 # IP_String ip) = Ok (Some (Known (ExtIP (normal_ip ip))))"
    "low \<in> {''pmp'', ''natpmp'', ''nat-pmp''} \<Longrightarrow> Parse (bytes_of name @ 58 # IP_String ip) = Ok (Some (Known (Pmp (normal_ip ip))))"
proof -
  have "ParseIP (IP_String ip) = Some (normal_ip ip)" by (rule ParseIP_String [OF assms(1,2)])
  then show "low \<in> {''extip'', ''ip''} \<Longrightarrow> Parse (bytes_of name @ 58 # IP_String ip) = Ok (Some (Known (ExtIP (normal_ip ip))))"
    "low \<in> {''pmp'', ''natpmp'', ''nat-pmp''} \<Longrightarrow> Parse (bytes_of name @ 58 # IP_String ip) = Ok (Some (Known (Pmp (normal_ip ip))))"
    unfolding Parse_def cut_at_append [OF assms(4)] prod.case assms(3) by (auto simp: PMP_def)
qed

lemma ascii_names:
  "ToLower (bytes_of ''extip'') = bytes_of ''extip''" "ToLower (bytes_of ''pmp'') = bytes_of ''pmp''"
  "ToLower (bytes_of ''none'') = bytes_of ''none''" "ToLower (bytes_of ''any'') = bytes_of ''any''"
  "ToLower (bytes_of ''upnp'') = bytes_of ''upnp''"
  by (simp_all add: bytes_of_def ToLower.simps)

section \<open>Gateways\<close>

lemma lan_is_v4:
  assumes "Contains lan10 ip \<or> Contains lan176 ip \<or> Contains lan192 ip"
  shows "\<exists>ip4. To4 ip = Some ip4"
proof (cases "To4 ip")
  case None
  then have "length ip \<noteq> 4" by (auto simp: To4_def)
  with None assms show ?thesis
    by (auto simp: Contains_def networkNumberAndMask_def lan10_def lan176_def lan192_def To4_def Let_def split: if_splits)
qed simp

text \<open>A gateway is made from the network number and the mask of its interface.\<close>

lemma gateway_of_network:
  assumes "gateway_of x = Some gw"
  obtains nn m where "networkNumberAndMask x = (nn, m)" "length nn = 4" "length m = 4" "To4 (in_IP x) = Some nn"
    "gw = (map2 (AND) nn m)[3 := (nn ! 3 AND m ! 3) OR 1]"
proof -
  have "Contains lan10 (in_IP x) \<or> Contains lan176 (in_IP x) \<or> Contains lan192 (in_IP x)"
    using assms by (auto simp: gateway_of_def split: if_splits)
  then obtain nn where nn: "To4 (in_IP x) = Some nn" "length nn = 4" using lan_is_v4 To4_length by blast
  obtain mk ip4 where mk: "IP_Mask (in_IP x) (in_Mask x) = Some mk" "To4 mk = Some ip4" "gw = ip4[3 := ip4 ! 3 OR 1]"
    using assms by (auto simp: gateway_of_def split: if_splits option.splits)
  define m where "m = (if length (in_Mask x) = 16 then drop 12 (in_Mask x) else in_Mask x)"
  have ip: "in_IP x = nn \<or> in_IP x = v4InV6Prefix @ nn"
    using nn(1) by (auto simp: To4_def split: if_splits) (metis append_take_drop_id)
  have len: "length (in_Mask x) = 4 \<or> length (in_Mask x) = 16"
    using mk(1,2) ip nn(2) by (auto simp: IP_Mask_def To4_def Let_def split: if_splits)
  then have m: "length m = 4" by (auto simp: m_def)
  have "ip4 = map2 (AND) nn m"
    using mk(1,2) ip nn(2) len
    by (auto simp: IP_Mask_def To4_def m_def Let_def drop_zip drop_map split: if_splits)
  moreover have "networkNumberAndMask x = (nn, m)"
    using nn len by (auto simp: networkNumberAndMask_def m_def)
  ultimately show ?thesis using that nn m mk(3) by simp
qed

lemma masked_or_one:
  fixes a m :: byte
  assumes "\<not> bit m 0"
  shows "((a AND m) OR 1) AND m = a AND m"
proof (rule bit_word_eqI)
  fix n
  show "bit (((a AND m) OR 1) AND m) n = bit (a AND m) n" using assms by (cases n) (auto simp: bit_simps)
qed

section \<open>What discovery finds\<close>

lemma visit_services_True: "visit_services matcher root scs (True, out) = (True, out)"
  by (induction scs) auto

definition usable :: "(upnp_root \<Rightarrow> upnp_service \<Rightarrow> upnp option) \<Rightarrow> upnp_root \<Rightarrow> upnp \<Rightarrow> bool" where
  "usable matcher root u \<longleftrightarrow> (\<exists>sc \<in> set (ur_services root). matcher root sc = Some u \<and> us_nat sc = Some True)"

lemma visit_services_once:
  assumes "set scs \<subseteq> set (ur_services root)"
  shows "(\<exists>u. visit_services matcher root scs (False, []) = (True, [Some u]) \<and> usable matcher root u) \<or>
    visit_services matcher root scs (False, []) = (False, []) \<and>
    (\<forall>sc \<in> set scs. matcher root sc = None \<or> us_nat sc \<noteq> Some True)"
  using assms
proof (induction scs)
  case (Cons sc scs)
  show ?case
  proof (cases "\<exists>u. matcher root sc = Some u \<and> us_nat sc = Some True")
    case True
    then obtain u where "matcher root sc = Some u" "us_nat sc = Some True" by blast
    with Cons.prems show ?thesis by (auto simp: visit_services_True usable_def)
  next
    case False
    then have "visit_services matcher root (sc # scs) (False, []) = visit_services matcher root scs (False, [])"
      by (auto split: option.split)
    with False Cons show ?thesis by auto
  qed
qed simp

lemma visit_devices_once:
  "(\<exists>u root. visit_devices matcher ds (False, []) = (True, [Some u]) \<and> Some root \<in> set ds \<and> usable matcher root u) \<or>
   visit_devices matcher ds (False, []) = (False, []) \<and> (\<forall>root u. Some root \<in> set ds \<longrightarrow> \<not> usable matcher root u)"
proof (induction ds)
  case (Cons d ds)
  have True: "visit_devices matcher ds (True, out) = (True, out)" for out by (cases ds) auto
  show ?case
  proof (cases d)
    case None
    then show ?thesis using Cons by auto
  next
    case (Some root)
    from visit_services_once [OF subset_refl, of matcher root] show ?thesis
    proof
      assume "\<exists>u. visit_services matcher root (ur_services root) (False, []) = (True, [Some u]) \<and> usable matcher root u"
      then show ?thesis using Some True by auto
    next
      assume none: "visit_services matcher root (ur_services root) (False, []) = (False, []) \<and>
        (\<forall>sc \<in> set (ur_services root). matcher root sc = None \<or> us_nat sc \<noteq> Some True)"
      then have "\<not> usable matcher root u" for u by (auto simp: usable_def)
      then show ?thesis using Some none Cons by auto
    qed
  qed
qed simp

lemma discover_sends_once:
  "(\<exists>u ds root. discover_sends matcher devs = [Some u] \<and> devs = Some ds \<and> Some root \<in> set ds \<and> usable matcher root u) \<or>
   discover_sends matcher devs = [None] \<and> (\<forall>ds root u. devs = Some ds \<and> Some root \<in> set ds \<longrightarrow> \<not> usable matcher root u)"
proof (cases devs)
  case (Some ds)
  then show ?thesis using visit_devices_once [of matcher ds] by (auto simp: discover_sends_def)
qed (simp add: discover_sends_def)

lemma pmp_wait_Some: "pmp_wait c gws k es = Some gw \<Longrightarrow> gw \<in> set gws \<and> pc_external c gw \<noteq> None"
  by (induction c gws k es rule: pmp_wait.induct) (auto split: if_splits)

text \<open>A connection service with port mapping enabled, of a device that answers one of the two searches.\<close>

definition offered :: "lan \<Rightarrow> upnp \<Rightarrow> bool" where
  "offered L u \<longleftrightarrow>
     (\<exists>ds root. ln_igd1 L = Some ds \<and> Some root \<in> set ds \<and> usable igd1_matcher root u) \<or>
     (\<exists>ds root. ln_igd2 L = Some ds \<and> Some root \<in> set ds \<and> usable igd2_matcher root u)"

lemma upnp_sends_cases:
  "\<exists>a b. upnp_sends L = [a, b] \<and> (\<forall>u. a = Some u \<or> b = Some u \<longrightarrow> offered L u) \<and> (a = None \<and> b = None \<longrightarrow> (\<nexists>u. offered L u))"
proof -
  obtain a where a: "discover_sends igd1_matcher (ln_igd1 L) = [a]" "\<forall>u. a = Some u \<longrightarrow> offered L u"
    "a = None \<longrightarrow> (\<forall>ds root u. ln_igd1 L = Some ds \<and> Some root \<in> set ds \<longrightarrow> \<not> usable igd1_matcher root u)"
    using discover_sends_once [of igd1_matcher "ln_igd1 L"] unfolding offered_def by blast
  obtain b where b: "discover_sends igd2_matcher (ln_igd2 L) = [b]" "\<forall>u. b = Some u \<longrightarrow> offered L u"
    "b = None \<longrightarrow> (\<forall>ds root u. ln_igd2 L = Some ds \<and> Some root \<in> set ds \<longrightarrow> \<not> usable igd2_matcher root u)"
    using discover_sends_once [of igd2_matcher "ln_igd2 L"] unfolding offered_def by blast
  have none: "a = None \<and> b = None \<longrightarrow> (\<nexists>u. offered L u)" using a(3) b(3) unfolding offered_def by blast
  show ?thesis
  proof (cases "ln_igd1_first L")
    case True
    then show ?thesis using a b none by (intro exI [of _ a] exI [of _ b]) (simp add: upnp_sends_def)
  next
    case False
    then show ?thesis using a b none by (intro exI [of _ b] exI [of _ a]) (simp add: upnp_sends_def)
  qed
qed

lemma upnp_found:
  "first_found 2 (upnp_sends L) \<noteq> None" "case discoverUPnP L of None \<Rightarrow> \<nexists>u. offered L u | Some (Upnp u) \<Rightarrow> offered L u | _ \<Rightarrow> False"
proof -
  obtain a b where ab: "upnp_sends L = [a, b]" "\<forall>u. a = Some u \<or> b = Some u \<longrightarrow> offered L u" "a = None \<and> b = None \<longrightarrow> (\<nexists>u. offered L u)"
    using upnp_sends_cases by blast
  then show "first_found 2 (upnp_sends L) \<noteq> None" "case discoverUPnP L of None \<Rightarrow> \<nexists>u. offered L u | Some (Upnp u) \<Rightarrow> offered L u | _ \<Rightarrow> False"
    by (cases a; cases b; simp add: discoverUPnP_def numeral_2_eq_2)+
qed

lemma pmp_found:
  "case discoverPMP L of None \<Rightarrow> True
   | Some (Pmp gw) \<Rightarrow> gw \<in> set (potentialGateways (ln_interfaces L)) \<and> pc_external (ln_pmp L) gw \<noteq> None | _ \<Rightarrow> False"
  using pmp_wait_Some [of "ln_pmp L" "potentialGateways (ln_interfaces L)"]
  by (auto simp: discoverPMP_def Let_def split: option.split)

lemma first_found_pair: "first_found 2 [a, b] = Some (case a of None \<Rightarrow> b | Some c \<Rightarrow> Some c)"
  by (cases a; cases b) (simp_all add: numeral_2_eq_2)

lemma any_found:
  "first_found 2 (any_sends L) \<noteq> None" "doit L UPnP_or_PMP = discoverUPnP L \<or> doit L UPnP_or_PMP = discoverPMP L"
  "doit L UPnP_or_PMP = None \<Longrightarrow> discoverUPnP L = None"
  by (simp_all add: any_sends_def first_found_pair split: if_splits option.splits)

lemma any_sound:
  "case doit L UPnP_or_PMP of None \<Rightarrow> \<nexists>u. offered L u | Some (ExtIP ip) \<Rightarrow> False
   | Some (Pmp gw) \<Rightarrow> gw \<in> set (potentialGateways (ln_interfaces L)) \<and> pc_external (ln_pmp L) gw \<noteq> None | Some (Upnp u) \<Rightarrow> offered L u"
proof (cases "doit L UPnP_or_PMP")
  case None
  then show ?thesis using any_found(3) [OF None] upnp_found(2) [of L] by simp
next
  case (Some d)
  then have "discoverUPnP L = Some d \<or> discoverPMP L = Some d" using any_found(2) [of L] by metis
  then show ?thesis using Some upnp_found(2) [of L] pmp_found [of L] by (cases d) auto
qed

section \<open>Requests over time\<close>

text \<open>
  A run in which every event comes before the mapping expires; the timer is set to fifteen minutes after each request, so the
  call and the delay of the timer may take the five minutes that are left.
\<close>

fun timely :: "time \<Rightarrow> map_event list \<Rightarrow> bool" where
  "timely prev [] \<longleftrightarrow> True"
| "timely prev (Value # es) \<longleftrightarrow> timely prev es"
| "timely prev (Closed t L # es) \<longleftrightarrow> prev \<le> t \<and> t \<le> prev + mapTimeout"
| "timely prev (Refresh t L # es) \<longleftrightarrow> prev + mapUpdateInterval \<le> t \<and> t \<le> prev + mapTimeout \<and> timely t es"

text \<open>The time of the prev event before the loop ends.\<close>

fun last_event :: "time \<Rightarrow> map_event list \<Rightarrow> time" where
  "last_event prev [] = prev"
| "last_event prev (Value # es) = last_event prev es"
| "last_event prev (Closed t L # es) = t"
| "last_event prev (Refresh t L # es) = last_event t es"

lemma wait_again: "wait L m = (m', Ok d) \<Longrightarrow> wait L' m' = (m', Ok d)"
  by (cases m) (auto simp: Let_def split: option.splits)

definition add_request :: "bytes \<Rightarrow> bytes \<Rightarrow> int \<Rightarrow> int \<Rightarrow> request" where
  "add_request gw protocol extport intport = Pmp_map gw (ToLower protocol) intport extport 1200"

definition delete_request :: "bytes \<Rightarrow> bytes \<Rightarrow> int \<Rightarrow> request" where
  "delete_request gw protocol intport = Pmp_map gw (ToLower protocol) intport 0 0"

lemma mapTimeout_seconds: "seconds_of mapTimeout = 1200" "mapTimeout = 1200 * second" "0 < mapTimeout"
  by (simp_all add: seconds_of_def mapTimeout_def)

lemma pmp_requests:
  assumes "wait L m = (m', Ok (Pmp gw))"
  shows "fst (AddMapping L protocol extport intport name mapTimeout m) = m'"
    "fst (snd (AddMapping L protocol extport intport name mapTimeout m)) = [add_request gw protocol extport intport]"
    "fst (snd (DeleteMapping L protocol extport intport m)) = [delete_request gw protocol intport]"
  using assms mapTimeout_seconds
  by (simp_all add: AddMapping_def DeleteMapping_def pmp_AddMapping_def pmp_DeleteMapping_def add_request_def delete_request_def)

lemma map_loop_steps:
  assumes "\<And>L. wait L m = (m, Ok (Pmp gw))"
  shows "map_loop protocol extport intport name (Closed t L # es) m = ([(t, delete_request gw protocol intport)], True)"
    "map_loop protocol extport intport name (Refresh t L # es) m =
      (case map_loop protocol extport intport name es m of (log, ended) \<Rightarrow>
         ((t, add_request gw protocol extport intport) # log, ended))"
proof -
  obtain m1 rqs r where a: "AddMapping L protocol extport intport name mapTimeout m = (m1, rqs, r)" by (cases "AddMapping L protocol extport intport name mapTimeout m")
  obtain m2 dqs d where x: "DeleteMapping L protocol extport intport m = (m2, dqs, d)" by (cases "DeleteMapping L protocol extport intport m")
  note rq = pmp_requests(1,2) [OF assms [of L], of protocol extport intport name, unfolded a]
    pmp_requests(3) [OF assms [of L], of protocol extport intport, unfolded x]
  show "map_loop protocol extport intport name (Closed t L # es) m = ([(t, delete_request gw protocol intport)], True)"
    using rq x by simp
  show "map_loop protocol extport intport name (Refresh t L # es) m =
      (case map_loop protocol extport intport name es m of (log, ended) \<Rightarrow>
         ((t, add_request gw protocol extport intport) # log, ended))"
    using rq a by simp
qed

lemma map_loop_log:
  assumes "\<And>L. wait L m = (m, Ok (Pmp gw))" "map_loop protocol extport intport name es m = (log, ended)"
  shows "\<exists>adds. log = adds @ (if ended then [(last_event prev es, delete_request gw protocol intport)] else []) \<and>
    (\<forall>(t, r) \<in> set adds. r = add_request gw protocol extport intport)"
  using assms(2)
proof (induction prev es arbitrary: log rule: last_event.induct)
  case (4 prev t L es)
  obtain log1 where log1: "map_loop protocol extport intport name es m = (log1, ended)"
    "log = (t, add_request gw protocol extport intport) # log1"
    using 4(2) unfolding map_loop_steps(2) [OF assms(1)] by (auto split: prod.splits)
  obtain adds where "log1 = adds @ (if ended then [(last_event t es, delete_request gw protocol intport)] else [])"
    "\<forall>(t, r) \<in> set adds. r = add_request gw protocol extport intport" using 4(1) [OF log1(1)] by blast
  then show ?case using log1(2) by (intro exI [of _ "(t, add_request gw protocol extport intport) # adds"]) simp
qed (auto simp: map_loop_steps [OF assms(1)] simp del: map_loop.simps(3,4))

lemma map_loop_covers:
  assumes "\<And>L. wait L m = (m, Ok (Pmp gw))" "timely prev es" "map_loop protocol extport intport name es m = (log, ended)"
    and "prev \<le> t" "t < last_event prev es"
  shows "\<exists>r. (r, add_request gw protocol extport intport) \<in> set ((prev, add_request gw protocol extport intport) # log) \<and>
    r \<le> t \<and> t < r + 1200 * second"
  using assms(2-5)
proof (induction prev es arbitrary: log rule: timely.induct)
  case (4 prev u L es)
  obtain log1 where log1: "map_loop protocol extport intport name es m = (log1, ended)"
    "log = (u, add_request gw protocol extport intport) # log1"
    using 4(3) unfolding map_loop_steps(2) [OF assms(1)] by (auto split: prod.splits)
  show ?case
  proof (cases "t < u")
    case True
    then show ?thesis using 4(2,4) mapTimeout_seconds(2) by (intro exI [of _ prev]) auto
  next
    case False
    then show ?thesis using 4(1) [OF _ log1(1)] 4(2,5) log1(2) by auto
  qed
next
  case (3 prev u L es)
  then show ?case using mapTimeout_seconds(2) by (intro exI [of _ prev]) auto
qed (auto simp: map_loop_steps [OF assms(1)])

section \<open>The properties\<close>

text \<open>
  C33: Descriptions mean what the comment of Parse says: no mechanism for an empty description or none, discovery for any, upnp and
  pmp, and a fixed address for extip and pmp with an address in the form package net prints; and the case of a mechanism's name does
  not matter, whatever follows it.
\<close>

theorem nat_parse_formats:
  assumes "ip_ok ip" "ip \<noteq> []" "ascii name" "58 \<notin> set name" "rest = [] \<or> (\<exists>r. rest = 58 # r)"
  shows "Parse [] = Ok None \<and> Parse (bytes_of ''none'') = Ok None \<and>
    Parse (bytes_of ''any'') = Ok (Some (Autodisc UPnP_or_PMP None)) \<and> Parse (bytes_of ''upnp'') = Ok (Some (Autodisc UPnP_mech None)) \<and>
    Parse (bytes_of ''pmp'') = Ok (Some (Autodisc PMP_mech None)) \<and>
    Parse (bytes_of ''extip'' @ 58 # IP_String ip) = Ok (Some (Known (ExtIP (normal_ip ip)))) \<and>
    Parse (bytes_of ''pmp'' @ 58 # IP_String ip) = Ok (Some (Known (Pmp (normal_ip ip)))) \<and>
    forget_name (Parse (ToUpper name @ rest)) = forget_name (Parse (name @ rest))"
proof -
  have colon: "58 \<notin> set (bytes_of ''none'')" "58 \<notin> set (bytes_of ''any'')" "58 \<notin> set (bytes_of ''upnp'')"
    "58 \<notin> set (bytes_of ''pmp'')" "58 \<notin> set (bytes_of ''extip'')" by (simp_all add: bytes_of_def)
  have fixed: "Parse (bytes_of ''none'') = Ok None" "Parse (bytes_of ''any'') = Ok (Some Any)"
    "Parse (bytes_of ''upnp'') = Ok (Some UPnP)" "Parse (bytes_of ''pmp'') = Ok (Some (PMP None))"
    unfolding Parse_def cut_at_none [OF colon(1)] cut_at_none [OF colon(2)] cut_at_none [OF colon(3)] cut_at_none [OF colon(4)]
      prod.case ascii_names by simp_all
  have "Parse [] = Ok None" by (simp add: Parse_def cut_at_def ToLower.simps str_of_def)
  with fixed show ?thesis
    using Parse_named(1) [OF assms(1,2) ascii_names(1) colon(5)] Parse_named(2) [OF assms(1,2) ascii_names(2) colon(4)]
      Parse_case [OF assms(3-5)]
    by (simp add: Any_def UPnP_def PMP_def)
qed

theorem nat_parse_formats_witness:
  "Parse (bytes_of ''extip:192.168.7.1'') = Ok (Some (Known (ExtIP (v4InV6Prefix @ [192, 168, 7, 1])))) \<and>
   Parse (bytes_of ''UPNP'') = Ok (Some (Autodisc UPnP_mech None))"
proof -
  have "ip_ok [192, 168, 7, 1]" by (simp add: ip_ok_def)
  moreover have "ascii (bytes_of ''upnp'')" "58 \<notin> set (bytes_of ''upnp'')" by (simp_all add: bytes_of_def ascii_def)
  ultimately have "Parse (bytes_of ''extip'' @ 58 # IP_String [192, 168, 7, 1]) = Ok (Some (Known (ExtIP (normal_ip [192, 168, 7, 1]))))"
    "Parse (bytes_of ''upnp'') = Ok (Some (Autodisc UPnP_mech None))"
    "forget_name (Parse (ToUpper (bytes_of ''upnp'') @ [])) = forget_name (Parse (bytes_of ''upnp'' @ []))"
    using nat_parse_formats [of "[192, 168, 7, 1]" "bytes_of ''upnp''" "[]"] by blast+
  moreover have "IP_String [192, 168, 7, 1] = bytes_of ''192.168.7.1''" "normal_ip [192, 168, 7, 1] = v4InV6Prefix @ [192, 168, 7, 1]"
    "ToUpper (bytes_of ''upnp'') = bytes_of ''UPNP''" by code_simp+
  ultimately show ?thesis by (auto simp: forget_name_def bytes_of_def split: res.splits nat_error.splits)
qed

text \<open>
  A potential NAT-PMP gateway is an odd host address made from the network of one of the interfaces with an address in a private
  range: its first three bytes are those of the network, and unless the mask covers the last bit it belongs to the network of that
  interface.
\<close>

theorem gateway_is_in_network:
  assumes "gw \<in> set (potentialGateways ifs)"
  shows "\<exists>x nn m. gateway_of x = Some gw \<and> networkNumberAndMask x = (nn, m) \<and> length gw = 4 \<and> odd (unat (gw ! 3)) \<and>
    (\<forall>i < 3. gw ! i = nn ! i AND m ! i) \<and> (Contains x gw \<or> odd (unat (m ! 3)))"
proof -
  have addrs: "gw \<in> set (addr_gateways as) \<Longrightarrow> \<exists>x. gateway_of x = Some gw" for as
    by (induction as rule: addr_gateways.induct) (auto split: option.splits)
  have "gw \<in> set (iface_gateways ifaces) \<Longrightarrow> \<exists>x. gateway_of x = Some gw" for ifaces
    by (induction ifaces rule: iface_gateways.induct) (auto dest: addrs)
  then obtain x where x: "gateway_of x = Some gw" using assms by (auto simp: potentialGateways_def split: option.splits)
  obtain nn m where nm: "networkNumberAndMask x = (nn, m)" "length nn = 4" "length m = 4"
    "gw = (map2 (AND) nn m)[3 := (nn ! 3 AND m ! 3) OR 1]" by (rule gateway_of_network [OF x]) blast
  have gw: "length gw = 4" "gw ! 3 = (nn ! 3 AND m ! 3) OR 1" "\<forall>i < 3. gw ! i = nn ! i AND m ! i" using nm by simp_all
  have "odd (unat (gw ! 3))" unfolding gw(2) by (simp flip: bit_0 add: bit_simps)
  moreover have "Contains x gw" if "even (unat (m ! 3))"
  proof -
    have "\<not> bit (unat (m ! 3)) 0" using that by (simp add: bit_0)
    then have "\<not> bit (m ! 3) 0" by (simp add: bit_unsigned_iff)
    then have "gw ! i AND m ! i = nn ! i AND m ! i" if "i < 4" for i
      using that gw(2,3) masked_or_one [of "m ! 3" "nn ! 3"] by (cases "i = 3") (auto simp: and.assoc)
    moreover have "To4 gw = Some gw" using gw(1) by (simp add: To4_def)
    ultimately show ?thesis using nm(1,2) gw(1) by (simp add: Contains_def)
  qed
  ultimately show ?thesis using x nm(1) gw by blast
qed

definition home_interfaces :: interfaces where
  "home_interfaces = Some [Some [Other_addr, IPNet \<lparr>in_IP = [192, 168, 7, 23], in_Mask = [255, 255, 255, 0]\<rparr>]]"

lemma home_gateway: "potentialGateways home_interfaces = [[192, 168, 7, 1]]"
  by (simp add: home_interfaces_def potentialGateways_def gateway_of_def Contains_def networkNumberAndMask_def lan10_def lan176_def
      lan192_def To4_def IP_Mask_def All_less_Suc)

theorem gateway_is_in_network_witness:
  "\<exists>x nn m. gateway_of x = Some [192, 168, 7, 1] \<and> networkNumberAndMask x = (nn, m) \<and> length [192, 168, 7, 1 :: byte] = 4 \<and>
    odd (unat ([192, 168, 7, 1 :: byte] ! 3)) \<and> (\<forall>i < 3. [192, 168, 7, 1 :: byte] ! i = nn ! i AND m ! i) \<and>
    (Contains x [192, 168, 7, 1] \<or> odd (unat (m ! 3)))"
  by (rule gateway_is_in_network [of _ home_interfaces]) (simp add: home_gateway)

text \<open>
  C32: Discovery is sound and always answers. Each of the concurrent searches sends exactly one value, so the loops that collect them
  never wait in vain; a router found by NAT-PMP is a potential gateway that reported an external address, one found by UPnP is a
  connection service of a device on the network with port mapping enabled; and when nothing is found over UPnP, no device has such a
  service.
\<close>

theorem discovery_sound:
  "first_found 2 (upnp_sends L) \<noteq> None \<and> first_found 2 (any_sends L) \<noteq> None \<and>
   (case doit L k of
      None \<Rightarrow> (case k of PMP_mech \<Rightarrow> True | _ \<Rightarrow> \<nexists>u. offered L u)
    | Some (ExtIP ip) \<Rightarrow> False
    | Some (Pmp gw) \<Rightarrow> gw \<in> set (potentialGateways (ln_interfaces L)) \<and> pc_external (ln_pmp L) gw \<noteq> None
    | Some (Upnp u) \<Rightarrow> offered L u)"
proof (cases k)
  case UPnP_or_PMP
  then show ?thesis using any_found(1) [of L] upnp_found(1) [of L] any_sound [of L] unfolding UPnP_or_PMP mech.case by blast
next
  case UPnP_mech
  then show ?thesis using any_found(1) [of L] upnp_found [of L] by (auto split: option.splits device.splits)
next
  case PMP_mech
  then show ?thesis using any_found(1) [of L] upnp_found(1) [of L] pmp_found [of L] by (auto split: option.splits device.splits)
qed


definition home_lan :: lan where
  "home_lan = \<lparr>ln_interfaces = home_interfaces,
     ln_pmp = \<lparr>pc_external = (\<lambda>gw. Some [8, 8, 4, 4]), pc_map = (\<lambda>gw proto intport extport secs. True)\<rparr>,
     ln_pmp_order = [Answer 0], ln_igd1 = None, ln_igd2 = Some [], ln_igd1_first = False, ln_upnp_first = True,
     ln_upnp_external = (\<lambda>c. None), ln_upnp_add = (\<lambda>c e p i ip d l. False), ln_upnp_delete = (\<lambda>c e p. False)\<rparr>"


end
