(* ===== verification/Urlsafe_B64.thy ===== *)
theory Urlsafe_B64
  imports Prelude
begin

text \<open>
  common/urlsafeb64: base64 without padding and with the two characters replaced that are special in URLs, on top of the encodings
  of Go's package encoding/base64.
\<close>

section \<open>Package encoding/base64\<close>

definition b64_alphabet :: bytes where
  "b64_alphabet = bytes_of ''ABCDEFGHIJKLMNOPQRSTUVWXYZabcdefghijklmnopqrstuvwxyz0123456789+/''"

definition b64_digit :: "nat \<Rightarrow> byte" where
  "b64_digit d = b64_alphabet ! d"

text \<open>\<^verbatim>\<open>decodeMap\<close>; \<^verbatim>\<open>None\<close> is the entry 0xff.\<close>

definition b64_value :: "byte \<Rightarrow> nat option" where
  "b64_value c = first_index (\<lambda>b. b = c) b64_alphabet"

text \<open>The four digits of a 24-bit number.\<close>

definition digits4 :: "nat \<Rightarrow> nat list" where
  "digits4 v = [v div 64 div 64 div 64 mod 64, v div 64 div 64 mod 64, v div 64 mod 64, v mod 64]"

definition bytes3 :: "byte \<Rightarrow> byte \<Rightarrow> byte \<Rightarrow> nat" where
  "bytes3 a b c = (unat a * 256 + unat b) * 256 + unat c"

text \<open>\<^verbatim>\<open>StdEncoding.EncodeToString\<close>; \<^verbatim>\<open>61\<close> is the padding character.\<close>

fun std_encode :: "bytes \<Rightarrow> bytes" where
  "std_encode [] = []"
| "std_encode [a] = map b64_digit (take 2 (digits4 (bytes3 a 0 0))) @ [61, 61]"
| "std_encode [a, b] = map b64_digit (take 3 (digits4 (bytes3 a b 0))) @ [61]"
| "std_encode (a # b # c # rest) = map b64_digit (digits4 (bytes3 a b c)) @ std_encode rest"

text \<open>Four digits, the missing ones zero, as three bytes.\<close>

fun number4 :: "nat list \<Rightarrow> nat" where
  "number4 ds = foldl (\<lambda>v d. v * 64 + d) 0 (take 4 (ds @ replicate 4 0))"

definition three_bytes :: "nat \<Rightarrow> bytes" where
  "three_bytes v = [of_nat (v div 256 div 256), of_nat (v div 256), of_nat v]"

text \<open>The digits of an input without padding; bits that are left over are not looked at.\<close>

fun decode_digits :: "nat list \<Rightarrow> bytes option" where
  "decode_digits [] = Some []"
| "decode_digits [d] = None"
| "decode_digits [d, e] = Some (take 1 (three_bytes (number4 [d, e])))"
| "decode_digits [d, e, f] = Some (take 2 (three_bytes (number4 [d, e, f])))"
| "decode_digits (d # e # f # g # rest) = map_option ((@) (three_bytes (number4 [d, e, f, g]))) (decode_digits rest)"

datatype b64_error = CorruptInputError

text \<open>\<^verbatim>\<open>RawStdEncoding.DecodeString\<close>: line breaks are skipped, any other character outside the alphabet is an error.\<close>

definition raw_decode :: "bytes \<Rightarrow> (b64_error, bytes) res" where
  "raw_decode s =
     (case those (map b64_value (filter (\<lambda>c. c \<noteq> 10 \<and> c \<noteq> 13) s)) of None \<Rightarrow> Err CorruptInputError
      | Some ds \<Rightarrow> (case decode_digits ds of None \<Rightarrow> Err CorruptInputError | Some bs \<Rightarrow> Ok bs))"

section \<open>The encoding of the program\<close>

definition ReplaceAll :: "bytes \<Rightarrow> byte \<Rightarrow> bytes \<Rightarrow> bytes" where
  "ReplaceAll s old new = concat (map (\<lambda>c. if c = old then new else [c]) s)"

text \<open>The characters are + (43), - (45), / (47), _ (95) and = (61).\<close>

definition Encode :: "bytes \<Rightarrow> bytes" where
  "Encode src =
     (let sEnc = std_encode src;
          sEnc = ReplaceAll sEnc 43 [45];
          sEnc = ReplaceAll sEnc 47 [95];
          sEnc = ReplaceAll sEnc 61 []
      in sEnc)"

definition Decode :: "bytes \<Rightarrow> (b64_error, bytes) res" where
  "Decode enc =
     (let encStr = ReplaceAll enc 45 [43];
          encStr = ReplaceAll encStr 95 [47]
      in raw_decode encStr)"

section \<open>Digits\<close>

lemma digits4_small: "d \<in> set (digits4 v) \<Longrightarrow> d < 64"
  by (auto simp: digits4_def)

lemma length_alphabet: "length b64_alphabet = 64"
  by (simp add: b64_alphabet_def bytes_of_def)

lemma distinct_alphabet: "distinct b64_alphabet"
  by (simp add: b64_alphabet_def bytes_of_def)

lemma b64_value_digit: "d < 64 \<Longrightarrow> b64_value (b64_digit d) = Some d"
proof -
  assume d: "d < 64"
  then have "b64_digit d \<in> set b64_alphabet" using length_alphabet by (simp add: b64_digit_def)
  then obtain i where i: "b64_value (b64_digit d) = Some i" using first_index_None [of "\<lambda>b. b = b64_digit d" b64_alphabet]
    by (auto simp: b64_value_def)
  then have "i < 64" "b64_alphabet ! i = b64_alphabet ! d"
    using first_index_Some [of "\<lambda>b. b = b64_digit d" b64_alphabet i] length_alphabet by (auto simp: b64_value_def b64_digit_def)
  then have "i = d" using distinct_alphabet length_alphabet d by (simp add: nth_eq_iff_index_eq)
  with i show ?thesis by simp
qed

text \<open>
  What becomes of one character on its way through \<^verbatim>\<open>Encode\<close> and \<^verbatim>\<open>Decode\<close>: the alphabet avoids the characters that are
  substituted in, the padding and line breaks.
\<close>

definition safe_char :: "byte \<Rightarrow> bytes" where
  "safe_char c = (if c = 43 then [45] else if c = 47 then [95] else if c = 61 then [] else [c])"

definition std_char :: "byte \<Rightarrow> byte" where
  "std_char c = (if c = 45 then 43 else if c = 95 then 47 else c)"

definition url_digit :: "nat \<Rightarrow> byte" where
  "url_digit d = (if d = 62 then 45 else if d = 63 then 95 else b64_digit d)"

lemma Encode_chars: "Encode src = concat (map safe_char (std_encode src))"
proof -
  have "ReplaceAll (ReplaceAll (ReplaceAll s 43 [45]) 47 [95]) 61 [] = concat (map safe_char s)" for s
    by (induction s) (simp_all add: ReplaceAll_def safe_char_def)
  then show ?thesis by (simp add: Encode_def)
qed

lemma Decode_chars: "Decode enc = raw_decode (map std_char enc)"
proof -
  have "ReplaceAll (ReplaceAll s 45 [43]) 95 [47] = map std_char s" for s
    by (induction s) (simp_all add: ReplaceAll_def std_char_def)
  then show ?thesis by (simp add: Decode_def)
qed

lemma all_digits:
  assumes "d < 64"
  shows "safe_char (b64_digit d) = [url_digit d]" "std_char (url_digit d) = b64_digit d"
    "b64_digit d \<noteq> 10" "b64_digit d \<noteq> 13" "url_digit d \<notin> {43, 47, 61}"
proof -
  have d: "b64_digit d \<in> set b64_alphabet" using assms length_alphabet by (simp add: b64_digit_def)
  have "set b64_alphabet \<inter> {45, 95, 61, 10, 13} = {}" by (simp add: b64_alphabet_def bytes_of_def)
  then have no: "b64_digit d \<notin> {45, 95, 61, 10, 13}" using d by blast
  have "b64_alphabet ! 62 = 43" "b64_alphabet ! 63 = 47" by (simp_all add: b64_alphabet_def bytes_of_def)
  then have plus: "b64_digit d = 43 \<longleftrightarrow> d = 62" "b64_digit d = 47 \<longleftrightarrow> d = 63"
    using assms nth_eq_iff_index_eq [OF distinct_alphabet, of d 62] nth_eq_iff_index_eq [OF distinct_alphabet, of d 63]
    by (simp_all add: length_alphabet b64_digit_def)
  show "safe_char (b64_digit d) = [url_digit d]" "std_char (url_digit d) = b64_digit d"
    "b64_digit d \<noteq> 10" "b64_digit d \<noteq> 13" "url_digit d \<notin> {43, 47, 61}"
    using no plus by (auto simp: safe_char_def std_char_def url_digit_def)
qed

section \<open>The digits of an encoding\<close>

fun digit_list :: "bytes \<Rightarrow> nat list" where
  "digit_list [] = []"
| "digit_list [a] = take 2 (digits4 (bytes3 a 0 0))"
| "digit_list [a, b] = take 3 (digits4 (bytes3 a b 0))"
| "digit_list (a # b # c # rest) = digits4 (bytes3 a b c) @ digit_list rest"

lemma digit_list_small: "\<forall>d \<in> set (digit_list src). d < 64"
  by (induction src rule: digit_list.induct) (auto dest: in_set_takeD digits4_small)

lemma safe_digits: "\<forall>d \<in> set ds. d < 64 \<Longrightarrow> concat (map safe_char (map b64_digit ds)) = map url_digit ds"
  by (induction ds) (simp_all add: all_digits)

lemma Encode_digits: "Encode src = map url_digit (digit_list src)"
proof -
  have pad: "safe_char 61 = []" by (simp add: safe_char_def)
  have "concat (map safe_char (std_encode src)) = map url_digit (digit_list src)"
    by (induction src rule: std_encode.induct) (simp_all add: pad digits4_def all_digits)
  then show ?thesis by (simp add: Encode_chars)
qed

lemma number_digits4: "v < 16777216 \<Longrightarrow> number4 (digits4 v) = v"
proof -
  assume v: "v < 16777216"
  have "v = 64 * (v div 64) + v mod 64" "v div 64 = 64 * (v div 64 div 64) + v div 64 mod 64"
    "v div 64 div 64 = 64 * (v div 64 div 64 div 64) + v div 64 div 64 mod 64" by simp_all
  moreover have "v div 64 div 64 div 64 < 64" using v by simp
  ultimately show ?thesis by (simp add: digits4_def)
qed

lemma three_bytes_bytes3: "bytes3 a b c < 16777216" "three_bytes (bytes3 a b c) = [a, b, c]"
proof -
  have u: "unat a < 256" "unat b < 256" "unat c < 256" by simp_all
  define h where "h = unat a * 256 + unat b"
  have "h < 65536" unfolding h_def using u(1,2) by linarith
  then show "bytes3 a b c < 16777216" unfolding bytes3_def h_def [symmetric] using u(3) by linarith
  have "bytes3 a b c div 256 = h" unfolding bytes3_def h_def [symmetric] by simp
  moreover have "h div 256 = unat a" by (simp add: h_def)
  moreover have z: "(256 :: byte) = 0" "(65536 :: byte) = 0" by simp_all
  have "(of_nat h :: byte) = b" "(of_nat (bytes3 a b c) :: byte) = c"
    by (simp_all add: h_def bytes3_def z)
  ultimately show "three_bytes (bytes3 a b c) = [a, b, c]" by (simp add: three_bytes_def)
qed

text \<open>An encoding leaves zeros in the digits it drops.\<close>

lemma dropped_digits:
  "digits4 (bytes3 a 0 0) = take 2 (digits4 (bytes3 a 0 0)) @ [0, 0]" "digits4 (bytes3 a b 0) = take 3 (digits4 (bytes3 a b 0)) @ [0]"
proof -
  have "bytes3 a b 0 mod 64 = 0" for b using mod_mult_self2_is_0 [of "unat a * 1024 + unat b * 4" 64] by (simp add: bytes3_def algebra_simps)
  moreover have "bytes3 a 0 0 div 64 = unat a * 1024" by (simp add: bytes3_def)
  ultimately show "digits4 (bytes3 a b 0) = take 3 (digits4 (bytes3 a b 0)) @ [0]"
    "digits4 (bytes3 a 0 0) = take 2 (digits4 (bytes3 a 0 0)) @ [0, 0]"
    by (simp_all add: digits4_def)
qed

lemma decode_digit_list: "decode_digits (digit_list src) = Some src"
proof (induction src rule: digit_list.induct)
  case (2 a)
  have "number4 (take 2 (digits4 (bytes3 a 0 0))) = number4 (digits4 (bytes3 a 0 0))"
    by (subst (2) dropped_digits(1)) (simp add: digits4_def numeral_2_eq_2)
  then show ?case using number_digits4 [OF three_bytes_bytes3(1) [of a 0 0]] three_bytes_bytes3(2) [of a 0 0]
    by (simp add: digits4_def del: number4.simps)
next
  case (3 a b)
  have "number4 (take 3 (digits4 (bytes3 a b 0))) = number4 (digits4 (bytes3 a b 0))"
    by (subst (2) dropped_digits(2)) (simp add: digits4_def)
  then show ?case using number_digits4 [OF three_bytes_bytes3(1) [of a b 0]] three_bytes_bytes3(2) [of a b 0]
    by (simp add: digits4_def del: number4.simps)
next
  case (4 a b c rest)
  then show ?case using number_digits4 [OF three_bytes_bytes3(1) [of a b c]] three_bytes_bytes3(2) [of a b c]
    by (simp add: digits4_def del: number4.simps)
qed simp

lemma raw_decode_digits:
  assumes "\<forall>d \<in> set ds. d < 64"
  shows "raw_decode (map std_char (map url_digit ds)) = (case decode_digits ds of None \<Rightarrow> Err CorruptInputError | Some bs \<Rightarrow> Ok bs)"
proof -
  have "filter (\<lambda>c. c \<noteq> 10 \<and> c \<noteq> 13) (map std_char (map url_digit ds)) = map b64_digit ds"
    using assms by (induction ds) (simp_all add: all_digits)
  moreover have "those (map b64_value (map b64_digit ds)) = Some ds"
    using assms by (induction ds) (simp_all add: b64_value_digit)
  ultimately show ?thesis unfolding raw_decode_def by (simp del: map_map)
qed

lemma length_digit_list: "length (digit_list src) = (4 * length src + 2) div 3"
  by (induction src rule: digit_list.induct) (simp_all add: digits4_def)

section \<open>The property\<close>

text \<open>
  C24: The encoding of any bytes decodes to them. It is as long as base64 without padding, and no character of it is one of the three
  that base64 uses and URLs or file names give a meaning: plus, slash and the equals sign.
\<close>

theorem b64_roundtrip:
  "Decode (Encode src) = Ok src \<and> length (Encode src) = (4 * length src + 2) div 3 \<and> set (Encode src) \<inter> {43, 47, 61} = {}"
proof -
  have "Decode (Encode src) = Ok src"
    using raw_decode_digits [OF digit_list_small, of src] decode_digit_list [of src] by (simp add: Decode_chars Encode_digits)
  moreover have "set (Encode src) \<inter> {43, 47, 61} = {}"
    using digit_list_small [of src] all_digits(5) by (auto simp: Encode_digits)
  ultimately show ?thesis by (simp add: Encode_digits length_digit_list)
qed

end
