(* ===== verification/Go_Url.thy ===== *)
theory Go_Url
  imports Go_Strings Go_IP_Text
begin

text \<open>
  What the program uses of Go's package net/url, and the functions of package net that split and join hosts and ports. Of a parsed
  URL the program reads the scheme, the host and the query; user, path and fragment matter only in that they can be malformed.
\<close>

section \<open>Escapes\<close>

datatype esc_mode = EncodePath | EncodeUserPassword | EncodeHost | EncodeZone | EncodeQueryComponent | EncodeFragment

definition is_alnum :: "byte \<Rightarrow> bool" where
  "is_alnum c \<longleftrightarrow> 97 \<le> c \<and> c \<le> 122 \<or> 65 \<le> c \<and> c \<le> 90 \<or> is_digit c"

text \<open>\<^verbatim>\<open>shouldEscape\<close> in a host or a zone.\<close>

definition host_char :: "byte \<Rightarrow> bool" where
  "host_char c \<longleftrightarrow> is_alnum c \<or> c \<in> set (bytes_of ''!$&()*+,;=:[]<>-_.~'') \<or> c = 39 \<or> c = 34"

text \<open>
  \<^verbatim>\<open>unescape\<close>; \<^verbatim>\<open>None\<close> is an error. An escape in a host is of a byte that is not ASCII, or of the percent sign (37, written \<^verbatim>\<open>%25\<close>); a
  zone may also escape the characters of a host and the space.
\<close>

fun unescape :: "esc_mode \<Rightarrow> bytes \<Rightarrow> bytes option" where
  "unescape m [] = Some []"
| "unescape m (c # s) =
     (if c = 37 then
        (case s of
           h # l # r \<Rightarrow>
             (case (fromHexChar h, fromHexChar l) of
                (Some a, Some b) \<Rightarrow>
                  (let v = push_bit 4 a OR b in
                   if m = EncodeHost \<and> a < 8 \<and> v \<noteq> 37 then None
                   else if m = EncodeZone \<and> v \<noteq> 37 \<and> v \<noteq> 32 \<and> \<not> host_char v then None
                   else map_option ((#) v) (unescape m r))
              | _ \<Rightarrow> None)
         | _ \<Rightarrow> None)
      else if c = 43 then map_option ((#) (if m = EncodeQueryComponent then 32 else c)) (unescape m s)
      else if (m = EncodeHost \<or> m = EncodeZone) \<and> c < 128 \<and> \<not> host_char c then None
      else map_option ((#) c) (unescape m s))"

declare unescape.simps [simp del]

definition upperhex :: "byte \<Rightarrow> byte" where
  "upperhex d = (if d < 10 then 48 + d else 55 + d)"

text \<open>\<^verbatim>\<open>escape\<close> of a host.\<close>

definition escape_host :: "bytes \<Rightarrow> bytes" where
  "escape_host s = concat (map (\<lambda>c. if host_char c then [c] else [37, upperhex (drop_bit 4 c), upperhex (c AND 15)]) s)"

section \<open>Parsing\<close>

text \<open>\<^verbatim>\<open>getScheme\<close>: the scheme and the rest; \<^verbatim>\<open>None\<close> is the error of a missing scheme.\<close>

fun scheme_loop :: "bytes \<Rightarrow> bytes \<Rightarrow> bytes \<Rightarrow> (bytes \<times> bytes) option" where
  "scheme_loop raw acc [] = Some ([], raw)"
| "scheme_loop raw acc (c # s) =
     (if 97 \<le> c \<and> c \<le> 122 \<or> 65 \<le> c \<and> c \<le> 90 then scheme_loop raw (acc @ [c]) s
      else if is_digit c \<or> c = 43 \<or> c = 45 \<or> c = 46 then (if acc = [] then Some ([], raw) else scheme_loop raw (acc @ [c]) s)
      else if c = 58 then (if acc = [] then None else Some (acc, s))
      else Some ([], raw))"

definition getScheme :: "bytes \<Rightarrow> (bytes \<times> bytes) option" where
  "getScheme raw = scheme_loop raw [] raw"

definition validOptionalPort :: "bytes \<Rightarrow> bool" where
  "validOptionalPort port \<longleftrightarrow> port = [] \<or> (hd port = 58 \<and> list_all is_digit (tl port))"

definition validUserinfo :: "bytes \<Rightarrow> bool" where
  "validUserinfo s \<longleftrightarrow> list_all (\<lambda>c. is_alnum c \<or> c \<in> set (bytes_of ''-._:~!$&()*+,;=%@'') \<or> c = 39) s"

text \<open>The text before the first \<^verbatim>\<open>%25\<close> and from there on, if there is one.\<close>

fun cut_zone :: "bytes \<Rightarrow> bytes \<Rightarrow> (bytes \<times> bytes) option" where
  "cut_zone acc [] = None"
| "cut_zone acc (c # s) = (if take 3 (c # s) = [37, 50, 53] then Some (acc, c # s) else cut_zone (acc @ [c]) s)"

text \<open>\<^verbatim>\<open>parseHost\<close>; the brackets are 91 and 93.\<close>

definition parseHost :: "bytes \<Rightarrow> bytes option" where
  "parseHost host =
     (if take 1 host = [91] then
        (case cut_last 93 host of None \<Rightarrow> None
         | Some (before, colonPort) \<Rightarrow>
             if \<not> validOptionalPort colonPort then None
             else
               (case cut_zone [] before of
                  Some (host1, host2) \<Rightarrow>
                    (case (unescape EncodeHost host1, unescape EncodeZone host2, unescape EncodeHost (93 # colonPort)) of
                       (Some a, Some b, Some c) \<Rightarrow> Some (a @ b @ c)
                     | _ \<Rightarrow> None)
                | None \<Rightarrow> unescape EncodeHost host))
      else
        (case cut_last 58 host of
           Some (_, port) \<Rightarrow> if list_all is_digit port then unescape EncodeHost host else None
         | None \<Rightarrow> unescape EncodeHost host))"

text \<open>\<^verbatim>\<open>parseAuthority\<close>: the host. The user and the password, split at the first colon, must be valid and unescape.\<close>

definition parseAuthority :: "bytes \<Rightarrow> bytes option" where
  "parseAuthority authority =
     (case cut_last 64 authority of None \<Rightarrow> parseHost authority
      | Some (userinfo, h) \<Rightarrow>
          (case parseHost h of None \<Rightarrow> None
           | Some host \<Rightarrow>
               (case cut_at 58 userinfo of (username, password) \<Rightarrow>
                  if validUserinfo userinfo \<and> unescape EncodeUserPassword username \<noteq> None \<and>
                     (case password of None \<Rightarrow> True | Some p \<Rightarrow> unescape EncodeUserPassword p \<noteq> None)
                  then Some host else None)))"

record url =
  url_Scheme :: bytes
  url_Host :: bytes
  url_RawQuery :: bytes

text \<open>\<^verbatim>\<open>parse\<close> without the fragment; / is 47 and ? is 63.\<close>

definition parse_url :: "bytes \<Rightarrow> url option" where
  "parse_url raw =
     (if list_ex (\<lambda>b. b < 32 \<or> b = 127) raw then None
      else if raw = [42] then Some \<lparr>url_Scheme = [], url_Host = [], url_RawQuery = []\<rparr>
      else
        case getScheme raw of None \<Rightarrow> None
        | Some (scheme0, rest0) \<Rightarrow>
            let scheme = ToLower scheme0;
                (rest, q) = (case cut_at 63 rest0 of (r, Some q) \<Rightarrow> (r, q) | (r, None) \<Rightarrow> (r, []))
            in
            if take 1 rest \<noteq> [47] \<and> scheme \<noteq> [] then Some \<lparr>url_Scheme = scheme, url_Host = [], url_RawQuery = q\<rparr>
            else if take 1 rest \<noteq> [47] \<and> 58 \<in> set (fst (cut_at 47 rest)) then None
            else if (scheme \<noteq> [] \<or> take 3 rest \<noteq> [47, 47, 47]) \<and> take 2 rest = [47, 47] then
              (case cut_at 47 (drop 2 rest) of (authority, p) \<Rightarrow>
                 case parseAuthority authority of None \<Rightarrow> None
                 | Some host \<Rightarrow>
                     if unescape EncodePath (case p of None \<Rightarrow> [] | Some r \<Rightarrow> 47 # r) = None then None
                     else Some \<lparr>url_Scheme = scheme, url_Host = host, url_RawQuery = q\<rparr>)
            else if unescape EncodePath rest = None then None
            else Some \<lparr>url_Scheme = scheme, url_Host = [], url_RawQuery = q\<rparr>)"

definition url_Parse :: "bytes \<Rightarrow> url option" where
  "url_Parse raw =
     (case cut_at 35 raw of (u, frag) \<Rightarrow>
        case parse_url u of None \<Rightarrow> None
        | Some r \<Rightarrow> (case frag of None \<Rightarrow> Some r | Some f \<Rightarrow> if unescape EncodeFragment f = None then None else Some r))"

text \<open>\<^verbatim>\<open>Query\<close> and \<^verbatim>\<open>Get\<close>: malformed settings, and those with a semicolon, are left out.\<close>

definition query_setting :: "bytes \<Rightarrow> (bytes \<times> bytes) list" where
  "query_setting s =
     (if 59 \<in> set s \<or> s = [] then []
      else case cut_at 61 s of (k, v) \<Rightarrow>
        (case (unescape EncodeQueryComponent k, unescape EncodeQueryComponent (case v of None \<Rightarrow> [] | Some x \<Rightarrow> x)) of
           (Some k', Some v') \<Rightarrow> [(k', v')] | _ \<Rightarrow> []))"

definition query_Get :: "bytes \<Rightarrow> bytes \<Rightarrow> bytes" where
  "query_Get q key = (case map_of (concat (map query_setting (split_at 38 q))) key of Some v \<Rightarrow> v | None \<Rightarrow> [])"

text \<open>\<^verbatim>\<open>String\<close> of a URL with a scheme, a host that is not empty and a query.\<close>

definition url_String :: "url \<Rightarrow> bytes" where
  "url_String u =
     (if url_Scheme u \<noteq> [] then url_Scheme u @ [58] else []) @
     (if url_Host u \<noteq> [] then [47, 47] @ escape_host (url_Host u) else []) @
     (if url_RawQuery u \<noteq> [] then 63 # url_RawQuery u else [])"

section \<open>Hosts and ports\<close>

definition SplitHostPort :: "bytes \<Rightarrow> (bytes \<times> bytes) option" where
  "SplitHostPort hostport =
     (case cut_last 58 hostport of None \<Rightarrow> None
      | Some (before, port) \<Rightarrow>
          if take 1 hostport = [91] then
            (case cut_at 93 hostport of
               (h, Some r) \<Rightarrow>
                 if r = 58 # port \<and> 91 \<notin> set (drop 1 hostport) \<and> 93 \<notin> set r then Some (drop 1 h, port) else None
             | (h, None) \<Rightarrow> None)
          else if 58 \<in> set before \<or> 91 \<in> set hostport \<or> 93 \<in> set hostport then None
          else Some (before, port))"

definition JoinHostPort :: "bytes \<Rightarrow> bytes \<Rightarrow> bytes" where
  "JoinHostPort host port = (if 58 \<in> set host then 91 # host @ [93, 58] @ port else host @ 58 # port)"

text \<open>\<^verbatim>\<open>TCPAddr.String\<close> without a zone.\<close>

definition addr_String :: "bytes \<Rightarrow> nat \<Rightarrow> bytes" where
  "addr_String ip port = JoinHostPort (if ip = [] then [] else IP_String ip) (dec port)"

text \<open>\<^verbatim>\<open>strconv.ParseUint\<close> with base 10 and 16 bits.\<close>

definition ParseUint16 :: "bytes \<Rightarrow> uint16 option" where
  "ParseUint16 s =
     (if s = [] then None
      else case dec_nat s 0 of Some n \<Rightarrow> if n \<le> 65535 then Some (of_nat n) else None | None \<Rightarrow> None)"

end
