(* ===== verification/Node_Url.thy ===== *)
theory Node_Url
  imports Node Go_Url
begin

text \<open>
  The URL form of nodes (discover/node.go): \<^verbatim>\<open>xfsnode://host:port?id=...\<close> with the identifier in hexadecimal.
\<close>

datatype url_error = BadUrl | BadScheme | BadHost | BadIP | BadPort | NoID | BadID node_error

definition NewNode :: "ip \<Rightarrow> uint16 \<Rightarrow> uint16 \<Rightarrow> nodeid \<Rightarrow> node" where
  "NewNode ip tcpPort udpPort nid = newNode ip tcpPort udpPort nid"

definition UdpAddr :: "node \<Rightarrow> udpaddr" where
  "UdpAddr n = node_addr n"

definition Node_String :: "node \<Rightarrow> bytes" where
  "Node_String n =
     url_String \<lparr>url_Scheme = bytes_of ''xfsnode'', url_Host = addr_String (node_IP n) (unat (node_TCP n)),
       url_RawQuery = bytes_of ''id='' @ hex_encode (id_bytes (node_ID n))\<rparr>"

definition ParseNode :: "bytes \<Rightarrow> (url_error, node) res" where
  "ParseNode rawurl =
     (case url_Parse rawurl of None \<Rightarrow> Err BadUrl
      | Some u \<Rightarrow>
          if url_Scheme u \<noteq> bytes_of ''xfsnode'' then Err BadScheme
          else case SplitHostPort (url_Host u) of None \<Rightarrow> Err BadHost
          | Some (host, port) \<Rightarrow>
              (case ParseIP host of None \<Rightarrow> Err BadIP
               | Some ip0 \<Rightarrow>
                   let ip = (case To4 ip0 of Some ipv4 \<Rightarrow> ipv4 | None \<Rightarrow> ip0) in
                   (case ParseUint16 port of None \<Rightarrow> Err BadPort
                    | Some tcpPort \<Rightarrow>
                        let nId = query_Get (url_RawQuery u) (bytes_of ''id'') in
                        if nId = [] then Err NoID
                        else case Hex2NodeId nId of
                          Ok i \<Rightarrow> Ok (newNode ip tcpPort tcpPort i)
                        | Err e \<Rightarrow> Err (BadID e)
                        | Panic \<Rightarrow> Panic)))"

section \<open>Text that needs no escape\<close>

lemma unescape_plain:
  assumes "\<forall>c \<in> set s. c \<noteq> 37 \<and> c \<noteq> 43" "m = EncodeHost \<or> m = EncodeZone \<Longrightarrow> \<forall>c \<in> set s. host_char c"
  shows "unescape m s = Some s"
  using assms by (induction s) (auto simp: unescape.simps)

lemma escape_host_plain: "\<forall>c \<in> set s. host_char c \<Longrightarrow> escape_host s = s"
  by (induction s) (simp_all add: escape_host_def)

text \<open>The characters of an address with its port, and what they are not.\<close>

definition addr_char :: "byte \<Rightarrow> bool" where
  "addr_char c \<longleftrightarrow> is_hex c \<or> c \<in> {46, 58, 91, 93}"

lemma hex_range: "is_hex c \<Longrightarrow> is_alnum c"
  by (auto simp: is_hex_def fromHexChar_def is_alnum_def is_digit_def split: if_splits intro: order.trans)

lemma alnum_marks: "is_alnum c \<Longrightarrow> c \<notin> {35, 37, 38, 42, 43, 46, 47, 58, 59, 61, 63, 64, 91, 93, 127} \<and> 32 \<le> c"
  using order.trans [of 32 97 c] order.trans [of 32 65 c] order.trans [of 32 48 c]
  by (auto simp: is_alnum_def is_digit_def)

lemma addr_char_marks:
  assumes "addr_char c"
  shows "host_char c" "c \<notin> {35, 37, 42, 43, 47, 63, 64, 127}" "32 \<le> c"
proof -
  have "is_hex c \<or> c \<in> {46, 58, 91, 93}" using assms by (simp add: addr_char_def)
  then show "host_char c" "c \<notin> {35, 37, 42, 43, 47, 63, 64, 127}" "32 \<le> c"
    using hex_range [of c] alnum_marks [of c] by (auto simp: host_char_def bytes_of_def)
qed

lemma digit_hex: "is_digit c \<Longrightarrow> is_hex c"
  by (simp add: is_digit_def is_hex_def fromHexChar_def)

lemma dec_chars: "c \<in> set (dec n) \<Longrightarrow> is_digit c" "c \<in> set (dec n) \<Longrightarrow> is_hex c" "46 \<notin> set (dec n)" "58 \<notin> set (dec n)" "91 \<notin> set (dec n)"
  "93 \<notin> set (dec n)"
  using dec_digits [of n] by (auto simp: list_all_iff is_digit_def is_hex_def fromHexChar_def)

lemma cut_zone_none: "37 \<notin> set s \<Longrightarrow> cut_zone acc s = None"
  by (induction s arbitrary: acc) auto

text \<open>The address of a node in its URL, and that splitting it gives its parts.\<close>

lemma addr_String_v4:
  assumes "To4 ip = Some ip4"
  shows "\<forall>c \<in> set (addr_String ip p). addr_char c" "parseHost (addr_String ip p) = Some (addr_String ip p)"
    "SplitHostPort (addr_String ip p) = Some (IP_String ip, dec p)"
proof -
  have ip: "ip \<noteq> []" using assms by (auto simp: To4_def)
  have t: "IP_String ip = dotted ip4" using assms by (simp add: IP_String_def)
  have dot: "\<forall>c \<in> set (dotted ip4). is_digit c \<or> c = 46" using dec_chars(1) by (auto simp: dotted_def bytes_of_def)
  then have no: "58 \<notin> set (dotted ip4)" "91 \<notin> set (dotted ip4)" "93 \<notin> set (dotted ip4)" by (auto simp: is_digit_def)
  have H: "addr_String ip p = dotted ip4 @ 58 # dec p" using ip no by (simp add: addr_String_def JoinHostPort_def t)
  show chars: "\<forall>c \<in> set (addr_String ip p). addr_char c"
    using dot dec_chars(2) digit_hex unfolding H by (auto simp: addr_char_def)
  then have un: "unescape EncodeHost (addr_String ip p) = Some (addr_String ip p)"
    by (intro unescape_plain) (auto dest: addr_char_marks)
  have hd: "take 1 (addr_String ip p) \<noteq> [91]" using no(2) unfolding H by (cases "dotted ip4") auto
  have cut: "cut_last 58 (addr_String ip p) = Some (dotted ip4, dec p)" unfolding H by (rule cut_last_append) (rule dec_chars)
  show "parseHost (addr_String ip p) = Some (addr_String ip p)"
    unfolding parseHost_def cut using hd un dec_digits [of p] by simp
  show "SplitHostPort (addr_String ip p) = Some (IP_String ip, dec p)"
    unfolding SplitHostPort_def cut using hd no dec_chars(5,6) [of p] by (simp add: H t)
qed

lemma addr_String_v6:
  assumes "length ip = 16" "To4 ip = None"
  shows "\<forall>c \<in> set (addr_String ip p). addr_char c" "parseHost (addr_String ip p) = Some (addr_String ip p)"
    "SplitHostPort (addr_String ip p) = Some (IP_String ip, dec p)"
proof -
  have ip: "ip \<noteq> []" using assms by auto
  note v6 = ParseIP_v6 [OF assms]
  have no: "91 \<notin> set (IP_String ip)" "93 \<notin> set (IP_String ip)" "37 \<notin> set (IP_String ip)"
    using v6(2) by (auto simp: is_hex_def fromHexChar_def)
  have H: "addr_String ip p = 91 # IP_String ip @ 93 # 58 # dec p" using ip v6(3) by (simp add: addr_String_def JoinHostPort_def)
  show chars: "\<forall>c \<in> set (addr_String ip p). addr_char c"
    using v6(2) dec_chars(2) unfolding H by (auto simp: addr_char_def)
  then have un: "unescape EncodeHost (addr_String ip p) = Some (addr_String ip p)"
    by (intro unescape_plain) (auto dest: addr_char_marks)
  have "cut_last 93 (addr_String ip p) = Some (91 # IP_String ip, 58 # dec p)"
    unfolding H using cut_last_append [of 93 "58 # dec p" "91 # IP_String ip"] dec_chars(6) [of p] by simp
  then show "parseHost (addr_String ip p) = Some (addr_String ip p)"
    using un no(3) dec_digits [of p] by (simp add: parseHost_def validOptionalPort_def cut_zone_none H)
  have "cut_last 58 (addr_String ip p) = Some (91 # IP_String ip @ [93], dec p)"
    unfolding H using cut_last_append [of 58 "dec p" "91 # IP_String ip @ [93]"] dec_chars(4) [of p] by simp
  moreover have "cut_at 93 (addr_String ip p) = (91 # IP_String ip, Some (58 # dec p))"
    unfolding H using cut_at_append [of 93 "91 # IP_String ip" "58 # dec p"] no(2) by simp
  ultimately show "SplitHostPort (addr_String ip p) = Some (IP_String ip, dec p)"
    using no dec_chars(5,6) [of p] by (simp add: SplitHostPort_def H)
qed

lemma addr_String_nil:
  "\<forall>c \<in> set (addr_String [] p). addr_char c" "parseHost (addr_String [] p) = Some (addr_String [] p)"
  "SplitHostPort (addr_String [] p) = Some ([], dec p)"
proof -
  have H: "addr_String [] p = 58 # dec p" by (simp add: addr_String_def JoinHostPort_def)
  show chars: "\<forall>c \<in> set (addr_String [] p). addr_char c" using dec_chars(2) unfolding H by (auto simp: addr_char_def)
  then have un: "unescape EncodeHost (addr_String [] p) = Some (addr_String [] p)"
    by (intro unescape_plain) (auto dest: addr_char_marks)
  have cut: "cut_last 58 (addr_String [] p) = Some ([], dec p)"
    unfolding H using cut_last_append [of 58 "dec p" "[]"] dec_chars(4) [of p] by simp
  show "parseHost (addr_String [] p) = Some (addr_String [] p)"
    unfolding parseHost_def cut using un dec_digits [of p] by (simp add: H)
  show "SplitHostPort (addr_String [] p) = Some ([], dec p)"
    unfolding SplitHostPort_def cut using dec_chars(5,6) [of p] by (simp add: H)
qed

lemma addr_String_parts:
  assumes "ip_ok ip" "ip \<noteq> []"
  shows "\<forall>c \<in> set (addr_String ip p). addr_char c" "parseHost (addr_String ip p) = Some (addr_String ip p)"
    "SplitHostPort (addr_String ip p) = Some (IP_String ip, dec p)"
proof -
  have "To4 ip \<noteq> None \<or> length ip = 16 \<and> To4 ip = None" using assms by (auto simp: ip_ok_def To4_def)
  then show "\<forall>c \<in> set (addr_String ip p). addr_char c" "parseHost (addr_String ip p) = Some (addr_String ip p)"
    "SplitHostPort (addr_String ip p) = Some (IP_String ip, dec p)"
    using addr_String_v4 addr_String_v6 by auto
qed

lemma addr_chars:
  assumes "ip_ok ip"
  shows "\<forall>c \<in> set (addr_String ip p). addr_char c" "parseHost (addr_String ip p) = Some (addr_String ip p)"
  using addr_String_nil [of p] addr_String_parts [OF assms, of p] by (cases "ip = []"; simp)+

section \<open>The URL of a node\<close>

lemma scheme_xfsnode: "getScheme (bytes_of ''xfsnode'' @ 58 # s) = Some (bytes_of ''xfsnode'', s)"
  by (simp add: getScheme_def bytes_of_def is_digit_def)

lemma url_Parse_node:
  assumes "\<forall>c \<in> set H. addr_char c" "parseHost H = Some H" "\<forall>c \<in> set q. c \<noteq> 35 \<and> c \<noteq> 127 \<and> 32 \<le> c"
  shows "url_Parse (bytes_of ''xfsnode'' @ 58 # 47 # 47 # H @ 63 # q) =
    Some \<lparr>url_Scheme = bytes_of ''xfsnode'', url_Host = H, url_RawQuery = q\<rparr>"
proof -
  let ?raw = "bytes_of ''xfsnode'' @ 58 # 47 # 47 # H @ 63 # q"
  have H: "35 \<notin> set H" "63 \<notin> set H" "47 \<notin> set H" "64 \<notin> set H" "\<forall>c \<in> set H. c \<noteq> 127 \<and> 32 \<le> c"
    using assms(1) addr_char_marks by blast+
  have "35 \<notin> set ?raw" using H(1) assms(3) by (auto simp: bytes_of_def)
  then have frag: "cut_at 35 ?raw = (?raw, None)" by (rule cut_at_none)
  have ctl: "\<not> list_ex (\<lambda>b. b < 32 \<or> b = 127) ?raw"
    using H(5) assms(3) by (auto simp: bytes_of_def list_ex_iff)
  have "63 \<notin> set (47 # 47 # H)" using H(2) by simp
  from cut_at_append [OF this, of q] have query: "cut_at 63 (47 # 47 # H @ 63 # q) = (47 # 47 # H, Some q)" by simp
  have lower: "ToLower (bytes_of ''xfsnode'') = bytes_of ''xfsnode''" by (simp add: bytes_of_def ToLower.simps)
  have "cut_at 47 H = (H, None)" "parseAuthority H = Some H"
    using cut_at_none [OF H(3)] cut_last_none [OF H(4)] assms(2) by (simp_all add: parseAuthority_def)
  moreover have "bytes_of ''xfsnode'' \<noteq> []" "?raw \<noteq> [42]" by (simp_all add: bytes_of_def)
  ultimately have "parse_url ?raw = Some \<lparr>url_Scheme = bytes_of ''xfsnode'', url_Host = H, url_RawQuery = q\<rparr>"
    using ctl unfolding parse_url_def scheme_xfsnode by (simp add: query lower unescape.simps)
  then show ?thesis by (simp add: url_Parse_def frag)
qed

lemma hex_encode_chars: "c \<in> set (hex_encode bs) \<Longrightarrow> is_hex c"
proof -
  have "is_hex (hextable n)" if "n < 16" for n using fromHexChar_hextable [OF that] by (simp add: is_hex_def)
  then show "c \<in> set (hex_encode bs) \<Longrightarrow> is_hex c" by (auto simp: hex_encode_def nibbles_less)
qed

lemma query_Get_id:
  assumes "\<forall>c \<in> set h. is_hex c"
  shows "query_Get (bytes_of ''id='' @ h) (bytes_of ''id'') = h"
proof -
  let ?q = "bytes_of ''id='' @ h"
  have h: "c \<notin> {37, 38, 43, 59, 61}" if "c \<in> set h" for c using assms hex_range alnum_marks that by blast
  have "split_at 38 ?q = [?q]" by (rule split_at_plain) (use h in \<open>auto simp: bytes_of_def\<close>)
  moreover have "59 \<notin> set ?q" "?q \<noteq> []" using h by (auto simp: bytes_of_def)
  moreover have "cut_at 61 ?q = (bytes_of ''id'', Some h)" using cut_at_append [of 61 "bytes_of ''id''" h] by (simp add: bytes_of_def)
  moreover have "unescape EncodeQueryComponent h = Some h" by (rule unescape_plain) (use h in auto)
  moreover have "unescape EncodeQueryComponent (bytes_of ''id'') = Some (bytes_of ''id'')"
    by (rule unescape_plain) (auto simp: bytes_of_def)
  ultimately show ?thesis by (simp add: query_Get_def query_setting_def)
qed

lemma Node_String_eq:
  assumes "ip_ok (node_IP n)"
  shows "Node_String n = bytes_of ''xfsnode'' @ 58 # 47 # 47 # addr_String (node_IP n) (unat (node_TCP n)) @
    63 # bytes_of ''id='' @ NodeId_String (node_ID n)"
proof -
  have "escape_host (addr_String (node_IP n) (unat (node_TCP n))) = addr_String (node_IP n) (unat (node_TCP n))"
    using addr_chars(1) [OF assms] addr_char_marks(1) by (intro escape_host_plain) blast
  moreover have "addr_String (node_IP n) (unat (node_TCP n)) \<noteq> []" by (simp add: addr_String_def JoinHostPort_def)
  ultimately show ?thesis by (simp add: Node_String_def url_String_def NodeId_String_def bytes_of_def)
qed

definition short_ip :: "bytes \<Rightarrow> bytes" where
  "short_ip ip = (case To4 ip of Some ip4 \<Rightarrow> ip4 | None \<Rightarrow> ip)"

lemma short_normal: "ip_ok ip \<Longrightarrow> ip \<noteq> [] \<Longrightarrow> short_ip (normal_ip ip) = short_ip ip"
  by (auto simp: short_ip_def normal_ip_def To16_def To4_def ip_ok_def)

lemma ParseNode_String:
  assumes "ip_ok (node_IP n)" "node_IP n \<noteq> []"
  shows "ParseNode (Node_String n) = Ok (newNode (short_ip (node_IP n)) (node_TCP n) (node_TCP n) (node_ID n))"
proof -
  let ?h = "NodeId_String (node_ID n)"
  note addr = addr_String_parts [OF assms, of "unat (node_TCP n)"]
  have hx: "\<forall>c \<in> set ?h. is_hex c" using hex_encode_chars by (auto simp: NodeId_String_def)
  have "\<forall>c \<in> set (bytes_of ''id='' @ ?h). c \<noteq> 35 \<and> c \<noteq> 127 \<and> 32 \<le> c"
    using hx hex_range alnum_marks by (auto simp: bytes_of_def)
  from url_Parse_node [OF addr(1,2) this] have u: "url_Parse (Node_String n) =
      Some \<lparr>url_Scheme = bytes_of ''xfsnode'', url_Host = addr_String (node_IP n) (unat (node_TCP n)),
        url_RawQuery = bytes_of ''id='' @ ?h\<rparr>" by (simp add: Node_String_eq [OF assms(1)])
  have port: "ParseUint16 (dec (unat (node_TCP n))) = Some (node_TCP n)"
  proof -
    have "unat (node_TCP n) < 65536" using unsigned_less [of "node_TCP n"] by simp
    then show ?thesis by (simp add: ParseUint16_def dec_nonempty)
  qed
  have ne: "?h \<noteq> []" by (auto simp: NodeId_String_def dest: arg_cong [where f = length])
  have ip: "(case To4 (normal_ip (node_IP n)) of None \<Rightarrow> normal_ip (node_IP n) | Some v \<Rightarrow> v) = short_ip (node_IP n)"
    using short_normal [OF assms] by (simp add: short_ip_def)
  show ?thesis
    unfolding ParseNode_def u by (simp add: addr(3) ParseIP_String [OF assms] port query_Get_id [OF hx] ne Hex2NodeId_String ip)
qed

text \<open>A node without an address has a URL that does not parse.\<close>

lemma ParseNode_nil:
  assumes "node_IP n = []"
  shows "ParseNode (Node_String n) = Err BadIP"
proof -
  have ok: "ip_ok (node_IP n)" using assms by (simp add: ip_ok_def)
  have hx: "\<forall>c \<in> set (NodeId_String (node_ID n)). is_hex c" using hex_encode_chars by (auto simp: NodeId_String_def)
  then have "\<forall>c \<in> set (bytes_of ''id='' @ NodeId_String (node_ID n)). c \<noteq> 35 \<and> c \<noteq> 127 \<and> 32 \<le> c"
    using hex_range alnum_marks by (auto simp: bytes_of_def)
  from url_Parse_node [OF addr_String_nil(1,2) this, of "unat (node_TCP n)"]
  have "url_Parse (Node_String n) = Some \<lparr>url_Scheme = bytes_of ''xfsnode'', url_Host = addr_String [] (unat (node_TCP n)),
      url_RawQuery = bytes_of ''id='' @ NodeId_String (node_ID n)\<rparr>" by (simp add: Node_String_eq [OF ok] assms)
  moreover have "ParseIP [] = None" by (simp add: ParseIP_def)
  ultimately show ?thesis by (simp add: ParseNode_def addr_String_nil(3))
qed

text \<open>Neither a blank nor a comma occurs in the URL of a node.\<close>

lemma Node_String_marks:
  assumes "ip_ok (node_IP n)"
  shows "32 \<notin> set (Node_String n)" "44 \<notin> set (Node_String n)" "Node_String n \<noteq> []"
proof -
  have hex: "c \<noteq> 32 \<and> c \<noteq> 44" if "is_hex c" for c using that by (auto simp: is_hex_def fromHexChar_def)
  have "c \<noteq> 32 \<and> c \<noteq> 44" if "c \<in> set (addr_String (node_IP n) p)" for c p
  proof -
    have "is_hex c \<or> c \<in> {46, 58, 91, 93}" using addr_chars(1) [OF assms, of p] that by (auto simp: addr_char_def)
    then show ?thesis using hex [of c] by auto
  qed
  moreover have "c \<noteq> 32 \<and> c \<noteq> 44" if "c \<in> set (NodeId_String i)" for c i
    using that hex hex_encode_chars by (auto simp: NodeId_String_def)
  ultimately show "32 \<notin> set (Node_String n)" "44 \<notin> set (Node_String n)" "Node_String n \<noteq> []"
    unfolding Node_String_eq [OF assms] by (auto simp: bytes_of_def)
qed

section \<open>What parses\<close>

lemma all_some_length: "all_some xs = Some ys \<Longrightarrow> length ys = length xs"
  by (induction xs arbitrary: ys rule: all_some.induct) auto

lemma v6_done_length: "length acc \<le> 16 \<Longrightarrow> v6_done acc e = Some ip \<Longrightarrow> length ip = 16"
  by (auto simp: v6_done_def split: if_splits option.splits)

lemma parseIPv4_length: "parseIPv4 s = Some ip4 \<Longrightarrow> length ip4 = 4"
  by (auto simp: parseIPv4_def dest!: all_some_length split: if_splits)

lemma v6_groups_length: "2 * k + length acc = 16 \<Longrightarrow> v6_groups k acc e s = Some ip \<Longrightarrow> length ip = 16"
proof (induction k acc e s rule: v6_groups.induct)
  case (2 k acc e s)
  then show ?case
    by (auto simp: Let_def split: if_splits option.splits list.splits dest!: v6_done_length [rotated] dest: parseIPv4_length)
qed simp

lemma ParseIP_length: "ParseIP s = Some ip \<Longrightarrow> length ip = 16"
  by (auto simp: ParseIP_def parseIPv6_def dest: v6_groups_length [of 8 "[]", simplified] parseIPv4_length
      split: option.splits if_splits)

lemma Hex2NodeId_no_panic [simp]: "Hex2NodeId s \<noteq> Panic"
  by (auto simp: Hex2NodeId_def Let_def split: prod.splits option.splits if_splits)

lemma ParseNode_no_panic [simp]: "ParseNode s \<noteq> Panic"
  by (auto simp: ParseNode_def Let_def split: option.splits if_splits prod.splits res.splits)

section \<open>The properties\<close>

text \<open>
  C20: The URL of a node parses. For every node with an IPv4 or IPv6 address, parsing what String prints gives a node with the same
  identifier, address and TCP port. The URL does not hold the UDP port: the parsed node has the TCP port in its place, so that
  exactly the nodes with equal ports and an address in its short form are read back unchanged.
\<close>

theorem node_url_roundtrip:
  assumes "ip_ok (node_IP n)" "node_IP n \<noteq> []"
  shows "ParseNode (Node_String n) = Ok (newNode (short_ip (node_IP n)) (node_TCP n) (node_TCP n) (node_ID n)) \<and>
    (ParseNode (Node_String n) = Ok n \<longleftrightarrow>
       node_UDP n = node_TCP n \<and> short_ip (node_IP n) = node_IP n \<and> node_Hash n = ByteHash256 (id_bytes (node_ID n)))"
  using ParseNode_String [OF assms] by (cases n) (auto simp: newNode_def)


definition demo_url_node :: node where
  "demo_url_node = newNode [0x20, 1, 0xD, 0xB8, 0, 0, 0, 0, 0, 0, 0, 0, 0, 0, 0, 1] 9001 9002 (id_of [7])"

theorem node_url_roundtrip_witness:
  "ParseNode (Node_String demo_url_node) = Ok (newNode (node_IP demo_url_node) 9001 9001 (id_of [7]))"
proof -
  have "ip_ok (node_IP demo_url_node)" "node_IP demo_url_node \<noteq> []" "short_ip (node_IP demo_url_node) = node_IP demo_url_node"
    by (simp_all add: demo_url_node_def ip_ok_def short_ip_def To4_def v4InV6Prefix_def)
  then show ?thesis using node_url_roundtrip [of demo_url_node] by (simp add: demo_url_node_def)
qed

end
