(* ===== verification/Chat.thy ===== *)
theory Chat
  imports Server Node_Url
begin

text \<open>
  examples/chat: a program over the server. Lines typed at the terminal are commands or are sent to all sessions; what arrives in a
  session is printed. Sessions are objects that the server, their goroutines and the chat share, so the chat names them by address.
  What the program sends to the loop of the server is logged in \<^verbatim>\<open>cp_sent\<close>, what it prints in \<^verbatim>\<open>cp_out\<close>; where Go ranges over the map of
  sessions the order is an argument.
\<close>

datatype chat_out = Printed bytes | Addpeer_error url_error | Rmpeer_error node_error

record chatProtocol =
  cp_ps :: "(nodeid \<times> nat) list"
  cp_sessions :: "nat \<Rightarrow> peer"
  cp_node :: "node option"
  cp_sent :: "srv_event list"
  cp_out :: "chat_out list"

definition print_out :: "chat_out list \<Rightarrow> chatProtocol \<Rightarrow> chatProtocol" where
  "print_out os cp = cp\<lparr>cp_out := cp_out cp @ os\<rparr>"

section \<open>Receiving\<close>

definition chat_line :: "nodeid \<Rightarrow> bytes \<Rightarrow> bytes" where
  "chat_line nId bs =
     bytes_of ''<('' @ hex_encode (take 3 (id_bytes nId)) @ bytes_of ''...'' @ hex_encode (drop 61 (id_bytes nId)) @
     bytes_of ''): '' @ bs @ [10]"

text \<open>\<^verbatim>\<open>handleMsg\<close> waits for a message or, here \<^verbatim>\<open>None\<close>, for the session to be closed.\<close>

definition handleMsg :: "nodeid \<Rightarrow> message option \<Rightarrow> chatProtocol \<Rightarrow> chatProtocol" where
  "handleMsg nId got cp =
     (case got of None \<Rightarrow> cp
      | Some mr \<Rightarrow> if msg_type mr = 4 then print_out [Printed (chat_line nId (snd (message_ReadAll mr)))] cp else cp)"

text \<open>
  A turn of the loop of \<^verbatim>\<open>Run\<close> finds the session closed, or calls \<^verbatim>\<open>handleMsg\<close>. \<^verbatim>\<open>None\<close> is a loop that still waits after the given turns;
  \<^verbatim>\<open>handleMsg\<close> returns no error, so \<^verbatim>\<open>Run\<close> does not either.
\<close>

datatype run_turn = Closed_seen | Waited "message option"

fun run_turns :: "nodeid \<Rightarrow> run_turn list \<Rightarrow> chatProtocol \<Rightarrow> chatProtocol \<times> (unit, unit) res option" where
  "run_turns nId [] cp = (cp, None)"
| "run_turns nId (Closed_seen # ts) cp = (cp, Some (Ok ()))"
| "run_turns nId (Waited got # ts) cp = run_turns nId ts (handleMsg nId got cp)"

definition chat_Run :: "nat \<Rightarrow> run_turn list \<Rightarrow> chatProtocol \<Rightarrow> chatProtocol \<times> (unit, unit) res option" where
  "chat_Run a turns cp =
     (let nId = peer_ID (cp_sessions cp a) in
      case run_turns nId turns (cp\<lparr>cp_ps := AList.update nId a (cp_ps cp)\<rparr>) of
        (cp1, None) \<Rightarrow> (cp1, None)
      | (cp1, Some r) \<Rightarrow> (cp1\<lparr>cp_ps := AList.delete nId (cp_ps cp1)\<rparr>, Some r))"

section \<open>Sending\<close>

definition send_one :: "bytes \<Rightarrow> nodeid \<Rightarrow> chatProtocol \<Rightarrow> chatProtocol" where
  "send_one txt nId cp =
     (case map_of (cp_ps cp) nId of None \<Rightarrow> cp
      | Some a \<Rightarrow> cp\<lparr>cp_sessions := (cp_sessions cp)(a := fst (WriteMessage 4 txt (cp_sessions cp a)))\<rparr>)"

definition sendMessage :: "nodeid list \<Rightarrow> bytes \<Rightarrow> chatProtocol \<Rightarrow> chatProtocol" where
  "sendMessage order txt = fold (send_one txt) order"

definition chat :: "nodeid list \<Rightarrow> bytes \<Rightarrow> (chatProtocol, unit, unit) prog" where
  "chat order txt cp =
     (let cs = split_at 32 (drop 1 txt); command = cs ! 0 in
      if take 1 txt = bytes_of ''/'' \<and> command = bytes_of ''peers'' then
        (print_out (map (\<lambda>pId. Printed (bytes_of ''peer id: '' @ NodeId_String pId @ [10])) order) cp, Ok ())
      else if take 1 txt = bytes_of ''/'' \<and> command = bytes_of ''addpeer'' \<and> length cs = 2 \<and> cs ! 1 \<noteq> [] then
        (case ParseNode (cs ! 1) of
           Ok n \<Rightarrow> (cp\<lparr>cp_sent := cp_sent cp @ [AddPeer n]\<rparr>, Ok ())
         | Err e \<Rightarrow> (print_out [Addpeer_error e] cp, Ok ())
         | Panic \<Rightarrow> (cp, Panic))
      else if take 1 txt = bytes_of ''/'' \<and> command = bytes_of ''rmpeer'' \<and> length cs = 2 \<and> cs ! 1 \<noteq> [] then
        (case Hex2NodeId (cs ! 1) of
           Ok nid \<Rightarrow> (cp\<lparr>cp_sent := cp_sent cp @ [RemovePeer nid]\<rparr>, Ok ())
         | Err e \<Rightarrow> (print_out [Rmpeer_error e] cp, Ok ())
         | Panic \<Rightarrow> (cp, Panic))
      else if take 1 txt = bytes_of ''/'' \<and> command = bytes_of ''info'' then
        (case cp_node cp of None \<Rightarrow> (cp, Panic)
         | Some node \<Rightarrow>
             (print_out [Printed (bytes_of ''nodeId: '' @ NodeId_String (node_ID node) @ [10]),
                Printed (bytes_of ''connect url: '' @ Node_String node @ [10])] cp, Ok ()))
      else (sendMessage order txt cp, Ok ()))"

section \<open>The terminal\<close>

text \<open>
  \<^verbatim>\<open>ReadLine\<close> of bufio with its buffer of 4096 bytes: a line without its end, or the part of a longer one that fills the buffer. A
  carriage return at the end of a full buffer stays in it.
\<close>

definition ReadLine :: "bytes \<Rightarrow> (bytes \<times> bytes) option" where
  "ReadLine s =
     (if s = [] then None
      else case first_index (\<lambda>b. b = 10) (take 4096 s) of
        Some i \<Rightarrow> (let l = take i s in Some (if l \<noteq> [] \<and> last l = 13 then butlast l else l, drop (Suc i) s))
      | None \<Rightarrow>
          if length s < 4096 then Some (s, [])
          else if last (take 4096 s) = 13 then Some (take 4095 s, drop 4095 s)
          else Some (take 4096 s, drop 4096 s))"

lemma ReadLine_shorter: "ReadLine s = Some (l, rest) \<Longrightarrow> length rest < length s"
  by (cases s) (auto simp: ReadLine_def Let_def split: option.splits if_splits)

text \<open>\<^verbatim>\<open>eof\<close> says whether the terminal ends with EOF or with another error.\<close>

function input :: "bool \<Rightarrow> (bytes \<Rightarrow> ('s, unit, unit) prog) \<Rightarrow> bytes \<Rightarrow> ('s, unit, unit) prog" where
  "input eof fn s =
     (case ReadLine s of
        None \<Rightarrow> if eof then ret () else (\<lambda>st. (st, Panic))
      | Some (line, rest) \<Rightarrow>
          if line = [] then input eof fn rest else prog_bind (fn line) (\<lambda>_. input eof fn rest))"
  by pat_completeness auto
termination
  by (relation "measure (\<lambda>(eof, fn, s). length s)") (auto simp: ReadLine_shorter)

declare input.simps [simp del]

text \<open>The callback of \<^verbatim>\<open>main\<close>, with the order of each call.\<close>

definition chat_call :: "(nat \<Rightarrow> nodeid list) \<Rightarrow> bytes \<Rightarrow> (nat \<times> chatProtocol, unit, unit) prog" where
  "chat_call order txt st =
     (case st of (k, cp) \<Rightarrow> (case chat (order k) txt cp of (cp1, r) \<Rightarrow> ((Suc k, cp1), r)))"

section \<open>Starting\<close>

definition resolveNodeUris :: "bytes \<Rightarrow> node list" where
  "resolveNodeUris s =
     (if s = [] then []
      else List.map_filter (\<lambda>item. case ParseNode item of Ok node \<Rightarrow> Some node | _ \<Rightarrow> None) (split_at 44 s))"

text \<open>\<^verbatim>\<open>Intn i\<close> is the answer to the \<^verbatim>\<open>i\<close>-th call of \<^verbatim>\<open>rand.Intn(34)\<close>.\<close>

definition chat_alphabet :: bytes where
  "chat_alphabet = bytes_of ''0123456789abcdefghijklmnopqrstuvwxyz''"

fun randomStr :: "(nat \<Rightarrow> nat) \<Rightarrow> nat \<Rightarrow> (unit, bytes) res" where
  "randomStr Intn 0 = Ok []"
| "randomStr Intn (Suc k) =
     (let index = Intn k + 1 in
      res_bind (randomStr Intn k)
        (\<lambda>buf. if index < length chat_alphabet then Ok (buf @ [chat_alphabet ! index]) else Panic))"

definition chat_config :: "int \<Rightarrow> bytes \<Rightarrow> config" where
  "chat_config maxPeers static =
     \<lparr>cfg_Discover = True, cfg_MaxPeers = maxPeers, cfg_Nat = True, cfg_StaticNodes = resolveNodeUris static\<rparr>"

abbreviation parsed :: "bytes \<Rightarrow> node option" where
  "parsed item \<equiv> (case ParseNode item of Ok node \<Rightarrow> Some node | _ \<Rightarrow> None)"

lemma ParseNode_Nil [simp]: "ParseNode [] = Err BadScheme"
proof -
  have "getScheme [] = Some ([], [])" by (simp add: getScheme_def)
  then have "parse_url [] = Some \<lparr>url_Scheme = [], url_Host = [], url_RawQuery = []\<rparr>"
    by (simp add: parse_url_def cut_at_def ToLower.simps unescape.simps)
  then have "url_Parse [] = Some \<lparr>url_Scheme = [], url_Host = [], url_RawQuery = []\<rparr>" by (simp add: url_Parse_def cut_at_def)
  then show ?thesis by (simp add: ParseNode_def bytes_of_def)
qed

lemma resolveNodeUris_split: "resolveNodeUris s = List.map_filter parsed (split_at 44 s)"
  by (simp add: resolveNodeUris_def List.map_filter_def)

lemma map_filter_cong: "(\<And>x. x \<in> set xs \<Longrightarrow> f x = g x) \<Longrightarrow> List.map_filter f xs = List.map_filter g xs"
  by (simp add: List.map_filter_def cong: filter_cong)

section \<open>What is sent\<close>

text \<open>The lines that are no command. A command with a missing or superfluous argument is none, nor is an unknown one.\<close>

definition says :: "bytes \<Rightarrow> bool" where
  "says txt \<longleftrightarrow>
     (let cs = split_at 32 (drop 1 txt) in
      take 1 txt = bytes_of ''/'' \<longrightarrow>
        cs ! 0 \<noteq> bytes_of ''peers'' \<and> cs ! 0 \<noteq> bytes_of ''info'' \<and>
        (cs ! 0 = bytes_of ''addpeer'' \<or> cs ! 0 = bytes_of ''rmpeer'' \<longrightarrow> length cs \<noteq> 2 \<or> cs ! 1 = []))"

definition chat_ok :: "chatProtocol \<Rightarrow> bool" where
  "chat_ok cp \<longleftrightarrow> distinct (map fst (cp_ps cp)) \<and> (\<forall>(i, a) \<in> set (cp_ps cp). peer_ID (cp_sessions cp a) = i)"

lemma chat_says: "says txt \<Longrightarrow> chat order txt cp = (sendMessage order txt cp, Ok ())"
  unfolding says_def chat_def Let_def by auto

lemma chat_command:
  assumes "\<not> says txt" "cp_node cp \<noteq> None"
  shows "\<exists>cp'. chat order txt cp = (cp', Ok ()) \<and> cp_ps cp' = cp_ps cp \<and> cp_sessions cp' = cp_sessions cp \<and> cp_node cp' = cp_node cp"
  using assms unfolding says_def chat_def Let_def
  by (auto simp: print_out_def split: res.splits)

lemma WriteMessage_sound:
  "sound_conn p \<Longrightarrow> WriteMessage t d p =
     (p\<lparr>p_conn := (p_conn p)\<lparr>c_out := c_out (p_conn p) @ frame (pc_version (p_pc p)) t d\<rparr>\<rparr>, False)"
  by (simp add: WriteMessage_def writeMessage_def conn_write_def)

lemma WriteMessage_pc [simp]: "p_pc (fst (WriteMessage t d p)) = p_pc p" "peer_ID (fst (WriteMessage t d p)) = peer_ID p"
  by (auto simp: WriteMessage_def peer_ID_def split: prod.splits res.splits)

lemma sendMessage_keeps:
  "cp_ps (sendMessage order txt cp) = cp_ps cp" "cp_node (sendMessage order txt cp) = cp_node cp"
  "peer_ID (cp_sessions (sendMessage order txt cp) b) = peer_ID (cp_sessions cp b)"
  unfolding sendMessage_def by (induction order arbitrary: cp) (auto simp: send_one_def split: option.splits)

lemma sendMessage_session:
  assumes "map_of (cp_ps cp) i = Some a" "\<And>j. map_of (cp_ps cp) j = Some a \<Longrightarrow> j = i" "distinct order"
  shows "cp_sessions (sendMessage order txt cp) a =
    (if i \<in> set order then fst (WriteMessage 4 txt (cp_sessions cp a)) else cp_sessions cp a)"
  using assms
proof (induction order arbitrary: cp)
  case Nil
  show ?case by (simp add: sendMessage_def)
next
  case (Cons j order)
  let ?cp = "send_one txt j cp"
  have ps: "cp_ps ?cp = cp_ps cp" by (simp add: send_one_def split: option.split)
  have "map_of (cp_ps cp) j \<noteq> Some a" if "j \<noteq> i" using Cons.prems(2) that by blast
  then have one: "cp_sessions ?cp a = (if j = i then fst (WriteMessage 4 txt (cp_sessions cp a)) else cp_sessions cp a)"
    using Cons.prems(1) by (simp add: send_one_def split: option.split)
  have "cp_sessions (sendMessage order txt ?cp) a =
      (if i \<in> set order then fst (WriteMessage 4 txt (cp_sessions ?cp a)) else cp_sessions ?cp a)"
  proof (rule Cons.IH)
    show "map_of (cp_ps ?cp) i = Some a" unfolding ps by (rule Cons.prems(1))
    show "h = i" if "map_of (cp_ps ?cp) h = Some a" for h using that unfolding ps by (rule Cons.prems(2))
    show "distinct order" using Cons.prems(3) by simp
  qed
  moreover have "sendMessage (j # order) txt cp = sendMessage order txt ?cp" by (simp add: sendMessage_def)
  ultimately show ?case using Cons.prems(3) one by auto
qed

lemma chat_ok_map:
  assumes "chat_ok cp" "(i, a) \<in> set (cp_ps cp)"
  shows "map_of (cp_ps cp) i = Some a" "map_of (cp_ps cp) j = Some a \<Longrightarrow> j = i"
proof -
  show "map_of (cp_ps cp) i = Some a" using assms by (simp add: chat_ok_def)
  have "peer_ID (cp_sessions cp a) = h" if "(h, a) \<in> set (cp_ps cp)" for h using assms(1) that by (auto simp: chat_ok_def)
  then show "j = i" if "map_of (cp_ps cp) j = Some a" using assms(2) map_of_SomeD [OF that] by metis
qed

section \<open>What is typed\<close>

fun each_line :: "(bytes \<Rightarrow> ('s, unit, unit) prog) \<Rightarrow> bytes list \<Rightarrow> ('s, unit, unit) prog" where
  "each_line fn [] = ret ()"
| "each_line fn (l # ls) = prog_bind (fn l) (\<lambda>_. each_line fn ls)"

definition typable :: "bytes \<Rightarrow> bool" where
  "typable l \<longleftrightarrow> length l < 4096 \<and> 10 \<notin> set l \<and> (l = [] \<or> last l \<noteq> 13)"

abbreviation typed :: "bytes list \<Rightarrow> bytes" where
  "typed ls \<equiv> concat (map (\<lambda>l. l @ [10]) ls)"

lemma first_index_append: "\<forall>x \<in> set xs. \<not> P x \<Longrightarrow> P y \<Longrightarrow> first_index P (xs @ y # ys) = Some (length xs)"
  by (induction xs) auto

lemma ReadLine_typed:
  assumes "typable l"
  shows "ReadLine (l @ 10 # s) = Some (l, s)"
proof -
  have l: "length l < 4096" "\<forall>b \<in> set l. b \<noteq> 10" "\<not> (l \<noteq> [] \<and> last l = 13)" using assms by (auto simp: typable_def)
  have "take 4096 (l @ 10 # s) = l @ 10 # take (4095 - length l) s"
    using l(1) by (simp add: take_Cons')
  with first_index_append [OF l(2), of 10] have "first_index (\<lambda>b. b = 10) (take 4096 (l @ 10 # s)) = Some (length l)" by simp
  moreover have "take (length l) (l @ 10 # s) = l" "drop (Suc (length l)) (l @ 10 # s) = s" by simp_all
  ultimately show ?thesis using l(3) by (auto simp: ReadLine_def Let_def simp del: take_append drop_append)
qed

lemma input_typed: "list_all typable ls \<Longrightarrow> input True fn (typed ls) = each_line fn (filter (\<lambda>l. l \<noteq> []) ls)"
proof (induction ls)
  case Nil
  then show ?case by (simp add: input.simps [of True fn "[]"] ReadLine_def)
next
  case (Cons l ls)
  then show ?case using ReadLine_typed [of l "typed ls"] by (simp add: input.simps [of True fn "l @ _"])
qed

text \<open>What one session gets of the lines that are typed.\<close>

lemma chat_call_session:
  assumes "chat_ok cp" "cp_node cp \<noteq> None" "(i, a) \<in> set (cp_ps cp)" "sound_conn (cp_sessions cp a)" "distinct (order k)" "i \<in> set (order k)"
  shows "\<exists>cp'. chat_call order l (k, cp) = ((Suc k, cp'), Ok ()) \<and> chat_ok cp' \<and> cp_node cp' \<noteq> None \<and> cp_ps cp' = cp_ps cp \<and>
    sound_conn (cp_sessions cp' a) \<and> p_pc (cp_sessions cp' a) = p_pc (cp_sessions cp a) \<and>
    c_out (p_conn (cp_sessions cp' a)) = c_out (p_conn (cp_sessions cp a)) @
      (if says l then frame (pc_version (p_pc (cp_sessions cp a))) 4 l else [])"
proof (cases "says l")
  case True
  let ?cp = "sendMessage (order k) l cp"
  have "cp_sessions ?cp a = fst (WriteMessage 4 l (cp_sessions cp a))"
    using sendMessage_session [OF chat_ok_map [OF assms(1,3)] assms(5), of l] assms(6) by simp
  moreover have "chat_ok ?cp" using assms(1) by (simp add: chat_ok_def sendMessage_keeps)
  moreover have "chat_call order l (k, cp) = ((Suc k, ?cp), Ok ())" by (simp add: chat_call_def chat_says [OF True])
  ultimately show ?thesis using assms(2,4) True by (simp add: sendMessage_keeps WriteMessage_sound)
next
  case False
  obtain cp' where "chat (order k) l cp = (cp', Ok ())" "cp_ps cp' = cp_ps cp" "cp_sessions cp' = cp_sessions cp" "cp_node cp' = cp_node cp"
    using chat_command [OF False assms(2)] by blast
  with False assms(1,2,4) show ?thesis by (simp add: chat_call_def chat_ok_def)
qed

lemma each_line_session:
  assumes "chat_ok cp" "cp_node cp \<noteq> None" "(i, a) \<in> set (cp_ps cp)" "sound_conn (cp_sessions cp a)" "\<forall>k. distinct (order k) \<and> i \<in> set (order k)"
  shows "\<exists>k' cp'. each_line (chat_call order) ls (k, cp) = ((k', cp'), Ok ()) \<and>
    c_out (p_conn (cp_sessions cp' a)) = c_out (p_conn (cp_sessions cp a)) @
      concat (map (frame (pc_version (p_pc (cp_sessions cp a))) 4) (filter says ls))"
  using assms(1-4)
proof (induction ls arbitrary: k cp)
  case Nil
  then show ?case by (simp add: ret_def)
next
  case (Cons l ls)
  obtain cp1 where c: "chat_call order l (k, cp) = ((Suc k, cp1), Ok ())" "chat_ok cp1" "cp_node cp1 \<noteq> None" "cp_ps cp1 = cp_ps cp"
    "sound_conn (cp_sessions cp1 a)" "p_pc (cp_sessions cp1 a) = p_pc (cp_sessions cp a)"
    "c_out (p_conn (cp_sessions cp1 a)) = c_out (p_conn (cp_sessions cp a)) @
       (if says l then frame (pc_version (p_pc (cp_sessions cp a))) 4 l else [])"
    using chat_call_session [OF Cons.prems, of order k l] assms(5) by blast
  have "(i, a) \<in> set (cp_ps cp1)" using Cons.prems(3) c(4) by simp
  from Cons.IH [OF c(2,3) this c(5), of "Suc k"] c(6,7) show ?case by (auto simp: prog_bind_def c(1))
qed

text \<open>What a session prints of the messages it gets.\<close>

lemma run_turns_print:
  "cp_out (fst (run_turns nId (map (\<lambda>m. Waited (Some m)) ms) cp)) =
     cp_out cp @ map (\<lambda>m. Printed (chat_line nId (msg_data m))) (filter (\<lambda>m. msg_type m = 4) ms) \<and>
   snd (run_turns nId (map (\<lambda>m. Waited (Some m)) ms) cp) = None"
  by (induction ms arbitrary: cp) (simp_all add: handleMsg_def print_out_def message_ReadAll_def)

lemma chat_Run_print:
  "cp_out (fst (chat_Run b (map (\<lambda>m. Waited (Some m)) ms) cp)) =
     cp_out cp @ map (\<lambda>m. Printed (chat_line (peer_ID (cp_sessions cp b)) (msg_data m))) (filter (\<lambda>m. msg_type m = 4) ms)"
proof -
  let ?i = "peer_ID (cp_sessions cp b)"
  note p = run_turns_print [of ?i ms "cp\<lparr>cp_ps := AList.update ?i b (cp_ps cp)\<rparr>"]
  then obtain cp1 where "run_turns ?i (map (\<lambda>m. Waited (Some m)) ms) (cp\<lparr>cp_ps := AList.update ?i b (cp_ps cp)\<rparr>) = (cp1, None)"
    by (metis prod.collapse)
  with p show ?thesis by (simp add: chat_Run_def)
qed

lemma sent_lines_printed:
  assumes "\<forall>l \<in> set ls. length l < 2 ^ 32"
  shows "\<exists>p. readLoop now taken 0 (newPeer start c \<lparr>c_in = concat (map (frame v 4) ls), c_out = [], c_writable = True, c_closed = False\<rparr>) =
      (p, Ok ()) \<and>
    cp_out (fst (chat_Run b (map (\<lambda>m. Waited (Some m)) (p_delivered p)) far)) =
      cp_out far @ map (\<lambda>l. Printed (chat_line (peer_ID (cp_sessions far b)) l)) ls"
proof -
  let ?ms = "map (\<lambda>l. (4 :: byte, l)) ls"
  let ?p = "newPeer start c \<lparr>c_in = concat (map (frame v 4) ls), c_out = [], c_writable = True, c_closed = False\<rparr>"
  have "\<forall>(t, d) \<in> set ?ms. length d < 2 ^ 32" using assms by auto
  moreover have "c_in (p_conn ?p) = wire v ?ms" by (simp add: newPeer_def comp_def)
  ultimately obtain p where p: "readLoop now taken 0 ?p = (p, Ok ())"
    "map (\<lambda>m. (msg_type m, msg_data m)) (p_delivered p) = filter (\<lambda>(t, d). t \<noteq> typePingMsg \<and> t \<noteq> typePongMsg) ?ms"
    using readLoop_wire [of ?ms ?p v now taken 0] by (auto simp: newPeer_def)
  have d: "map (\<lambda>m. (msg_type m, msg_data m)) (p_delivered p) = ?ms"
    unfolding p(2) by (rule filter_True) (auto simp: message_types)
  have all: "\<forall>m \<in> set (p_delivered p). msg_type m = 4"
  proof
    fix m
    assume "m \<in> set (p_delivered p)"
    then have "(msg_type m, msg_data m) \<in> set (map (\<lambda>m. (msg_type m, msg_data m)) (p_delivered p))" by simp
    then show "msg_type m = 4" unfolding d by auto
  qed
  have "map msg_data (p_delivered p) = ls" using arg_cong [OF d, of "map snd"] by (simp add: comp_def)
  then have "map (\<lambda>m. Printed (chat_line (peer_ID (cp_sessions far b)) (msg_data m))) (p_delivered p) =
      map (\<lambda>l. Printed (chat_line (peer_ID (cp_sessions far b)) l)) ls" by (metis (no_types, lifting) map_eq_conv map_map comp_def)
  with p(1) all chat_Run_print show ?thesis by (auto simp: filter_True)
qed

section \<open>The properties\<close>

text \<open>
  C11: What is typed is read on the other side. The text of a terminal, line by line, is carried out by chat; of the lines exactly those
  that are no command reach each session with a working connection, whatever happens to the other sessions and in whatever order they
  are served; the read loop at the other end hands them to the chat there, and it prints them, each once and in order, with the
  identifier of the sender.
\<close>

theorem typed_lines_are_printed:
  assumes "chat_ok cp" "cp_node cp \<noteq> None" "(i, a) \<in> set (cp_ps cp)"
    and "c_writable (p_conn (cp_sessions cp a))" "\<not> c_closed (p_conn (cp_sessions cp a))"
    and "\<forall>k. distinct (order k) \<and> set (order k) = fst ` set (cp_ps cp)" "list_all typable ls"
  shows "\<exists>k' cp' sent. input True (chat_call order) (concat (map (\<lambda>l. l @ [10]) ls)) (k, cp) = ((k', cp'), Ok ()) \<and>
    c_out (p_conn (cp_sessions cp' a)) = c_out (p_conn (cp_sessions cp a)) @ sent \<and>
    (\<forall>now taken start c b far.
      \<exists>p. readLoop now taken 0 (newPeer start c \<lparr>c_in = sent, c_out = [], c_writable = True, c_closed = False\<rparr>) = (p, Ok ()) \<and>
        cp_out (fst (chat_Run b (map (\<lambda>m. Waited (Some m)) (p_delivered p)) far)) =
          cp_out far @ map (\<lambda>l. Printed (chat_line (peer_ID (cp_sessions far b)) l)) (filter (\<lambda>l. l \<noteq> [] \<and> says l) ls))"
proof -
  let ?v = "pc_version (p_pc (cp_sessions cp a))" and ?ls = "filter says (filter (\<lambda>l. l \<noteq> []) ls)"
  have ord: "\<forall>k. distinct (order k) \<and> i \<in> set (order k)" using assms(3,6) by (metis fst_conv image_eqI)
  obtain k' cp' where c: "each_line (chat_call order) (filter (\<lambda>l. l \<noteq> []) ls) (k, cp) = ((k', cp'), Ok ())"
    "c_out (p_conn (cp_sessions cp' a)) = c_out (p_conn (cp_sessions cp a)) @ concat (map (frame ?v 4) ?ls)"
    using each_line_session [OF assms(1-3) _ ord] assms(4,5) by blast
  have "\<forall>l \<in> set ?ls. length l < 2 ^ 32" using assms(7) by (auto simp: list_all_iff typable_def)
  note sent_lines_printed [OF this, of _ _ _ _ ?v]
  with c input_typed [OF assms(7), of "chat_call order"] show ?thesis by (auto simp: conj_commute)
qed

definition demo_chat :: chatProtocol where
  "demo_chat = \<lparr>cp_ps = [(id_of [2], 0), (id_of [3], 1)],
     cp_sessions = (\<lambda>a. newPeer 1 (demo_server\<lparr>pc_id := if a = 0 then id_of [2] else id_of [3]\<rparr>)
       \<lparr>c_in = [], c_out = [], c_writable = a = 0, c_closed = False\<rparr>),
     cp_node = Some (newNode [10, 0, 0, 1] 9001 9001 (id_of [1])), cp_sent = [], cp_out = []\<rparr>"

theorem typed_lines_are_printed_witness:
  "\<exists>k' cp' p. input True (chat_call (\<lambda>_. [id_of [2], id_of [3]])) (bytes_of ''hi'' @ [10, 10] @ bytes_of ''/info'' @ [10]) (0, demo_chat) =
      ((k', cp'), Ok ()) \<and>
    readLoop (\<lambda>_. 5) (\<lambda>_. 0) 0 (newPeer 1 demo_server
      \<lparr>c_in = c_out (p_conn (cp_sessions cp' 0)), c_out = [], c_writable = True, c_closed = False\<rparr>) = (p, Ok ()) \<and>
    cp_out (fst (chat_Run 0 (map (\<lambda>m. Waited (Some m)) (p_delivered p)) demo_chat)) = [Printed (chat_line (id_of [2]) (bytes_of ''hi''))]"
proof -
  let ?ls = "[bytes_of ''hi'', [], bytes_of ''/info'']"
  have ne: "id_of [2] \<noteq> id_of [3]" unfolding nodeid_eq_iff by (simp add: array_of_def go_copy_def numeral_eq_Suc)
  have out: "c_out (p_conn (cp_sessions demo_chat 0)) = []" "peer_ID (cp_sessions demo_chat 0) = id_of [2]" "cp_out demo_chat = []"
    by (simp_all add: demo_chat_def newPeer_def peer_ID_def)
  have says: "filter (\<lambda>l. l \<noteq> [] \<and> says l) ?ls = [bytes_of ''hi'']" by (simp add: says_def bytes_of_def Let_def)
  have "chat_ok demo_chat" "cp_node demo_chat \<noteq> None" "(id_of [2], 0) \<in> set (cp_ps demo_chat)"
    "c_writable (p_conn (cp_sessions demo_chat 0))" "\<not> c_closed (p_conn (cp_sessions demo_chat 0))"
    "\<forall>k :: nat. distinct [id_of [2], id_of [3]] \<and> set [id_of [2], id_of [3]] = fst ` set (cp_ps demo_chat)" "list_all typable ?ls"
    using ne by (simp_all add: demo_chat_def chat_ok_def newPeer_def peer_ID_def typable_def bytes_of_def)
  from typed_lines_are_printed [OF this, of 0] obtain k' cp' sent where
    i: "input True (chat_call (\<lambda>_. [id_of [2], id_of [3]])) (typed ?ls) (0, demo_chat) = ((k', cp'), Ok ())"
      "c_out (p_conn (cp_sessions cp' 0)) = [] @ sent"
    and far: "\<And>now taken start c b far.
      \<exists>p. readLoop now taken 0 (newPeer start c \<lparr>c_in = sent, c_out = [], c_writable = True, c_closed = False\<rparr>) = (p, Ok ()) \<and>
        cp_out (fst (chat_Run b (map (\<lambda>m. Waited (Some m)) (p_delivered p)) far)) =
          cp_out far @ map (\<lambda>l. Printed (chat_line (peer_ID (cp_sessions far b)) l)) [bytes_of ''hi'']"
    unfolding out says by blast
  from far [of "\<lambda>_. 5" "\<lambda>_. 0" 1 demo_server 0 demo_chat] obtain p where
    "readLoop (\<lambda>_. 5) (\<lambda>_. 0) 0 (newPeer 1 demo_server \<lparr>c_in = sent, c_out = [], c_writable = True, c_closed = False\<rparr>) = (p, Ok ())"
    "cp_out (fst (chat_Run 0 (map (\<lambda>m. Waited (Some m)) (p_delivered p)) demo_chat)) = [Printed (chat_line (id_of [2]) (bytes_of ''hi''))]"
    by (auto simp: out)
  moreover have "sent = c_out (p_conn (cp_sessions cp' 0))" using i(2) by simp
  moreover have "typed ?ls = bytes_of ''hi'' @ [10, 10] @ bytes_of ''/info'' @ [10]" by simp
  ultimately show ?thesis using i(1) by (intro exI conjI) (simp_all only:)
qed

text \<open>
  C40: The connect url of a running program. What info prints after the server started at an address is accepted by addpeer of any other
  program, which tells its server to keep a connection to just this node and port. The exception is a server that listens at all
  addresses, as it does by default: its URL has no host, and addpeer answers that it is no address.
\<close>

theorem connect_url_accepted:
  assumes "Start (Some (port, True)) (Some ip) (newServer nid (chat_config m static) ds0) = (srv, Ok ())" "ip_ok ip"
    and "cp_node cp = sv_node srv"
  shows "\<exists>url. chat order (bytes_of ''/info'') cp =
      (print_out [Printed (bytes_of ''nodeId: '' @ NodeId_String nid @ [10]), Printed (bytes_of ''connect url: '' @ url @ [10])] cp, Ok ()) \<and>
    chat order' (bytes_of ''/addpeer '' @ url) far =
      (if ip = [] then print_out [Addpeer_error BadIP] far
       else far\<lparr>cp_sent := cp_sent far @ [AddPeer (newNode (short_ip ip) (of_nat port) (of_nat port) nid)]\<rparr>, Ok ())"
proof -
  let ?n = "newNode ip (of_nat port) (of_nat port) nid"
  have "sv_node srv = Some ?n"
    using assms(1) by (auto simp: Start_def chat_config_def newServer_def listenAndServe_def prog_bind_def Let_def split: res.splits)
  then have info: "chat order (bytes_of ''/info'') cp = (print_out [Printed (bytes_of ''nodeId: '' @ NodeId_String nid @ [10]),
      Printed (bytes_of ''connect url: '' @ Node_String ?n @ [10])] cp, Ok ())"
    using assms(3) by (simp add: chat_def bytes_of_def newNode_def)
  have ok: "ip_ok (node_IP ?n)" using assms(2) by (simp add: newNode_def)
  have "split_at 32 (bytes_of ''addpeer'' @ 32 # Node_String ?n) = bytes_of ''addpeer'' # split_at 32 (Node_String ?n)"
    by (rule split_at_append) (simp add: bytes_of_def)
  then have "split_at 32 (drop 1 (bytes_of ''/addpeer '' @ Node_String ?n)) = [bytes_of ''addpeer'', Node_String ?n]"
    using split_at_plain [OF Node_String_marks(1) [OF ok]] by (simp add: bytes_of_def)
  moreover have "ParseNode (Node_String ?n) =
      (if ip = [] then Err BadIP else Ok (newNode (short_ip ip) (of_nat port) (of_nat port) nid))"
    using ParseNode_nil [of ?n] ParseNode_String [OF ok] by (simp add: newNode_def)
  ultimately have "chat order' (bytes_of ''/addpeer '' @ Node_String ?n) far =
      (if ip = [] then print_out [Addpeer_error BadIP] far
       else far\<lparr>cp_sent := cp_sent far @ [AddPeer (newNode (short_ip ip) (of_nat port) (of_nat port) nid)]\<rparr>, Ok ())"
    using Node_String_marks(3) [OF ok] by (simp add: chat_def Let_def bytes_of_def)
  with info show ?thesis by blast
qed

text \<open>
  The nodes given on the command line. A list of node URLs separated by commas is read as the nodes in this order, and an item that
  is no node URL is left out without harm to the others.
\<close>

theorem node_list_resolved:
  assumes "\<forall>x \<in> set xs. case x of Inl junk \<Rightarrow> 44 \<notin> set junk \<and> (\<forall>n. ParseNode junk \<noteq> Ok n)
    | Inr n \<Rightarrow> ip_ok (node_IP n) \<and> node_IP n \<noteq> []"
  shows "resolveNodeUris (join_with 44 (map (case_sum (\<lambda>junk. junk) Node_String) xs)) =
    List.map_filter (case_sum (\<lambda>_. None) (\<lambda>n. Some (newNode (short_ip (node_IP n)) (node_TCP n) (node_TCP n) (node_ID n)))) xs"
proof (cases "xs = []")
  case True
  then show ?thesis by (simp add: resolveNodeUris_def)
next
  case False
  let ?f = "case_sum (\<lambda>junk. junk) Node_String"
  have "\<forall>s \<in> set (map ?f xs). 44 \<notin> set s" using assms Node_String_marks(2) by (auto split: sum.splits)
  then have "resolveNodeUris (join_with 44 (map ?f xs)) = List.map_filter parsed (map ?f xs)"
    using False by (simp add: resolveNodeUris_split split_join)
  also have "\<dots> = List.map_filter (\<lambda>x. parsed (?f x)) xs" by (simp add: List.map_filter_def comp_def filter_map)
  also have "\<dots> = List.map_filter (case_sum (\<lambda>_. None) (\<lambda>n. Some (newNode (short_ip (node_IP n)) (node_TCP n) (node_TCP n) (node_ID n)))) xs"
    using assms by (intro map_filter_cong) (auto simp: ParseNode_String split: sum.splits res.splits)
  finally show ?thesis .
qed

definition demo_chat_node :: node where
  "demo_chat_node = newNode [10, 0, 0, 1] 9001 9001 (id_of [1])"

theorem node_list_resolved_witness:
  "resolveNodeUris (bytes_of '','' @ Node_String demo_chat_node) = [demo_chat_node]"
  using node_list_resolved [of "[Inl [], Inr demo_chat_node]"]
  by (simp add: demo_chat_node_def bytes_of_def newNode_def ip_ok_def short_ip_def To4_def List.map_filter_def)

theorem connect_url_accepted_witness:
  "\<exists>url srv. Start (Some (9001, True)) (Some [10, 0, 0, 1]) (newServer (id_of [1]) (chat_config 10 []) demo_dial) = (srv, Ok ()) \<and>
    snd (chat [] (bytes_of ''/info'') (demo_chat\<lparr>cp_node := sv_node srv\<rparr>)) = Ok () \<and>
    chat [] (bytes_of ''/addpeer '' @ url) demo_chat = (demo_chat\<lparr>cp_sent := [AddPeer demo_chat_node]\<rparr>, Ok ())"
proof -
  obtain srv where srv: "Start (Some (9001, True)) (Some [10, 0, 0, 1]) (newServer (id_of [1]) (chat_config 10 []) demo_dial) = (srv, Ok ())"
    by (simp add: Start_def newServer_def chat_config_def resolveNodeUris_def newDialState_def quot2_def listenAndServe_def prog_bind_def)
  have ip: "ip_ok [10, 0, 0, 1]" "cp_node (demo_chat\<lparr>cp_node := sv_node srv\<rparr>) = sv_node srv" by (simp_all add: ip_ok_def)
  have n: "cp_sent demo_chat = []" "newNode (short_ip [10, 0, 0, 1]) (of_nat 9001) (of_nat 9001) (id_of [1]) = demo_chat_node"
    by (simp_all add: demo_chat_def demo_chat_node_def short_ip_def To4_def)
  show ?thesis using connect_url_accepted [OF srv ip, of "[]" "[]" demo_chat] srv unfolding n by auto
qed

text \<open>The name of a data directory never contains the first or the last letter of the alphabet.\<close>

theorem randomStr_letters:
  assumes "\<forall>i. Intn i < 34"
  shows "\<exists>buf. randomStr Intn k = Ok buf \<and> length buf = k \<and> set buf \<subseteq> set chat_alphabet - {48, 122}"
proof (induction k)
  case (Suc k)
  let ?cs = "take 34 (drop 1 chat_alphabet)"
  have len: "length chat_alphabet = 36" "length ?cs = 34" by (simp_all add: chat_alphabet_def bytes_of_def)
  have cs: "set ?cs \<subseteq> set chat_alphabet - {48, 122}" by (simp add: chat_alphabet_def bytes_of_def)
  have "?cs ! Intn k \<in> set ?cs" using assms len by (intro nth_mem) simp
  moreover have "?cs ! Intn k = chat_alphabet ! (Intn k + 1)" using assms len by simp
  ultimately have "chat_alphabet ! (Intn k + 1) \<in> set chat_alphabet - {48, 122}" using cs by auto
  moreover have "Intn k + 1 < length chat_alphabet" using assms [rule_format, of k] len by simp
  ultimately show ?case using Suc by auto
qed simp

end
