(* ===== verification/Spec2Isabelle.thy ===== *)
theory Spec2Isabelle
  imports Server Random_Nodes Bonding Search Node_Records Port_Mapping Urlsafe_B64 Node_Url Chat
begin

text \<open>
  \<^bold>\<open>xlibp2p, a peer-to-peer network stack in Go.\<close>

  A process has a server (server.go) with TCP sessions to its peers, and a discovery service (discover/) that finds other nodes over
  UDP. The server asks the dial scheduler (dial.go) which nodes to connect to; the scheduler takes them from its static nodes, from
  the routing table (discover/table.go) and from network searches. A connection becomes a session by a hello exchange
  (peerconn.go, message.go) and then carries messages, heartbeats and the application protocols (peer.go). The discovery service
  exchanges JSON packets (discover/udp.go, discover/types.go), bonds with nodes before it believes what they say, keeps them in the
  table and remembers them in a database (discover/nodedb.go) over a key-value store (storage/badger). Port mappings on a router are
  made by package nat. Base58, addresses, signatures and hashes are in common/ and crypto/.

  \<^bold>\<open>How the code is modelled.\<close> Definitions carry the names of the source. A Go call returns \<^verbatim>\<open>Ok\<close>, \<^verbatim>\<open>Err\<close> or \<^verbatim>\<open>Panic\<close>; a call with
  effects is a function from its state to the new state and such an outcome, so that what was done before an error stays done.
  Structs are records, fixed-width integers are words, slices are lists with Go's bounds checks as branches. Goroutines are the steps
  they take, and theorems hold for every order of the steps. Times are nanoseconds. What the program gets from outside is an
  argument: the bytes and the outcomes of connections, the clock, random numbers, the order in which Go ranges over a map, and what
  libraries that are not part of the sources answer: the Badger engine (with the laws of a sorted map, locale \<^verbatim>\<open>kv_store\<close>), the
  NAT-PMP and UPnP clients, RIPEMD-160 and the elliptic curve. Go's standard library is modelled where the program uses it, as of
  Go 1.20.

  \<^bold>\<open>Theories.\<close>

  \<^item> Prelude: outcomes, programs, byte strings, slices, list lemmas, the locales \<^verbatim>\<open>guarded\<close> and \<^verbatim>\<open>preserving\<close> for runs of operations that
    keep an invariant. Go_Binary, Go_Search, Go_Heap, Go_IP, Go_IP_Text, Go_Varint, Go_Json, Go_Json_Decode, Go_Strings, Go_Url: the parts of
    Go's packages encoding/binary, encoding/hex, math/big, sort, container/heap, net, encoding/json, strings and net/url. Sha256: SHA-256 word
    by word.
  \<^item> Base58, Common_Types, Crypto, Urlsafe_B64 (common/, crypto/): text forms, hashes, addresses with checksums, signatures. Round
    trips of all encodings; an address made from a key verifies.
  \<^item> Node, Node_Url, Nodes_By_Distance, Buckets, Random_Nodes (discover/node.go, discover/table.go): identifiers, nodes as
    URLs, the Kademlia metric, the routing table. Every URL that parses gives a well-formed node, whose URL parses to it; \<^verbatim>\<open>distcmp\<close> is a linear order by exclusive-or distance and \<^verbatim>\<open>logdist\<close> its bit length (locale \<^verbatim>\<open>distance_order\<close>); the table stays
    well formed under every operation; \<^verbatim>\<open>closest\<close> equals sorting the whole table; random nodes are distinct and in bounds.
  \<^item> Rpc, Packet, Udp_Loop, Discovery (discover/types.go, discover/udp.go): packets byte for byte, the loop that matches replies with
    requests, the handlers. Packets that are sent decode to themselves; each request is answered exactly once; which packets can
    never be sent.
  \<^item> Storage, NodeDB, Node_Records (storage/badger, discover/nodedb.go): the store over any engine, the records of nodes with their
    expiry, and what the database promises: a book with one record per node, refined by every operation (locale \<^verbatim>\<open>simulation\<close>).
  \<^item> Bond, Bonding, Lookup, Search (discover/table.go): one call of \<^verbatim>\<open>bond\<close> as a function of the network's answers, concurrent calls as a
    step relation, the search loop, and \<^verbatim>\<open>Lookup\<close>, \<^verbatim>\<open>refresh\<close> and \<^verbatim>\<open>Bootstrap\<close> as wholes over table, database and network. Exclusion and
    absence of deadlock; searches find the closest nodes; bootstrapping ends.
  \<^item> Message, Handshake, Peer (message.go, peerconn.go, peer.go): framing, the two sides of the handshake composed over the wire, the
    session. Go_Heap, Dial, Server (dial.go, server.go): the dial history on a binary heap (locale \<^verbatim>\<open>priority_queue\<close>), task selection, the
    server loop. No early redial, bounds on dynamic dials and tasks, and where dials are lost.
  \<^item> Chat (examples/chat): the example program over the stack. What is typed at one terminal is printed at the other; node lists and connect
    urls are read as the nodes they name.
  \<^item> Port_Mapping (nat/): descriptions, discovery of a router, mappings and the loop that keeps one alive.

  \<^bold>\<open>Bounds.\<close> \<^verbatim>\<open>NewByVersion\<close> calls itself once after deleting the store, so two levels are enough. JSON texts are parsed with twice their length
  plus two steps, proved enough. \<^verbatim>\<open>Lookup\<close> and \<^verbatim>\<open>refresh\<close> call each other; four levels are proved to be enough. Loops are otherwise
  structural or have a termination proof.

  \<^bold>\<open>Not modelled.\<close> Logging (log/), opening sockets (\<^verbatim>\<open>ListenUDP\<close>, \<^verbatim>\<open>listenUDP\<close>), key generation and the x509 forms of keys (crypto/ecdsa,
  crypto/rsa and two functions of crypto/crypto.go): they only call libraries. Flags, data
  directory and signals of the chat program. Test hooks. Channels that carry no decision of the program are the order of the steps. The
  text of error messages.
\<close>

end
